(* ===== verification/Status.thy ===== *)
theory Status
  imports Main
begin

text \<open>
  \<open>include/Status.h\<close> and \<open>src/util/common/status.cc\<close>: the result of an operation, a code with a
  message. Lemmas: which predicate recognises which constructor.
\<close>

datatype Code =
    kOk | kNotFound | kNotSupported | kInvalidArgument | kIOError | kNotInitialized | kInternal
  | kUnauthorized | kTimedOut | kNoBuffer | kShardUnhealthy

record Status =
  status_code :: Code
  status_state :: string

definition OK :: Status where
  "OK = \<lparr>status_code = kOk, status_state = ''''\<rparr>"

definition NotFound :: "string \<Rightarrow> Status" where
  "NotFound msg = \<lparr>status_code = kNotFound, status_state = msg\<rparr>"

definition NotSupported :: "string \<Rightarrow> Status" where
  "NotSupported msg = \<lparr>status_code = kNotSupported, status_state = msg\<rparr>"

definition InvalidArgument :: "string \<Rightarrow> Status" where
  "InvalidArgument msg = \<lparr>status_code = kInvalidArgument, status_state = msg\<rparr>"

definition IOError :: "string \<Rightarrow> Status" where
  "IOError msg = \<lparr>status_code = kIOError, status_state = msg\<rparr>"

definition NotInitialized :: Status where
  "NotInitialized = \<lparr>status_code = kNotInitialized, status_state = ''''\<rparr>"

definition InternalError :: "string \<Rightarrow> Status" where
  "InternalError msg = \<lparr>status_code = kInternal, status_state = msg\<rparr>"

definition Unauthorized :: "string \<Rightarrow> Status" where
  "Unauthorized msg = \<lparr>status_code = kInternal, status_state = msg\<rparr>"

definition TimedOut :: "string \<Rightarrow> Status" where
  "TimedOut msg = \<lparr>status_code = kTimedOut, status_state = msg\<rparr>"

definition NoBuffer :: Status where
  "NoBuffer = \<lparr>status_code = kNoBuffer, status_state = ''''\<rparr>"

definition ShardUnhealthy :: Status where
  "ShardUnhealthy = \<lparr>status_code = kShardUnhealthy, status_state = ''''\<rparr>"

definition status_ok :: "Status \<Rightarrow> bool" where
  "status_ok st \<longleftrightarrow> status_code st = kOk"

definition IsNotFound :: "Status \<Rightarrow> bool" where
  "IsNotFound st \<longleftrightarrow> status_code st = kNotFound"

definition IsNotSupported :: "Status \<Rightarrow> bool" where
  "IsNotSupported st \<longleftrightarrow> status_code st = kNotSupported"

definition IsInvalidArgument :: "Status \<Rightarrow> bool" where
  "IsInvalidArgument st \<longleftrightarrow> status_code st = kInvalidArgument"

definition IsIOError :: "Status \<Rightarrow> bool" where
  "IsIOError st \<longleftrightarrow> status_code st = kIOError"

definition IsNotInitialized :: "Status \<Rightarrow> bool" where
  "IsNotInitialized st \<longleftrightarrow> status_code st = kNotInitialized"

definition IsInternal :: "Status \<Rightarrow> bool" where
  "IsInternal st \<longleftrightarrow> status_code st = kInternal"

definition IsUnauthorized :: "Status \<Rightarrow> bool" where
  "IsUnauthorized st \<longleftrightarrow> status_code st = kUnauthorized"

definition IsTimedOut :: "Status \<Rightarrow> bool" where
  "IsTimedOut st \<longleftrightarrow> status_code st = kTimedOut"

definition IsNoBuffer :: "Status \<Rightarrow> bool" where
  "IsNoBuffer st \<longleftrightarrow> status_code st = kNoBuffer"

definition IsShardUnhealthy :: "Status \<Rightarrow> bool" where
  "IsShardUnhealthy st \<longleftrightarrow> status_code st = kShardUnhealthy"

definition Status_ToString :: "Status \<Rightarrow> string" where
  "Status_ToString st =
     (case status_code st of
        kOk \<Rightarrow> ''OK''
      | kNotFound \<Rightarrow> ''NotFound: '' @ status_state st
      | kNotSupported \<Rightarrow> ''Not implemented: '' @ status_state st
      | kInvalidArgument \<Rightarrow> ''Invalid argument: '' @ status_state st
      | kIOError \<Rightarrow> ''IO error: '' @ status_state st
      | kNotInitialized \<Rightarrow> ''Not initialized: '' @ status_state st
      | kInternal \<Rightarrow> ''Internal error: '' @ status_state st
      | kUnauthorized \<Rightarrow> ''Unauthorized: '' @ status_state st
      | kTimedOut \<Rightarrow> ''Timed out: '' @ status_state st
      | kNoBuffer \<Rightarrow> ''No buffer: '' @ status_state st
      | kShardUnhealthy \<Rightarrow> ''Shard marked unhealthy: '' @ status_state st)"

lemmas status_defs =
  OK_def NotFound_def NotSupported_def InvalidArgument_def IOError_def NotInitialized_def
  InternalError_def Unauthorized_def TimedOut_def NoBuffer_def ShardUnhealthy_def status_ok_def
  IsNotFound_def IsNotSupported_def IsInvalidArgument_def IsIOError_def IsNotInitialized_def
  IsInternal_def IsUnauthorized_def IsTimedOut_def IsNoBuffer_def IsShardUnhealthy_def

lemma status_ok_simps [simp]:
  "status_ok OK" "\<not> status_ok (NotFound m)" "\<not> status_ok (NotSupported m)"
  "\<not> status_ok (InvalidArgument m)" "\<not> status_ok (IOError m)" "\<not> status_ok NotInitialized"
  "\<not> status_ok (InternalError m)" "\<not> status_ok (Unauthorized m)" "\<not> status_ok (TimedOut m)"
  "\<not> status_ok NoBuffer" "\<not> status_ok ShardUnhealthy"
  by (simp_all add: status_defs)

text \<open>
  A status built by \<open>Unauthorized\<close> is not recognised by \<open>IsUnauthorized\<close>: it carries the internal
  code, so it tests and prints as an internal error with the same message.
\<close>

theorem unauthorized_reports_internal:
  "\<not> IsUnauthorized (Unauthorized msg) \<and> IsInternal (Unauthorized msg) \<and>
   Status_ToString (Unauthorized msg) = ''Internal error: '' @ msg"
  by (simp add: status_defs Status_ToString_def)

end
