(* ===== verification/Prelude.thy ===== *)
theory Prelude
  imports Status "HOL-Library.Word"
begin

text \<open>
  Shared ground of the development: the names of the machine types of the C++ sources, the
  ways a call can fail, the shape of the byte parsers (\<open>Get...\<close> routines that advance a \<open>Slice\<close>),
  and the generic lemmas on words and lists that the component theories use.
\<close>

unbundle bit_operations_syntax

section \<open>Machine types\<close>

type_synonym u8 = "8 word"
type_synonym u16 = "16 word"
type_synonym u32 = "32 word"
type_synonym u64 = "64 word"

text \<open>
  A \<open>std::string\<close> and the memory a \<open>Slice\<close> points at are both sequences of bytes. A slice is
  modelled by the bytes it still covers, so \<open>remove_prefix(n)\<close> is \<open>drop n\<close>.
\<close>

type_synonym bytes = "u8 list"
type_synonym slice = bytes

type_synonym SequenceNumber = u64
type_synonym TenantID = u16
type_synonym NamespaceID = bytes
type_synonym Topic = bytes
type_synonym StreamID = u64

section \<open>Failures\<close>

text \<open>
  How a call can end other than by returning a value: with a \<open>Status\<close>, in a failed \<open>RS_ASSERT\<close>,
  or with the \<open>std::length_error\<close> of a vector asked to grow beyond its maximal size.
\<close>

datatype failure = Failed Status | Assert_failed | Length_error

text \<open>Sequencing of calls that can fail, and \<open>RS_ASSERT\<close>.\<close>

definition andThen :: "failure + 'a \<Rightarrow> ('a \<Rightarrow> failure + 'b) \<Rightarrow> failure + 'b" where
  "andThen m f = (case m of Inl e \<Rightarrow> Inl e | Inr x \<Rightarrow> f x)"

definition rs_assert :: "bool \<Rightarrow> failure + unit" where
  "rs_assert cond = (if cond then Inr () else Inl Assert_failed)"

lemma andThen_simps [simp]: "andThen (Inl e) f = Inl e" "andThen (Inr x) f = f x"
  by (simp_all add: andThen_def)

lemma rs_assert_simps [simp]: "rs_assert True = Inr ()" "rs_assert False = Inl Assert_failed"
  by (simp_all add: rs_assert_def)

lemma andThen_Inr: "andThen m f = Inr y \<longleftrightarrow> (\<exists>x. m = Inr x \<and> f x = Inr y)"
  by (cases m) simp_all

lemma rs_assert_Inr [simp]: "rs_assert cond = Inr u \<longleftrightarrow> cond"
  by (simp add: rs_assert_def)

section \<open>Collections\<close>

named_theorems parser_intros \<open>introduction rules for \<open>prefix_parser\<close>\<close>
named_theorems put_simps \<open>what each \<open>Put\<close> routine appends\<close>
named_theorems get_simps \<open>what each \<open>Get\<close> routine returns on freshly encoded bytes\<close>

section \<open>Lists\<close>

lemma take_eq_append_drop:
  "take n xs = p @ r \<Longrightarrow> xs = p @ (r @ drop n xs)"
  by (metis append.assoc append_take_drop_id)

lemma foldl_appends:
  "(\<And>out x. g out x = out @ f x) \<Longrightarrow> foldl g out xs = out @ concat (map f xs)"
  by (induction xs arbitrary: out) auto

section \<open>Words\<close>

lemma unat_drop_bit_div: "unat (drop_bit n (w :: 'a::len word)) = unat w div 2 ^ n"
  by (subst unat_drop_bit_eq) (simp only: drop_bit_eq_div)

lemma ucast_of_nat_unat: "ucast (w :: 'a::len word) = (of_nat (unat w) :: 'b::len word)"
  by (rule bit_word_eqI) (auto simp: bit_simps)

lemma unat_of_nat_less: "n < 2 ^ LENGTH('a) \<Longrightarrow> unat (of_nat n :: 'a::len word) = n"
  by (simp add: unat_of_nat)

lemma unat_pow2: "k < LENGTH('a) \<Longrightarrow> unat (2 ^ k :: 'a::len word) = 2 ^ k"
  using unat_of_nat_less [of "2 ^ k", where ?'a = 'a] by simp

lemma push_bit_split:
  "(acc OR push_bit s (w AND mask k)) OR push_bit (s + k) (drop_bit k w)
     = acc OR push_bit s (w :: 'a::len word)"
proof (rule bit_word_eqI)
  fix n assume "n < LENGTH('a)"
  moreover have "k + (n - (s + k)) = n - s" if "s + k \<le> n"
    using that by simp
  ultimately show "bit ((acc OR push_bit s (w AND mask k)) OR push_bit (s + k) (drop_bit k w)) n
      = bit (acc OR push_bit s w) n"
    by (cases "s + k \<le> n") (auto simp: bit_simps)
qed

lemma and_minus_1: "ident AND (2 ^ k - 1) = take_bit k (ident :: 'a::len word)"
  by (simp add: take_bit_eq_mask mask_eq_decr_exp)

lemma pow2_and_pred: "(2 ^ k :: 'a::len word) AND (2 ^ k - 1) = 0"
  unfolding and_minus_1 by (rule bit_word_eqI) (auto simp: bit_simps)

lemma single_bit_pow2:
  fixes s :: "'a::len word"
  assumes "s \<noteq> 0" and "s AND (s - 1) = 0"
  shows "\<exists>k < LENGTH('a). s = 2 ^ k"
proof -
  obtain n where "bit s n" using assms(1) by (auto simp: bit_eq_iff)
  define k where "k = (LEAST n. bit s n)"
  have k: "bit s k" unfolding k_def using \<open>bit s n\<close> by (rule LeastI)
  have low: "\<not> bit s j" if "j < k" for j using that not_less_Least unfolding k_def by blast
  have len: "k < LENGTH('a)" using bit_imp_le_length [OF k] .
  define r where "r = s AND NOT (2 ^ k)"
  have "s = 2 ^ k OR r" unfolding r_def
    by (rule bit_word_eqI) (use k in \<open>auto simp: bit_simps\<close>)
  moreover have "2 ^ k AND r = 0" unfolding r_def by (rule bit_word_eqI) (auto simp: bit_simps)
  ultimately have s: "s = 2 ^ k + r" using word_plus_and_or [of "2 ^ k" r] by simp
  have "mask k AND r = 0" unfolding r_def
    by (rule bit_word_eqI) (use low in \<open>auto simp: bit_simps\<close>)
  then have "s - 1 = mask k OR r"
    using word_plus_and_or [of "mask k" r] unfolding s mask_eq_decr_exp by (simp add: algebra_simps)
  then have "s AND (s - 1) = r"
    by (simp only:) (rule bit_word_eqI, use low in \<open>auto simp: bit_simps r_def\<close>)
  then show ?thesis using assms(2) s len by auto
qed

lemma unat_take_bit_mod: "unat (take_bit n w) = unat (w :: 'a::len word) mod 2 ^ n"
  by (subst unsigned_take_bit_eq) (simp only: take_bit_eq_mod)

end
