(* ===== verification/Coding.thy ===== *)
theory Coding
  imports Prelude
begin

text \<open>
  \<open>src/util/common/coding.h\<close> and \<open>coding.cc\<close>: the endian-neutral byte encoding everything on the
  wire is built from. A \<open>Put...\<close> routine appends to a string; a \<open>Get...\<close> routine parses from the
  beginning of a slice and returns the value (\<open>None\<close> for a \<open>false\<close> return) with the slice as it
  is left, on success and on failure.
\<close>

unbundle bit_operations_syntax

section \<open>Parsers that advance a slice\<close>

text \<open>
  \<open>prefix_parser get\<close>: whenever \<open>get\<close> succeeds, what it consumed is a prefix of its input and
  that prefix alone decides the value: any other bytes after it are left untouched.
\<close>

definition prefix_parser :: "(slice \<Rightarrow> 'a option \<times> slice) \<Rightarrow> bool" where
  "prefix_parser get \<longleftrightarrow>
     (\<forall>inp v rest. get inp = (Some v, rest) \<longrightarrow>
        (\<exists>p. inp = p @ rest \<and> (\<forall>x. get (p @ x) = (Some v, x))))"

lemma prefix_parserI:
  assumes "\<And>inp v rest. get inp = (Some v, rest) \<Longrightarrow>
     \<exists>p. inp = p @ rest \<and> (\<forall>x. get (p @ x) = (Some v, x))"
  shows "prefix_parser get"
  using assms by (auto simp: prefix_parser_def)

lemma prefix_parserE:
  assumes "prefix_parser get" and "get inp = (Some v, rest)"
  obtains p where "inp = p @ rest" and "\<forall>x. get (p @ x) = (Some v, x)"
  using assms unfolding prefix_parser_def by blast

text \<open>
  The interface of a wire field: what \<open>put\<close> appends, \<open>get\<close> reads back, for the values the field
  can carry.
\<close>

locale codec =
  fixes put :: "'a \<Rightarrow> bytes"
    and get :: "slice \<Rightarrow> 'a option \<times> slice"
    and valid :: "'a \<Rightarrow> bool"
  assumes get_put: "valid v \<Longrightarrow> get (put v @ rest) = (Some v, rest)"
    and get_prefix: "prefix_parser get"
begin

lemma get_put_all: "valid v \<Longrightarrow> get (put v) = (Some v, [])"
  using get_put [of v "[]"] by simp

text \<open>A cut-off encoding never parses: the reader waits for, or rejects, a partial field.\<close>

lemma truncated_rejected:
  assumes "valid v" and "n < length (put v)"
  shows "fst (get (take n (put v))) = None"
proof (rule ccontr)
  assume "fst (get (take n (put v))) \<noteq> None"
  then obtain w rest where got: "get (take n (put v)) = (Some w, rest)"
    by (cases "get (take n (put v))") auto
  obtain p where p: "take n (put v) = p @ rest" "\<forall>x. get (p @ x) = (Some w, x)"
    using prefix_parserE [OF get_prefix got] by blast
  from p(1) have "put v = p @ (rest @ drop n (put v))"
    by (rule take_eq_append_drop)
  then have "get (put v) = (Some w, rest @ drop n (put v))"
    using p(2) by metis
  then show False
    using get_put_all [OF assms(1)] assms(2) by simp
qed

lemma put_unambiguous:
  assumes "valid v" and "valid w" and "put v @ x = put w @ y"
  shows "v = w \<and> x = y"
proof -
  have "(Some v, x) = (Some w, y)"
    using get_put [OF assms(1), of x] get_put [OF assms(2), of y] by (simp only: assms(3))
  then show ?thesis by simp
qed

end

section \<open>Fixed-length numbers\<close>

definition EncodeFixed16 :: "u16 \<Rightarrow> bytes" where
  "EncodeFixed16 value = [ucast (value AND 0xff), ucast (drop_bit 8 value AND 0xff)]"

definition EncodeFixed32 :: "u32 \<Rightarrow> bytes" where
  "EncodeFixed32 value =
     [ucast (value AND 0xff), ucast (drop_bit 8 value AND 0xff),
      ucast (drop_bit 16 value AND 0xff), ucast (drop_bit 24 value AND 0xff)]"

definition EncodeFixed64 :: "u64 \<Rightarrow> bytes" where
  "EncodeFixed64 value =
     [ucast (value AND 0xff), ucast (drop_bit 8 value AND 0xff),
      ucast (drop_bit 16 value AND 0xff), ucast (drop_bit 24 value AND 0xff),
      ucast (drop_bit 32 value AND 0xff), ucast (drop_bit 40 value AND 0xff),
      ucast (drop_bit 48 value AND 0xff), ucast (drop_bit 56 value AND 0xff)]"

definition DecodeFixed16 :: "bytes \<Rightarrow> u16" where
  "DecodeFixed16 ptr = ucast (ptr ! 0) OR push_bit 8 (ucast (ptr ! 1))"

definition DecodeFixed32 :: "bytes \<Rightarrow> u32" where
  "DecodeFixed32 ptr =
     ((ucast (ptr ! 0) OR push_bit 8 (ucast (ptr ! 1)))
      OR push_bit 16 (ucast (ptr ! 2))) OR push_bit 24 (ucast (ptr ! 3))"

definition DecodeFixed64 :: "bytes \<Rightarrow> u64" where
  "DecodeFixed64 ptr =
     (let lo = ucast (DecodeFixed32 ptr); hi = ucast (DecodeFixed32 (drop 4 ptr))
      in push_bit 32 hi OR lo)"

definition PutFixed8 :: "bytes \<Rightarrow> u8 \<Rightarrow> bytes" where
  "PutFixed8 out value = out @ [value]"

definition PutFixed16 :: "bytes \<Rightarrow> u16 \<Rightarrow> bytes" where
  "PutFixed16 dst value = dst @ EncodeFixed16 value"

definition PutFixed32 :: "bytes \<Rightarrow> u32 \<Rightarrow> bytes" where
  "PutFixed32 dst value = dst @ EncodeFixed32 value"

definition PutFixed64 :: "bytes \<Rightarrow> u64 \<Rightarrow> bytes" where
  "PutFixed64 dst value = dst @ EncodeFixed64 value"

definition GetFixed8 :: "slice \<Rightarrow> u8 option \<times> slice" where
  "GetFixed8 inp = (if length inp < 1 then (None, inp) else (Some (inp ! 0), drop 1 inp))"

definition GetFixed16 :: "slice \<Rightarrow> u16 option \<times> slice" where
  "GetFixed16 inp = (if length inp < 2 then (None, inp) else (Some (DecodeFixed16 inp), drop 2 inp))"

definition GetFixed32 :: "slice \<Rightarrow> u32 option \<times> slice" where
  "GetFixed32 inp = (if length inp < 4 then (None, inp) else (Some (DecodeFixed32 inp), drop 4 inp))"

definition GetFixed64 :: "slice \<Rightarrow> u64 option \<times> slice" where
  "GetFixed64 inp = (if length inp < 8 then (None, inp) else (Some (DecodeFixed64 inp), drop 8 inp))"

text \<open>Each number is the disjunction of its bytes, moved back to their places.\<close>

lemma ucast_low_byte: "(ucast (w AND 0xff) :: u8) = ucast (w :: 'a::len word)"
proof -
  have "(0xff :: 'a word) = mask 8" by (simp add: mask_eq_exp_minus_1)
  then have "w AND 0xff = take_bit 8 w" by (simp only: take_bit_eq_mask)
  moreover have "(ucast (take_bit 8 w) :: u8) = ucast w"
    by (rule bit_word_eqI) (auto simp: bit_simps)
  ultimately show ?thesis by simp
qed

lemma ucast_byte_back:
  "8 \<le> LENGTH('a) \<Longrightarrow> ucast (ucast w :: u8) = take_bit 8 (w :: 'a::len word)"
  by (rule bit_word_eqI) (auto simp: bit_simps)

lemma take_bit_join:
  "take_bit n w OR push_bit n (take_bit m (drop_bit n w)) = take_bit (n + m) (w :: 'a::len word)"
proof (rule bit_word_eqI)
  fix k
  have "n + (k - n) = k" if "n \<le> k" using that by simp
  then show "bit (take_bit n w OR push_bit n (take_bit m (drop_bit n w))) k
      = bit (take_bit (n + m) w) k" if "k < LENGTH('a)"
    using that by (cases "n \<le> k") (auto simp: bit_simps)
qed

lemma length_encode_fixed [simp]:
  "length (EncodeFixed16 v) = 2" "length (EncodeFixed32 w) = 4" "length (EncodeFixed64 x) = 8"
  by (simp_all add: EncodeFixed16_def EncodeFixed32_def EncodeFixed64_def)

lemma decode_encode16: "DecodeFixed16 (EncodeFixed16 v @ rest) = v"
  using take_bit_join [of 8 v 8]
  by (simp add: DecodeFixed16_def EncodeFixed16_def ucast_low_byte ucast_byte_back
      take_bit_word_eq_self)

lemma decode_encode32: "DecodeFixed32 (EncodeFixed32 v @ rest) = v"
  using take_bit_join [of 8 v 8] take_bit_join [of 16 v 8] take_bit_join [of 24 v 8]
  by (simp add: DecodeFixed32_def EncodeFixed32_def ucast_low_byte ucast_byte_back
      take_bit_word_eq_self)

lemma EncodeFixed32_map: "EncodeFixed32 v = map (\<lambda>k. ucast (drop_bit k v)) [0,8,16,24]"
  unfolding EncodeFixed32_def ucast_low_byte by (simp only: list.map drop_bit_0 id_apply)

lemma EncodeFixed64_map: "EncodeFixed64 v = map (\<lambda>k. ucast (drop_bit k v)) [0,8,16,24,32,40,48,56]"
  unfolding EncodeFixed64_def ucast_low_byte by (simp only: list.map drop_bit_0 id_apply)

lemma EncodeFixed64_halves:
  "EncodeFixed64 v = EncodeFixed32 (ucast v) @ EncodeFixed32 (ucast (drop_bit 32 v))"
proof -
  have "(ucast (drop_bit k (ucast v :: u32)) :: u8) = ucast (drop_bit k v)" if "k \<in> {0,8,16,24}" for k
    using that by (intro bit_word_eqI) (auto simp: bit_simps)
  then have lo: "EncodeFixed32 (ucast v) = map (\<lambda>k. ucast (drop_bit k v)) [0,8,16,24]"
    unfolding EncodeFixed32_map by (intro map_cong refl) simp
  have "(ucast (drop_bit k (ucast (drop_bit 32 v) :: u32)) :: u8) = ucast (drop_bit (32 + k) v)"
    if "k \<in> {0,8,16,24}" for k
    using that by (intro bit_word_eqI) (auto simp: bit_simps add.assoc)
  then have "EncodeFixed32 (ucast (drop_bit 32 v)) = map (\<lambda>k. ucast (drop_bit (32 + k) v)) [0,8,16,24]"
    unfolding EncodeFixed32_map by (intro map_cong refl) simp
  also have "\<dots> = map (\<lambda>k. ucast (drop_bit k v)) (map ((+) 32) [0,8,16,24])"
    by (simp only: map_map o_def)
  finally show ?thesis unfolding EncodeFixed64_map lo
    by (simp only: map_append [symmetric]) simp
qed

lemma decode_encode64: "DecodeFixed64 (EncodeFixed64 v @ rest) = v"
proof -
  have bk: "(ucast (ucast w :: u32) :: u64) = take_bit 32 w" for w
    by (rule bit_word_eqI) (auto simp: bit_simps)
  have "drop 4 (EncodeFixed64 v @ rest) = EncodeFixed32 (ucast (drop_bit 32 v)) @ rest"
    by (simp add: EncodeFixed64_halves)
  then have "DecodeFixed64 (EncodeFixed64 v @ rest)
      = push_bit 32 (take_bit 32 (drop_bit 32 v)) OR take_bit 32 v"
    unfolding DecodeFixed64_def Let_def
    by (simp only: decode_encode32 EncodeFixed64_halves append_assoc bk)
  also have "\<dots> = take_bit (32 + 32) v"
    by (subst or.commute) (rule take_bit_join)
  also have "\<dots> = v"
    by (rule take_bit_word_eq_self) simp
  finally show ?thesis .
qed

lemma encode_decode32:
  assumes "length b = 4"
  shows "EncodeFixed32 (DecodeFixed32 b) = b"
proof -
  obtain b0 b1 b2 b3 where b: "b = [b0, b1, b2, b3]"
    using assms by (auto simp: length_Suc_conv numeral_eq_Suc)
  have byte: "ucast (drop_bit k (DecodeFixed32 b)) = b ! (k div 8)" if "k \<in> {0, 8, 16, 24}" for k
    using that unfolding b DecodeFixed32_def
    by (intro bit_word_eqI) (auto simp: bit_simps dest: bit_imp_le_length)
  show ?thesis
    using byte [of 0] byte [of 8] byte [of 16] byte [of 24] by (simp add: EncodeFixed32_map b)
qed

lemma encode_decode64:
  assumes "length b = 8"
  shows "EncodeFixed64 (DecodeFixed64 b) = b"
proof -
  have "(ucast (push_bit 32 (ucast hi) OR ucast lo :: u64) :: u32) = lo"
    "(ucast (drop_bit 32 (push_bit 32 (ucast hi) OR ucast lo :: u64)) :: u32) = hi" for hi lo :: u32
    by (rule bit_word_eqI; auto simp: bit_simps dest: bit_imp_le_length)+
  then have "EncodeFixed64 (DecodeFixed64 b)
      = EncodeFixed32 (DecodeFixed32 (take 4 b)) @ EncodeFixed32 (DecodeFixed32 (drop 4 b))"
    by (simp add: EncodeFixed64_halves DecodeFixed64_def Let_def DecodeFixed32_def)
  then show ?thesis using assms by (simp add: encode_decode32)
qed

section \<open>The fixed-length fields as codecs\<close>

text \<open>A reader that takes a block of \<open>n\<close> bytes, or fails when fewer are left.\<close>

lemma prefix_parser_block:
  assumes "\<And>inp. get inp = (if length inp < n then (None, inp) else (Some (f inp), drop n inp))"
    and "\<And>a x y. length a = n \<Longrightarrow> f (a @ x) = f (a @ y)"
  shows "prefix_parser get"
proof (rule prefix_parserI)
  fix inp v rest assume "get inp = (Some v, rest)"
  then have len: "n \<le> length inp" and v: "v = f inp" and rest: "rest = drop n inp"
    by (auto simp: assms(1) split: if_splits)
  have "f (take n inp @ x) = f inp" for x
    using assms(2) [of "take n inp" x "drop n inp"] len by simp
  then have "get (take n inp @ x) = (Some v, x)" for x
    using len by (simp add: assms(1) v)
  then show "\<exists>p. inp = p @ rest \<and> (\<forall>x. get (p @ x) = (Some v, x))"
    using rest by (intro exI [of _ "take n inp"]) simp
qed

lemma prefix_GetFixed8 [parser_intros]: "prefix_parser GetFixed8"
  by (rule prefix_parser_block [where n = 1 and f = "\<lambda>i. i ! 0"]) (auto simp: GetFixed8_def nth_append)

lemma prefix_GetFixed16 [parser_intros]: "prefix_parser GetFixed16"
  by (rule prefix_parser_block [where n = 2 and f = DecodeFixed16])
    (auto simp: GetFixed16_def DecodeFixed16_def nth_append)

lemma DecodeFixed32_local: "4 \<le> length a \<Longrightarrow> DecodeFixed32 (a @ x) = DecodeFixed32 a"
  by (auto simp: DecodeFixed32_def nth_append)

lemma prefix_GetFixed32 [parser_intros]: "prefix_parser GetFixed32"
  by (rule prefix_parser_block [where n = 4 and f = DecodeFixed32])
    (auto simp: GetFixed32_def DecodeFixed32_local)

lemma prefix_GetFixed64 [parser_intros]: "prefix_parser GetFixed64"
  by (rule prefix_parser_block [where n = 8 and f = DecodeFixed64])
    (auto simp: GetFixed64_def DecodeFixed64_def DecodeFixed32_local)

interpretation fixed8: codec "\<lambda>v. [v]" GetFixed8 "\<lambda>_. True"
  by unfold_locales (simp_all add: GetFixed8_def prefix_GetFixed8)

interpretation fixed16: codec EncodeFixed16 GetFixed16 "\<lambda>_. True"
  by unfold_locales (simp_all add: GetFixed16_def decode_encode16 prefix_GetFixed16)

interpretation fixed32: codec EncodeFixed32 GetFixed32 "\<lambda>_. True"
  by unfold_locales (simp_all add: GetFixed32_def decode_encode32 prefix_GetFixed32)

interpretation fixed64: codec EncodeFixed64 GetFixed64 "\<lambda>_. True"
  by unfold_locales (simp_all add: GetFixed64_def decode_encode64 prefix_GetFixed64)

section \<open>Variable-length numbers\<close>

definition kMaxVarint32Length :: nat where
  "kMaxVarint32Length = 5"

definition kMaxVarint64Length :: nat where
  "kMaxVarint64Length = 10"

definition EncodeVarint32 :: "u32 \<Rightarrow> bytes" where
  "EncodeVarint32 v =
     (if v < 2 ^ 7 then [ucast v]
      else if v < 2 ^ 14 then [ucast (v OR 128), ucast (drop_bit 7 v)]
      else if v < 2 ^ 21 then
        [ucast (v OR 128), ucast (drop_bit 7 v OR 128), ucast (drop_bit 14 v)]
      else if v < 2 ^ 28 then
        [ucast (v OR 128), ucast (drop_bit 7 v OR 128), ucast (drop_bit 14 v OR 128),
         ucast (drop_bit 21 v)]
      else
        [ucast (v OR 128), ucast (drop_bit 7 v OR 128), ucast (drop_bit 14 v OR 128),
         ucast (drop_bit 21 v OR 128), ucast (drop_bit 28 v)])"

lemma drop_bit_7_smaller: "128 \<le> v \<Longrightarrow> unat (drop_bit 7 v) < unat (v :: u64)"
  by (simp add: unat_drop_bit_div word_le_nat_alt div_less_dividend)

function EncodeVarint64 :: "u64 \<Rightarrow> bytes" where
  "EncodeVarint64 v =
     (if 128 \<le> v then ucast ((v AND (128 - 1)) OR 128) # EncodeVarint64 (drop_bit 7 v)
      else [ucast v])"
  by pat_completeness auto
termination
  by (relation "measure unat") (simp_all only: in_measure wf_measure drop_bit_7_smaller)

function VarintLength :: "u64 \<Rightarrow> nat" where
  "VarintLength v = (if 128 \<le> v then VarintLength (drop_bit 7 v) + 1 else 1)"
  by pat_completeness auto
termination
  by (relation "measure unat") (simp_all only: in_measure wf_measure drop_bit_7_smaller)

declare EncodeVarint64.simps [simp del] VarintLength.simps [simp del]

definition PutVarint32 :: "bytes \<Rightarrow> u32 \<Rightarrow> bytes" where
  "PutVarint32 dst v = dst @ EncodeVarint32 v"

definition PutVarint64 :: "bytes \<Rightarrow> u64 \<Rightarrow> bytes" where
  "PutVarint64 dst v = dst @ EncodeVarint64 v"

text \<open>
  The two decoding loops have one body, at the width of the result: \<open>max_shift\<close> is the greatest
  shift the loop condition admits, the list is the memory from \<open>p\<close> to \<open>limit\<close>. \<open>None\<close> is the
  null pointer.
\<close>

fun varint_loop :: "nat \<Rightarrow> nat \<Rightarrow> 'a::len word \<Rightarrow> bytes \<Rightarrow> ('a word \<times> bytes) option" where
  "varint_loop max_shift shift result [] = None"
| "varint_loop max_shift shift result (p # ps) =
     (if shift \<le> max_shift then
        let byte = ucast p in
        if byte AND 128 \<noteq> 0
        then varint_loop max_shift (shift + 7) (result OR push_bit shift (byte AND 127)) ps
        else Some (result OR push_bit shift byte, ps)
      else None)"

definition GetVarint32PtrFallback :: "bytes \<Rightarrow> (u32 \<times> bytes) option" where
  "GetVarint32PtrFallback p = varint_loop 28 0 0 p"

definition GetVarint32Ptr :: "bytes \<Rightarrow> (u32 \<times> bytes) option" where
  "GetVarint32Ptr p =
     (case p of
        b # q \<Rightarrow>
          let result = ucast b in
          if result AND 128 = 0 then Some (result, q) else GetVarint32PtrFallback p
      | [] \<Rightarrow> GetVarint32PtrFallback p)"

definition GetVarint64Ptr :: "bytes \<Rightarrow> (u64 \<times> bytes) option" where
  "GetVarint64Ptr p = varint_loop 63 0 0 p"

definition GetVarint32 :: "slice \<Rightarrow> u32 option \<times> slice" where
  "GetVarint32 inp =
     (case GetVarint32Ptr inp of None \<Rightarrow> (None, inp) | Some (v, q) \<Rightarrow> (Some v, q))"

definition GetVarint64 :: "slice \<Rightarrow> u64 option \<times> slice" where
  "GetVarint64 inp =
     (case GetVarint64Ptr inp of None \<Rightarrow> (None, inp) | Some (v, q) \<Rightarrow> (Some v, q))"

text \<open>
  The reference the routines are compared with: little-endian base-128 digits of a natural
  number, the high bit set on all but the last.
\<close>

fun varint_bytes :: "nat \<Rightarrow> bytes" where
  "varint_bytes n =
     (if 128 \<le> n then of_nat (n mod 128 + 128) # varint_bytes (n div 128) else [of_nat n])"

declare varint_bytes.simps [simp del]

lemma varint_bytes_small: "n < 128 \<Longrightarrow> varint_bytes n = [of_nat n]"
  by (subst varint_bytes.simps) simp

lemma varint_bytes_big:
  "128 \<le> n \<Longrightarrow> varint_bytes n = of_nat (n mod 128 + 128) # varint_bytes (n div 128)"
  by (subst varint_bytes.simps) simp

lemma bit_128_nat: "bit (128 :: nat) n \<longleftrightarrow> n = 7"
proof -
  have "(128 :: nat) = 2 ^ 7" by simp
  then show ?thesis by (simp only: bit_exp_iff possible_bit_def) auto
qed

lemma bit_128_int: "bit (128 :: int) n \<longleftrightarrow> n = 7"
proof -
  have "(128 :: int) = 2 ^ 7" by simp
  then show ?thesis by (simp only: bit_exp_iff possible_bit_def) auto
qed

lemma bit_128_word: "8 \<le> LENGTH('a) \<Longrightarrow> bit (128 :: 'a::len word) n \<longleftrightarrow> n = 7"
proof -
  assume "8 \<le> LENGTH('a)"
  have "(128 :: 'a word) = 2 ^ 7" by simp
  then have "bit (128 :: 'a word) n \<longleftrightarrow> n < LENGTH('a) \<and> n = 7" by (simp only: bit_exp_iff possible_bit_word)
  then show ?thesis using \<open>8 \<le> LENGTH('a)\<close> by auto
qed

lemma word_127: "(127 :: 'a::len word) = mask 7"
  by (simp add: mask_eq_exp_minus_1)

lemma bit_continuation:
  "k < 8 \<Longrightarrow> bit (m mod 128 + 128 :: nat) k \<longleftrightarrow> k = 7 \<or> bit m k"
proof -
  assume k: "k < 8"
  have "m mod 128 + 128 = take_bit 7 m + 128" by (simp add: take_bit_eq_mod)
  also have "\<dots> = take_bit 7 m OR 128"
    by (rule disjunctive_add) (auto simp: bit_simps bit_128_nat)
  finally show ?thesis using k by (auto simp: bit_simps bit_128_nat)
qed

lemma ucast_continuation:
  assumes "8 \<le> LENGTH('a)"
  shows "(ucast ((w :: 'a::len word) OR 128) :: u8) = of_nat (unat w mod 128 + 128)"
  using assms
  by (intro bit_word_eqI) (auto simp: bit_simps bit_128_word bit_128_int bit_continuation  simp del: of_nat_add)

lemma continuation_byte:
  assumes "8 \<le> LENGTH('a)" 
  shows "(ucast (of_nat (m mod 128 + 128) :: u8) :: 'a::len word) AND 128 \<noteq> 0"
    and "(ucast (of_nat (m mod 128 + 128) :: u8) :: 'a::len word) AND 127 = take_bit 7 (of_nat m)"
proof -
  have "bit ((ucast (of_nat (m mod 128 + 128) :: u8) :: 'a::len word) AND 128) 7"
    using assms by (auto simp: bit_simps bit_128_word bit_128_int bit_continuation simp del: of_nat_add)
  then show "(ucast (of_nat (m mod 128 + 128) :: u8) :: 'a::len word) AND 128 \<noteq> 0"
    by (metis bit_0_eq bot_apply bot_bool_def)
  show "(ucast (of_nat (m mod 128 + 128) :: u8) :: 'a::len word) AND 127 = take_bit 7 (of_nat m)"
    unfolding word_127 using assms
    by (intro bit_word_eqI) (auto simp: bit_simps bit_continuation simp del: of_nat_add)
qed

lemma final_byte:
  assumes "8 \<le> LENGTH('a)" and "n < 128"
  shows "(ucast (of_nat n :: u8) :: 'a::len word) = of_nat n"
    and "(of_nat n :: 'a word) AND 128 = 0"
proof -
  have b: "bit n k \<Longrightarrow> k < 7" for k 
  proof -
    have "take_bit 7 n = n" using assms(2) by (simp add: take_bit_nat_eq_self)
    then show "bit n k \<Longrightarrow> k < 7" by (metis bit_take_bit_iff)
  qed
  show "(ucast (of_nat n :: u8) :: 'a::len word) = of_nat n"
   by (intro bit_word_eqI) (auto simp: bit_simps  dest: b)
  show "(of_nat n :: 'a word) AND 128 = 0"
    using assms(1) by (intro bit_word_eqI) (auto simp: bit_simps  bit_128_word bit_128_int dest: b)
qed

text \<open>Both encoders produce the reference digits; \<open>VarintLength\<close> counts them.\<close>

lemma EncodeVarint64_varint_bytes: "EncodeVarint64 v = varint_bytes (unat v)"
proof (induction v rule: EncodeVarint64.induct)
  case (1 v)
  show ?case
  proof (cases "128 \<le> v")
    case True
    then have "128 \<le> unat v" by (simp add: word_le_nat_alt)
    moreover have "unat (drop_bit 7 v) = unat v div 128" by (simp only: unat_drop_bit_div) simp
    moreover have "ucast ((v AND 127) OR 128) = (of_nat (unat v mod 128 + 128) :: u8)"
    proof -
      have "unat (v AND 127) = unat v mod 128"
        by (simp only: word_127 take_bit_eq_mask [symmetric] take_bit_eq_mod)
          (simp add: unat_mod_distrib)
      then show ?thesis by (subst ucast_continuation) simp_all
    qed
    ultimately show ?thesis
      using True 1 by (subst EncodeVarint64.simps) (simp add: varint_bytes_big del: of_nat_add)
  next
    case False
    then have "unat v < 128" by (simp add: word_le_nat_alt)
    with False show ?thesis
      by (subst EncodeVarint64.simps) (simp only: varint_bytes_small ucast_of_nat_unat if_False)
  qed
qed

lemma VarintLength_length: "VarintLength v = length (EncodeVarint64 v)"
proof (induction v rule: VarintLength.induct)
  case (1 v)
  then show ?case by (subst VarintLength.simps, subst EncodeVarint64.simps) simp
qed

lemma varint_bytes_step:
  "varint_bytes (n div 2 ^ k) =
     (if n < 2 ^ (k + 7) then [of_nat (n div 2 ^ k)]
      else of_nat (n div 2 ^ k mod 128 + 128) # varint_bytes (n div 2 ^ (k + 7)))"
proof (cases "n < 2 ^ (k + 7)")
  case True
  then have "n div 2 ^ k < 128" by (simp add: power_add less_mult_imp_div_less mult.commute)
  with True show ?thesis by (simp add: varint_bytes_small)
next
  case False
  then have "2 ^ (k + 7) div 2 ^ k \<le> n div 2 ^ k" by (intro div_le_mono) simp
  then have "128 \<le> n div 2 ^ k" by (simp add: power_add)
  moreover have "n div 2 ^ k div 128 = n div 2 ^ (k + 7)" by (simp add: power_add div_mult2_eq)
  ultimately show ?thesis using False by (simp only: varint_bytes_big if_False)
qed

lemma varint_bytes_unrolled:
  assumes "n < 2 ^ 32"
  shows "varint_bytes n =
    (if n < 2 ^ 7 then [of_nat n]
     else if n < 2 ^ 14 then [of_nat (n mod 128 + 128), of_nat (n div 2 ^ 7)]
     else if n < 2 ^ 21 then
       [of_nat (n mod 128 + 128), of_nat (n div 2 ^ 7 mod 128 + 128), of_nat (n div 2 ^ 14)]
     else if n < 2 ^ 28 then
       [of_nat (n mod 128 + 128), of_nat (n div 2 ^ 7 mod 128 + 128),
        of_nat (n div 2 ^ 14 mod 128 + 128), of_nat (n div 2 ^ 21)]
     else
       [of_nat (n mod 128 + 128), of_nat (n div 2 ^ 7 mod 128 + 128),
        of_nat (n div 2 ^ 14 mod 128 + 128), of_nat (n div 2 ^ 21 mod 128 + 128),
        of_nat (n div 2 ^ 28)])"
proof -
  have "n < 2 ^ (28 + 7)" using assms by simp
  then have s28: "varint_bytes (n div 2 ^ 28) = [of_nat (n div 2 ^ 28)]"
    using varint_bytes_step [of n 28] by (simp only: if_True)
  have s21: "varint_bytes (n div 2 ^ 21) = (if n < 2 ^ 28 then [of_nat (n div 2 ^ 21)]
      else of_nat (n div 2 ^ 21 mod 128 + 128) # varint_bytes (n div 2 ^ 28))"
    using varint_bytes_step [of n 21] by (simp del: of_nat_add)
  have s14: "varint_bytes (n div 2 ^ 14) = (if n < 2 ^ 21 then [of_nat (n div 2 ^ 14)]
      else of_nat (n div 2 ^ 14 mod 128 + 128) # varint_bytes (n div 2 ^ 21))"
    using varint_bytes_step [of n 14] by (simp del: of_nat_add)
  have s7: "varint_bytes (n div 2 ^ 7) = (if n < 2 ^ 14 then [of_nat (n div 2 ^ 7)]
      else of_nat (n div 2 ^ 7 mod 128 + 128) # varint_bytes (n div 2 ^ 14))"
    using varint_bytes_step [of n 7] by (simp del: of_nat_add)
  have s0: "varint_bytes n = (if n < 2 ^ 7 then [of_nat n]
      else of_nat (n mod 128 + 128) # varint_bytes (n div 2 ^ 7))"
    using varint_bytes_step [of n 0] by (simp del: of_nat_add)
  show ?thesis
    unfolding s0 s7 s14 s21 s28 by (auto simp del: of_nat_add)
qed

lemma EncodeVarint32_varint_bytes: "EncodeVarint32 v = varint_bytes (unat v)"
proof -
  have cont: "ucast (drop_bit k v OR 128) = (of_nat (unat v div 2 ^ k mod 128 + 128) :: u8)" for k
    by (subst ucast_continuation) (simp_all only: unat_drop_bit_div, simp)
  have cont0: "ucast (v OR 128) = (of_nat (unat v mod 128 + 128) :: u8)"
    by (subst ucast_continuation) simp_all
  have fin: "ucast (drop_bit k v) = (of_nat (unat v div 2 ^ k) :: u8)" for k
    by (metis ucast_of_nat_unat unat_drop_bit_div)
  have lt: "(v < 2 ^ 7) = (unat v < 2 ^ 7)" "(v < 2 ^ 14) = (unat v < 2 ^ 14)"
      "(v < 2 ^ 21) = (unat v < 2 ^ 21)" "(v < 2 ^ 28) = (unat v < 2 ^ 28)"
    by (simp_all add: word_less_nat_alt)
  have "unat v < 2 ^ 32" using unsigned_less [of v] by simp
  then show ?thesis
    unfolding EncodeVarint32_def
    by (simp only: varint_bytes_unrolled cont cont0 fin lt ucast_of_nat_unat [of v] split: if_split)
qed

text \<open>No encoding outgrows the buffer \<open>PutVarint32\<close> and \<open>PutVarint64\<close> reserve for it.\<close>

lemma length_varint_bytes: "n < 2 ^ (7 * Suc k) \<Longrightarrow> length (varint_bytes n) \<le> Suc k"
proof (induction k arbitrary: n)
  case 0
  then show ?case by (simp add: varint_bytes_small)
next
  case (Suc k)
  show ?case
  proof (cases "128 \<le> n")
    case True
    have "n div 128 < 2 ^ (7 * Suc k)"
      using Suc.prems by (simp add: less_mult_imp_div_less power_add mult.commute)
    with True Suc.IH show ?thesis by (simp add: varint_bytes_big)
  qed (simp add: varint_bytes_small)
qed

lemma varint_bytes_not_Nil [simp]: "varint_bytes n \<noteq> []"
  by (subst varint_bytes.simps) simp

text \<open>The decoding loop undoes the reference encoding at any width that the loop covers.\<close>

lemma varint_loop_varint_bytes:
  assumes "8 \<le> LENGTH('a)" and "LENGTH('a) \<le> max_shift + 7" and "7 dvd max_shift"
    and "7 dvd shift" and "shift \<le> max_shift" and "n < 2 ^ (LENGTH('a) - shift)"
  shows "varint_loop max_shift shift (acc :: 'a::len word) (varint_bytes n @ rest)
    = Some (acc OR push_bit shift (of_nat n), rest)"
  using assms(4-6)
proof (induction n arbitrary: shift acc rule: varint_bytes.induct)
  case (1 n)
  show ?case
  proof (cases "128 \<le> n")
    case True
    have "(2 :: nat) ^ 7 < 2 ^ (LENGTH('a) - shift)" using True "1.prems"(3) by simp
    then have "7 < LENGTH('a) - shift"
      by (rule power_less_imp_less_exp [rotated]) simp
    then have sh: "shift + 7 < LENGTH('a)" by simp
    then have "shift < max_shift" using assms(2) by simp
    then have sh': "shift + 7 \<le> max_shift"
      using assms(3) "1.prems"(1) by presburger
    have "LENGTH('a) - shift = (LENGTH('a) - (shift + 7)) + 7" using sh by simp
    then have "n < 2 ^ ((LENGTH('a) - (shift + 7)) + 7)" using "1.prems"(3) by (simp only:)
    then have "n < 2 ^ (LENGTH('a) - (shift + 7)) * 128" by (simp only: power_add) simp
    then have small: "n div 128 < 2 ^ (LENGTH('a) - (shift + 7))"
      by (rule less_mult_imp_div_less)
    have lt: "n < 2 ^ LENGTH('a)"
      using "1.prems"(3) by (rule less_le_trans) simp
    have "drop_bit 7 (of_nat n :: 'a word) = of_nat (n div 128)"
    proof (rule word_unat_eq_iff [THEN iffD2])
      have "n div 128 < 2 ^ LENGTH('a)" using lt by (rule le_less_trans [OF div_le_dividend])
      then show "unat (drop_bit 7 (of_nat n :: 'a word)) = unat (of_nat (n div 128) :: 'a word)"
        using lt by (simp only: unat_drop_bit_div unat_of_nat mod_less) simp
    qed
    then have join: "(acc OR push_bit shift (take_bit 7 (of_nat n))) OR
        push_bit (shift + 7) (of_nat (n div 128)) = acc OR push_bit shift (of_nat n)"
      using push_bit_split [of acc shift "of_nat n" 7] by (simp only: take_bit_eq_mask)
    show ?thesis
      using "1.IH" [OF True _ sh' small] "1.prems" True
      by (simp add: varint_bytes_big continuation_byte [OF assms(1)] join del: of_nat_add)
  next
    case False
    with "1.prems" show ?thesis
      by (simp add: varint_bytes_small final_byte [OF assms(1)])
  qed
qed

lemma prefix_varint_loop:
  "varint_loop max_shift shift acc inp = Some (v, rest) \<Longrightarrow>
     \<exists>p. inp = p @ rest \<and> (\<forall>x. varint_loop max_shift shift acc (p @ x) = Some (v, x))"
proof (induction max_shift shift acc inp rule: varint_loop.induct)
  case (2 max_shift shift result p ps)
  show ?case
  proof (cases "(ucast p :: 'a word) AND 128 = 0")
    case True
    with "2.prems" show ?thesis
      by (intro exI [of _ "[p]"]) (auto simp: Let_def split: if_splits)
  next
    case False
    with "2.prems" have le: "shift \<le> max_shift"
      and "varint_loop max_shift (shift + 7) (result OR push_bit shift (ucast p AND 127)) ps
        = Some (v, rest)"
      by (auto simp: Let_def split: if_splits)
    then obtain q where q: "ps = q @ rest" "\<forall>x. varint_loop max_shift (shift + 7)
        (result OR push_bit shift (ucast p AND 127)) (q @ x) = Some (v, x)"
      using "2.IH" False by blast
    with False le show ?thesis
      by (intro exI [of _ "p # q"]) (simp add: Let_def)
  qed
qed simp

text \<open>The one-byte fast path agrees with the loop.\<close>

lemma GetVarint32Ptr_eq_Fallback: "GetVarint32Ptr p = GetVarint32PtrFallback p"
  by (auto simp: GetVarint32Ptr_def GetVarint32PtrFallback_def Let_def split: list.splits)

lemma prefix_parser_ptr:
  assumes "\<And>inp. get inp = (case ptr inp of None \<Rightarrow> (None, inp) | Some (v, q) \<Rightarrow> (Some v, q))"
    and "\<And>inp v rest. ptr inp = Some (v, rest) \<Longrightarrow>
      \<exists>p. inp = p @ rest \<and> (\<forall>x. ptr (p @ x) = Some (v, x))"
  shows "prefix_parser get"
proof (rule prefix_parserI)
  fix inp v rest assume "get inp = (Some v, rest)"
  then have "ptr inp = Some (v, rest)" by (auto simp: assms(1) split: option.splits)
  from assms(2) [OF this] show "\<exists>p. inp = p @ rest \<and> (\<forall>x. get (p @ x) = (Some v, x))"
    by (auto simp: assms(1))
qed

lemma prefix_GetVarint32 [parser_intros]: "prefix_parser GetVarint32"
  by (rule prefix_parser_ptr [where ptr = GetVarint32Ptr], simp only: GetVarint32_def)
    (auto simp: GetVarint32Ptr_eq_Fallback GetVarint32PtrFallback_def intro: prefix_varint_loop)

lemma prefix_GetVarint64 [parser_intros]: "prefix_parser GetVarint64"
  by (rule prefix_parser_ptr [where ptr = GetVarint64Ptr], simp only: GetVarint64_def)
    (auto simp: GetVarint64Ptr_def intro: prefix_varint_loop)

lemma GetVarint32_varint_bytes:
  "n < 2 ^ 32 \<Longrightarrow> GetVarint32 (varint_bytes n @ rest) = (Some (of_nat n), rest)"
  using varint_loop_varint_bytes [where 'a = 32, of 28 0 n 0 rest]
  by (simp add: GetVarint32_def GetVarint32Ptr_eq_Fallback GetVarint32PtrFallback_def)

lemma GetVarint64_varint_bytes:
  "n < 2 ^ 64 \<Longrightarrow> GetVarint64 (varint_bytes n @ rest) = (Some (of_nat n), rest)"
  using varint_loop_varint_bytes [where 'a = 64, of 63 0 n 0 rest]
  by (simp add: GetVarint64_def GetVarint64Ptr_def)

interpretation varint32: codec EncodeVarint32 GetVarint32 "\<lambda>_. True"
proof
  fix v :: u32 and rest
  have "unat v < 2 ^ 32" using unsigned_less [of v] by simp
  then show "GetVarint32 (EncodeVarint32 v @ rest) = (Some v, rest)"
    by (simp add: EncodeVarint32_varint_bytes GetVarint32_varint_bytes)
qed (rule prefix_GetVarint32)

interpretation varint64: codec EncodeVarint64 GetVarint64 "\<lambda>_. True"
proof
  fix v :: u64 and rest
  have "unat v < 2 ^ 64" using unsigned_less [of v] by simp
  then show "GetVarint64 (EncodeVarint64 v @ rest) = (Some v, rest)"
    by (simp add: EncodeVarint64_varint_bytes GetVarint64_varint_bytes)
qed (rule prefix_GetVarint64)

section \<open>Byte strings, topics and enumerations\<close>

definition PutLengthPrefixedSlice :: "bytes \<Rightarrow> slice \<Rightarrow> bytes" where
  "PutLengthPrefixedSlice dst value = PutVarint32 dst (of_nat (length value)) @ value"

fun total_parts :: "slice list \<Rightarrow> u32" where
  "total_parts [] = 0"
| "total_parts (part # parts) = of_nat (length part) + total_parts parts"

definition PutLengthPrefixedSliceParts :: "bytes \<Rightarrow> slice list \<Rightarrow> bytes" where
  "PutLengthPrefixedSliceParts dst parts =
     foldl (\<lambda>d part. d @ part) (PutVarint32 dst (total_parts parts)) parts"

definition GetLengthPrefixedSlice :: "slice \<Rightarrow> slice option \<times> slice" where
  "GetLengthPrefixedSlice inp =
     (case GetVarint32 inp of
        (Some len, inp') \<Rightarrow>
          if unat len \<le> length inp' then (Some (take (unat len) inp'), drop (unat len) inp')
          else (None, inp')
      | (None, inp') \<Rightarrow> (None, inp'))"

definition PutTopicID :: "bytes \<Rightarrow> slice \<Rightarrow> slice \<Rightarrow> bytes" where
  "PutTopicID dst namespace_id topic =
     PutLengthPrefixedSlice (PutLengthPrefixedSlice dst namespace_id) topic"

definition GetTopicID :: "slice \<Rightarrow> (NamespaceID \<times> Topic) option \<times> slice" where
  "GetTopicID inp =
     (case GetLengthPrefixedSlice inp of
        (Some namespace_id, inp') \<Rightarrow>
          (case GetLengthPrefixedSlice inp' of
             (Some topic, inp'') \<Rightarrow> (Some (namespace_id, topic), inp'')
           | (None, inp'') \<Rightarrow> (None, inp''))
      | (None, inp') \<Rightarrow> (None, inp'))"

definition PutBytes :: "bytes \<Rightarrow> bytes \<Rightarrow> bytes" where
  "PutBytes out data = out @ data"

definition GetBytes :: "nat \<Rightarrow> slice \<Rightarrow> bytes option \<times> slice" where
  "GetBytes n inp = (if length inp < n then (None, inp) else (Some (take n inp), drop n inp))"

text \<open>
  An enumeration travels as its underlying byte. A value read from the wire may be none of the
  enumerators, so the model keeps the byte; \<open>ValidateEnum\<close> of the enumeration decides whether the
  read succeeds, after the byte has been consumed.
\<close>

definition PutFixedEnum8 :: "bytes \<Rightarrow> u8 \<Rightarrow> bytes" where
  "PutFixedEnum8 dst value = PutFixed8 dst value"

definition GetFixedEnum8 :: "(u8 \<Rightarrow> bool) \<Rightarrow> slice \<Rightarrow> u8 option \<times> slice" where
  "GetFixedEnum8 ValidateEnum inp =
     (case GetFixed8 inp of
        (Some v, inp') \<Rightarrow> if ValidateEnum v then (Some v, inp') else (None, inp')
      | (None, inp') \<Rightarrow> (None, inp'))"

text \<open>Reading one field and then, depending on it, another.\<close>

lemma prefix_parser_seq:
  assumes "prefix_parser get" and "\<And>v. prefix_parser (k v)"
  shows "prefix_parser (\<lambda>inp. case get inp of (Some v, inp') \<Rightarrow> k v inp' | (None, inp') \<Rightarrow> (None, inp'))"
proof (rule prefix_parserI)
  fix inp w rest
  assume "(case get inp of (Some v, inp') \<Rightarrow> k v inp' | (None, inp') \<Rightarrow> (None, inp')) = (Some w, rest)"
  then obtain v inp' where v: "get inp = (Some v, inp')" and w: "k v inp' = (Some w, rest)"
    by (auto split: prod.splits option.splits)
  obtain p where p: "inp = p @ inp'" "\<forall>x. get (p @ x) = (Some v, x)"
    using prefix_parserE [OF assms(1) v] by blast
  obtain q where q: "inp' = q @ rest" "\<forall>x. k v (q @ x) = (Some w, x)"
    using prefix_parserE [OF assms(2) w] by blast
  show "\<exists>p. inp = p @ rest \<and>
      (\<forall>x. (case get (p @ x) of (Some v, inp') \<Rightarrow> k v inp' | (None, inp') \<Rightarrow> (None, inp')) = (Some w, x))"
    using p q by (intro exI [of _ "p @ q"]) simp
qed

lemma prefix_parser_return [parser_intros]: "prefix_parser (Pair (Some v))"
  by (rule prefix_parserI) auto

lemma prefix_parser_fail [parser_intros]: "prefix_parser (Pair None)"
  by (rule prefix_parserI) auto

lemma prefix_GetBytes [parser_intros]: "prefix_parser (GetBytes n)"
  by (rule prefix_parser_block [where n = n and f = "take n"]) (auto simp: GetBytes_def)

lemma prefix_GetLengthPrefixedSlice [parser_intros]: "prefix_parser GetLengthPrefixedSlice"
proof -
  have eq: "GetLengthPrefixedSlice = (\<lambda>inp. case GetVarint32 inp of
      (Some len, inp') \<Rightarrow> GetBytes (unat len) inp' | (None, inp') \<Rightarrow> (None, inp'))"
    by (auto simp: GetLengthPrefixedSlice_def GetBytes_def fun_eq_iff split: prod.splits option.splits)
  show ?thesis
    by (subst eq) (intro prefix_parser_seq parser_intros)
qed

lemma prefix_GetTopicID [parser_intros]: "prefix_parser GetTopicID"
proof -
  have "prefix_parser (\<lambda>inp'. case GetLengthPrefixedSlice inp' of
      (Some topic, inp'') \<Rightarrow> Pair (Some (ns, topic)) inp'' | (None, inp'') \<Rightarrow> (None, inp''))" for ns :: bytes
    by (intro prefix_parser_seq parser_intros)
  from prefix_parser_seq [OF prefix_GetLengthPrefixedSlice this] show ?thesis
    by (simp add: GetTopicID_def [abs_def])
qed

lemma prefix_GetFixedEnum8 [parser_intros]: "prefix_parser (GetFixedEnum8 ok)"
proof -
  have "GetFixedEnum8 ok = (\<lambda>inp. case GetFixed8 inp of
      (Some v, inp') \<Rightarrow> Pair (if ok v then Some v else None) inp' | (None, inp') \<Rightarrow> (None, inp'))"
    by (auto simp: GetFixedEnum8_def fun_eq_iff split: prod.splits option.splits)
  moreover have "prefix_parser (Pair (if ok v then Some v else None))" for v
    by (auto intro: parser_intros)
  ultimately show ?thesis
    by (simp only:) (intro prefix_parser_seq prefix_GetFixed8)
qed

abbreviation fits32 :: "bytes \<Rightarrow> bool" where
  "fits32 b \<equiv> length b < 2 ^ 32"

definition length_prefixed :: "slice \<Rightarrow> bytes" where
  "length_prefixed value = EncodeVarint32 (of_nat (length value)) @ value"

interpretation lengthprefixed: codec length_prefixed GetLengthPrefixedSlice fits32
proof
  fix v rest :: bytes assume "fits32 v"
  then have "unat (of_nat (length v) :: u32) = length v" by (simp add: unat_of_nat)
  then show "GetLengthPrefixedSlice (length_prefixed v @ rest) = (Some v, rest)"
    by (simp add: GetLengthPrefixedSlice_def length_prefixed_def varint32.get_put)
qed (rule prefix_GetLengthPrefixedSlice)

interpretation topicid: codec "\<lambda>(ns, t). length_prefixed ns @ length_prefixed t" GetTopicID
    "\<lambda>(ns, t). fits32 ns \<and> fits32 t"
  by unfold_locales (auto simp: GetTopicID_def lengthprefixed.get_put intro: parser_intros)

interpretation rawbytes: codec "\<lambda>b. b" "GetBytes n" "\<lambda>b. length b = n" for n
  by unfold_locales (auto simp: GetBytes_def intro: parser_intros)

interpretation enum8: codec "\<lambda>v. [v]" "GetFixedEnum8 ok" ok for ok
  by unfold_locales (auto simp: GetFixedEnum8_def GetFixed8_def intro: parser_intros)

text \<open>What the \<open>Put\<close> routines append, in terms of the encodings above.\<close>

lemma put_appends [put_simps]:
  "PutFixed8 out b = out @ [b]"
  "PutFixed16 out h = out @ EncodeFixed16 h"
  "PutFixed32 out w = out @ EncodeFixed32 w"
  "PutFixed64 out d = out @ EncodeFixed64 d"
  "PutVarint32 out w = out @ EncodeVarint32 w"
  "PutVarint64 out d = out @ EncodeVarint64 d"
  "PutLengthPrefixedSlice out s = out @ length_prefixed s"
  "PutTopicID out ns t = out @ length_prefixed ns @ length_prefixed t"
  "PutBytes out s = out @ s"
  "PutFixedEnum8 out b = out @ [b]"
  by (simp_all add: PutFixed8_def PutFixed16_def PutFixed32_def PutFixed64_def PutVarint32_def
      PutVarint64_def PutLengthPrefixedSlice_def PutTopicID_def PutBytes_def PutFixedEnum8_def
      length_prefixed_def)

lemmas get_puts [get_simps] =
  fixed8.get_put fixed16.get_put fixed32.get_put fixed64.get_put varint32.get_put varint64.get_put
  lengthprefixed.get_put topicid.get_put [of "(ns, t)" for ns t, simplified] rawbytes.get_put
  enum8.get_put

end
