(* ===== verification/MessageTypes.thy ===== *)
theory MessageTypes
  imports Coding
begin

text \<open>
  \<open>src/messages/messages.h\<close>, \<open>include/Types.h\<close>, \<open>src/util/storage.h\<close>: the enumerations and the
  message classes of the wire protocol. A class is a record and a subclass extends it, as in the
  sources; \<open>buffer_\<close>, which only owns the memory the slices point into, is left out.
\<close>

section \<open>Enumerations\<close>

datatype MessageType =
    NotInitializedType | mPing | mPublish | mDataAck | mGap | mDeliver | mGoodbye | mSubscribe
  | mUnsubscribe | mDeliverGap | mDeliverData | mFindTailSeqno | mTailSeqno | mDeliverBatch
  | mHeartbeat

fun MessageType_value :: "MessageType \<Rightarrow> u8" where
  "MessageType_value NotInitializedType = 0"
| "MessageType_value mPing = 0x01"
| "MessageType_value mPublish = 0x02"
| "MessageType_value mDataAck = 0x04"
| "MessageType_value mGap = 0x05"
| "MessageType_value mDeliver = 0x06"
| "MessageType_value mGoodbye = 0x07"
| "MessageType_value mSubscribe = 0x08"
| "MessageType_value mUnsubscribe = 0x09"
| "MessageType_value mDeliverGap = 0x0A"
| "MessageType_value mDeliverData = 0x0B"
| "MessageType_value mFindTailSeqno = 0x0C"
| "MessageType_value mTailSeqno = 0x0D"
| "MessageType_value mDeliverBatch = 0x0E"
| "MessageType_value mHeartbeat = 0x0F"

definition ValidateMessageType :: "u8 \<Rightarrow> bool" where
  "ValidateMessageType e \<longleftrightarrow> MessageType_value mPing \<le> e \<and> e \<le> MessageType_value mHeartbeat"

definition kMessageTypeNames :: "string list" where
  "kMessageTypeNames =
     [''invalid'', ''ping'', ''publish'', ''metadata (DEPRECATED)'', ''data_ack'', ''gap'',
      ''deliver'', ''goodbye'', ''subscribe'', ''unsubscribe'', ''deliver_gap'', ''deliver_data'',
      ''find_tail_seqno'', ''tail_seqno'', ''deliver_batch'', ''heartbeat'']"

definition MessageTypeName :: "u8 \<Rightarrow> string" where
  "MessageTypeName t = (if ValidateMessageType t then kMessageTypeNames ! unat t else ''invalid'')"

datatype GapType = kBenign | kDataLoss | kRetention

fun GapType_value :: "GapType \<Rightarrow> u8" where
  "GapType_value kBenign = 0x00"
| "GapType_value kDataLoss = 0x01"
| "GapType_value kRetention = 0x02"

definition ValidateGapType :: "u8 \<Rightarrow> bool" where
  "ValidateGapType e \<longleftrightarrow> GapType_value kBenign \<le> e \<and> e \<le> GapType_value kRetention"

datatype PingType = PingNotInitialized | Request | Response

fun PingType_value :: "PingType \<Rightarrow> u8" where
  "PingType_value PingNotInitialized = 0x00"
| "PingType_value Request = 0x01"
| "PingType_value Response = 0x02"

text \<open>The enumerations over \<open>char\<close> compare as signed bytes.\<close>

definition ValidatePingType :: "u8 \<Rightarrow> bool" where
  "ValidatePingType e \<longleftrightarrow>
     sint (PingType_value Request) \<le> sint e \<and> sint e \<le> sint (PingType_value Response)"

datatype AckStatus = AckSuccess | AckFailure

fun AckStatus_value :: "AckStatus \<Rightarrow> u8" where
  "AckStatus_value AckSuccess = 0x00"
| "AckStatus_value AckFailure = 0x01"

definition ValidateAckStatus :: "u8 \<Rightarrow> bool" where
  "ValidateAckStatus e \<longleftrightarrow>
     sint (AckStatus_value AckSuccess) \<le> sint e \<and> sint e \<le> sint (AckStatus_value AckFailure)"

datatype GoodbyeCode = SocketError | Graceful

fun GoodbyeCode_value :: "GoodbyeCode \<Rightarrow> u8" where
  "GoodbyeCode_value SocketError = 0x00"
| "GoodbyeCode_value Graceful = 0x01"

definition ValidateGoodbyeCode :: "u8 \<Rightarrow> bool" where
  "ValidateGoodbyeCode e \<longleftrightarrow>
     sint (GoodbyeCode_value SocketError) \<le> sint e \<and> sint e \<le> sint (GoodbyeCode_value Graceful)"

datatype OriginType = ClientOrigin | ServerOrigin

fun OriginType_value :: "OriginType \<Rightarrow> u8" where
  "OriginType_value ClientOrigin = 0x00"
| "OriginType_value ServerOrigin = 0x01"

definition ValidateOriginType :: "u8 \<Rightarrow> bool" where
  "ValidateOriginType e \<longleftrightarrow>
     sint (OriginType_value ClientOrigin) \<le> sint e \<and> sint e \<le> sint (OriginType_value ServerOrigin)"

datatype Reason = kRequested | kInvalid

fun Reason_value :: "Reason \<Rightarrow> u8" where
  "Reason_value kRequested = 0x00"
| "Reason_value kInvalid = 0x02"

definition ValidateReason :: "u8 \<Rightarrow> bool" where
  "ValidateReason e \<longleftrightarrow> Reason_value kRequested \<le> e \<and> e \<le> Reason_value kInvalid"

section \<open>Message identifiers\<close>

text \<open>
  \<open>GUID\<close> is a union of 16 bytes and two 64-bit words; the bytes are the words in memory order of
  a little-endian host.
\<close>

record GUID =
  guid_hi :: u64
  guid_lo :: u64

type_synonym MsgId = GUID

definition GUID_id :: "GUID \<Rightarrow> bytes" where
  "GUID_id g = EncodeFixed64 (guid_hi g) @ EncodeFixed64 (guid_lo g)"

definition GUID_of_id :: "bytes \<Rightarrow> GUID" where
  "GUID_of_id b = \<lparr>guid_hi = DecodeFixed64 b, guid_lo = DecodeFixed64 (drop 8 b)\<rparr>"

definition GUID_empty :: GUID where
  "GUID_empty = \<lparr>guid_hi = 0, guid_lo = 0\<rparr>"

definition GUID_less :: "GUID \<Rightarrow> GUID \<Rightarrow> bool" where
  "GUID_less a b \<longleftrightarrow> guid_hi a < guid_hi b \<or> (guid_hi a = guid_hi b \<and> guid_lo a < guid_lo b)"

definition GUID_FromString :: "bytes \<Rightarrow> GUID \<times> bool" where
  "GUID_FromString str = (if length str = 16 then (GUID_of_id str, True) else (GUID_empty, False))"

lemma length_GUID_id [simp]: "length (GUID_id g) = 16"
  by (simp add: GUID_id_def)

lemma GUID_of_id_id [simp]: "GUID_of_id (GUID_id g @ rest) = g"
  by (simp add: GUID_of_id_def GUID_id_def decode_encode64)

lemma GUID_of_id_id' [simp]: "GUID_of_id (GUID_id g) = g"
  using GUID_of_id_id [of g "[]"] by (simp del: GUID_of_id_id)

section \<open>Message classes\<close>

record Message =
  msg_type :: u8
  tenantid :: TenantID

record MessagePing = Message +
  pingtype :: u8
  cookie :: bytes

record MessageData = Message +
  data_seqno_prev :: SequenceNumber
  data_seqno :: SequenceNumber
  data_msgid :: MsgId
  data_topic_name :: slice
  data_payload :: slice
  data_namespace_id :: slice
  storage_slice :: slice

record Ack =
  ack_status :: u8
  ack_msgid :: MsgId
  ack_seqno :: SequenceNumber

record MessageDataAck = Message +
  acks :: "Ack list"

record MessageGap = Message +
  gap_namespace_id :: NamespaceID
  gap_topic_name :: Topic
  gap_gap_type :: u8
  gap_from :: SequenceNumber
  gap_to :: SequenceNumber

record MessageGoodbye = Message +
  goodbye_code :: u8
  goodbye_origin_type :: u8

record MessageFindTailSeqno = Message +
  find_namespace_id :: NamespaceID
  find_topic_name :: Topic

record MessageTailSeqno = Message +
  tail_namespace_id :: NamespaceID
  tail_topic_name :: Topic
  tail_seqno :: SequenceNumber

record MessageSubscribe = Message +
  sub_namespace_id :: slice
  sub_topic_name :: slice
  sub_start_seqno :: SequenceNumber
  sub_sub_id :: u64

record MessageUnsubscribe = Message +
  unsub_sub_id :: u64
  unsub_reason :: u8

record MessageDeliver = Message +
  deliver_sub_id :: u64
  deliver_seqno_prev :: SequenceNumber
  deliver_seqno :: SequenceNumber

record MessageDeliverGap = MessageDeliver +
  deliver_gap_type :: u8

record MessageDeliverData = MessageDeliver +
  deliver_message_id :: MsgId
  deliver_payload :: slice

record MessageDeliverBatch = Message +
  batch_messages :: "MessageDeliverData list"

text \<open>
  \<open>heartbeat_timestamp\<close> is the tick count of \<open>system_clock\<close> (nanoseconds, a signed 64-bit number);
  \<open>healthy_streams\<close> lists the elements of the \<open>unordered_set\<close> in its iteration order.
\<close>

record MessageHeartbeat = Message +
  heartbeat_timestamp :: u64
  healthy_streams :: "u32 list"

datatype AnyMessage =
    Ping MessagePing
  | Data MessageData
  | DataAck MessageDataAck
  | Gap MessageGap
  | Goodbye MessageGoodbye
  | Subscribe MessageSubscribe
  | Unsubscribe MessageUnsubscribe
  | DeliverGap MessageDeliverGap
  | DeliverData MessageDeliverData
  | FindTailSeqno MessageFindTailSeqno
  | TailSeqno MessageTailSeqno
  | DeliverBatch MessageDeliverBatch
  | Heartbeat MessageHeartbeat

end
