(* ===== verification/Hash.thy ===== *)
theory Hash
  imports Coding
begin

text \<open>
  \<open>src/util/common/hash.h\<close>: the 64-bit and 32-bit MurmurHash2 variants used to place
  subscriptions on allocators, keys on the consistent-hash ring and topics in hash tables.
  Every mixing step is a bijection of machine words; from this follows that the integer hashes
  have no collisions at all and that the string hash separates strings that differ in one block.
  A \<open>size_t\<close> has 64 bits and memory is little endian, as on the platforms the code is built for.
\<close>

unbundle bit_operations_syntax

section \<open>Definitions\<close>

definition m64 :: u64 where "m64 = 0xc6a4a7935bd1e995"
definition seed64 :: u64 where "seed64 = 0xfacec0defacec0de"

definition xorshift :: "nat \<Rightarrow> 'a::len word \<Rightarrow> 'a word" where
  "xorshift r x = x XOR drop_bit r x"

text \<open>\<open>MurmurHash2<size_t>\<close>; the specialisation for \<open>unsigned long long\<close> has the same body.\<close>

definition MurmurHash2_size_t :: "u64 \<Rightarrow> u64" where
  "MurmurHash2_size_t xa =
     (let x = xa * m64;
          x = xorshift 47 x;
          x = x * m64;
          h = seed64 XOR x;
          h = h * m64;
          h = xorshift 47 h;
          h = h * m64
      in xorshift 47 h)"

text \<open>The combination of two hashes (\<open>MurmurHash2<T, Ts...>\<close> and \<open>MurmurHash2<std::pair>\<close>).\<close>

definition hash_combine :: "u64 \<Rightarrow> u64 \<Rightarrow> u64" where
  "hash_combine hx hash = hash XOR (hx + 0x9e3779b9 + push_bit 6 hash + drop_bit 2 hash)"

definition MurmurHash2_pair :: "('a \<Rightarrow> u64) \<Rightarrow> ('b \<Rightarrow> u64) \<Rightarrow> 'a \<Rightarrow> 'b \<Rightarrow> u64" where
  "MurmurHash2_pair hash1 hash2 x y = hash_combine (hash1 x) (hash2 y)"

text \<open>
  \<open>MurmurHash2<Slice>\<close>: the loop over whole 8-byte words, the fall-through \<open>switch\<close> over the
  remaining bytes, and the final mixing.
\<close>

function murmur_words :: "u64 \<Rightarrow> bytes \<Rightarrow> u64 \<times> bytes" where
  "murmur_words h data =
     (if length data < 8 then (h, data)
      else let k = DecodeFixed64 (take 8 data);
               k = k * m64;
               k = xorshift 47 k;
               k = k * m64
           in murmur_words ((h XOR k) * m64) (drop 8 data))"
  by pat_completeness auto

termination
  by (relation "measure (\<lambda>(_, data). length data)") auto

declare murmur_words.simps [simp del]

definition murmur_tail :: "u64 \<Rightarrow> bytes \<Rightarrow> u64" where
  "murmur_tail h data2 =
     (if data2 = [] then h
      else foldl (\<lambda>h i. h XOR push_bit (8 * i) (ucast (data2 ! i))) h (rev [0..<length data2]) * m64)"

definition MurmurHash2_Slice :: "slice \<Rightarrow> u64" where
  "MurmurHash2_Slice x =
     (let h = seed64 XOR (of_nat (length x) * m64);
          (h, data2) = murmur_words h x;
          h = murmur_tail h data2;
          h = xorshift 47 h;
          h = h * m64
      in xorshift 47 h)"

definition MurmurHash2_string :: "bytes \<Rightarrow> u64" where
  "MurmurHash2_string x = MurmurHash2_Slice x"

definition m32 :: u32 where "m32 = 0x5bd1e995"
definition seed32 :: u32 where "seed32 = 0xfacec0de"

definition MurmurHash2_32_size_t :: "u64 \<Rightarrow> u64" where
  "MurmurHash2_32_size_t xa =
     (let x = ucast xa :: u32;
          x = x * m32;
          x = xorshift 24 x;
          x = x * m32;
          h = seed32 XOR x;
          h = h * m32;
          h = xorshift 24 h;
          h = h * m32;
          h = xorshift 24 h
      in ucast h)"

function murmur_words_32 :: "u32 \<Rightarrow> bytes \<Rightarrow> u32 \<times> bytes" where
  "murmur_words_32 h data =
     (if length data < 4 then (h, data)
      else let k = DecodeFixed32 (take 4 data);
               k = k * m32;
               k = xorshift 24 k;
               k = k * m32
           in murmur_words_32 ((h * m32) XOR k) (drop 4 data))"
  by pat_completeness auto

termination
  by (relation "measure (\<lambda>(_, data). length data)") auto

declare murmur_words_32.simps [simp del]

definition murmur_tail_32 :: "u32 \<Rightarrow> bytes \<Rightarrow> u32" where
  "murmur_tail_32 h data2 =
     (if data2 = [] then h
      else foldl (\<lambda>h i. h XOR push_bit (8 * i) (ucast (data2 ! i))) h (rev [0..<length data2]) * m32)"

definition MurmurHash2_32_Slice :: "slice \<Rightarrow> u64" where
  "MurmurHash2_32_Slice x =
     (let h = ucast (ucast seed32 XOR (of_nat (length x) :: u64)) :: u32;
          (h, data2) = murmur_words_32 h x;
          h = murmur_tail_32 h data2;
          h = xorshift 13 h;
          h = h * m32;
          h = xorshift 15 h
      in ucast h)"

section \<open>The mixing steps are bijections\<close>

lemma drop_bit_drop_bit_ge:
  "LENGTH('a) \<le> r + s \<Longrightarrow> drop_bit r (drop_bit s (x :: 'a::len word)) = 0"
  by (rule bit_word_eqI) (auto simp: bit_simps dest: bit_imp_le_length)

lemma xorshift_involution:
  assumes "LENGTH('a) \<le> 2 * r"
  shows "xorshift r (xorshift r (x :: 'a::len word)) = x"
proof -
  have "drop_bit r (drop_bit r x) = 0"
    using assms by (intro drop_bit_drop_bit_ge) simp
  then show ?thesis
    unfolding xorshift_def by (simp add: drop_bit_xor xor.assoc)
qed

lemma xorshift_inject:
  assumes "LENGTH('a) \<le> 2 * r"
  shows "xorshift r x = xorshift r (y :: 'a::len word) \<longleftrightarrow> x = y"
  using xorshift_involution [OF assms] by metis

lemma xorshift_inject13: "xorshift 13 x = xorshift 13 (y :: u32) \<longleftrightarrow> x = y"
proof -
  have inv: "xorshift 13 z XOR drop_bit 13 (xorshift 13 z) XOR drop_bit 26 (xorshift 13 z) = z" for z :: u32
    unfolding xorshift_def
    by (rule bit_word_eqI) (auto simp: bit_simps ac_simps dest: bit_imp_le_length)
  show ?thesis using inv [of x] inv [of y] by metis
qed

lemma mult_m64_inject: "x * m64 = y * m64 \<longleftrightarrow> x = y"
proof -
  have "m64 * 0x5f7a0ea7e59b19bd = 1" by (simp add: m64_def)
  then have "z * m64 * 0x5f7a0ea7e59b19bd = z" for z by (simp only: mult.assoc mult_1_right)
  then show ?thesis by metis
qed

lemma mult_m32_inject: "x * m32 = y * m32 \<longleftrightarrow> x = y"
proof -
  have "m32 * 0xe59b19bd = 1" by (simp add: m32_def)
  then have "z * m32 * 0xe59b19bd = z" for z by (simp only: mult.assoc mult_1_right)
  then show ?thesis by metis
qed

lemma xor_left_inject: "(h XOR x) = (h XOR y) \<longleftrightarrow> x = (y :: 'a::len word)"
  by (metis xor.assoc xor_self_eq xor.left_neutral)

lemma xor_right_inject: "(x XOR h) = (y XOR h) \<longleftrightarrow> x = (y :: 'a::len word)"
  by (metis xor.commute xor_left_inject)

lemmas mixing_bijections = xor_left_inject xor_right_inject mult_m64_inject mult_m32_inject
  xorshift_inject xorshift_inject13

section \<open>Strings\<close>

lemma DecodeFixed64_inject:
  assumes "length a = 8" and "length b = 8" and "DecodeFixed64 a = DecodeFixed64 b"
  shows "a = b"
  using assms encode_decode64 by metis

lemma murmur_words_short [simp]: "length data < 8 \<Longrightarrow> murmur_words h data = (h, data)"
  by (subst murmur_words.simps) simp

lemma murmur_words_word:
  "length w = 8 \<Longrightarrow> murmur_words h (w @ data)
     = murmur_words ((h XOR xorshift 47 (DecodeFixed64 w * m64) * m64) * m64) data"
  by (subst murmur_words.simps) (simp add: Let_def)

lemma murmur_words_append:
  assumes "8 dvd length pre"
  shows "murmur_words h (pre @ data) = murmur_words (fst (murmur_words h pre)) data"
  using assms
proof (induction pre arbitrary: h rule: length_induct)
  case (1 pre)
  show ?case
  proof (cases "length pre < 8")
    case True
    then have "pre = []" using 1(2) by (auto dest: dvd_imp_le)
    then show ?thesis by simp
  next
    case False
    define w where "w = take 8 pre"
    have w: "length w = 8" "pre = w @ drop 8 pre" using False by (auto simp: w_def)
    have "8 dvd length (drop 8 pre)" using 1(2) False by simp
    moreover have "length (drop 8 pre) < length pre" using False by simp
    ultimately have IH: "murmur_words h' (drop 8 pre @ data)
        = murmur_words (fst (murmur_words h' (drop 8 pre))) data" for h'
      using 1(1) by blast
    have "murmur_words h (w @ drop 8 pre @ data)
        = murmur_words (fst (murmur_words h (w @ drop 8 pre))) data"
      by (simp only: murmur_words_word [OF w(1)] IH)
    then show ?thesis by (metis w(2) append.assoc)
  qed
qed

lemma murmur_words_inject:
  "(fst (murmur_words h data) = fst (murmur_words h' data) \<longleftrightarrow> h = h')
   \<and> snd (murmur_words h data) = snd (murmur_words h' data)"
proof (induction data arbitrary: h h' rule: length_induct)
  case (1 data)
  show ?case
  proof (cases "length data < 8")
    case False
    define k where "k = xorshift 47 (DecodeFixed64 (take 8 data) * m64) * m64"
    have step: "murmur_words g data = murmur_words ((g XOR k) * m64) (drop 8 data)" for g
      using False murmur_words_word [of "take 8 data" g "drop 8 data"] by (simp add: k_def)
    have "length (drop 8 data) < length data" using False by simp
    then show ?thesis using 1 unfolding step by (simp add: mixing_bijections)
  qed simp
qed

text \<open>The tail: a fold of exclusive disjunctions does not depend on the accumulated hash.\<close>

lemma foldl_xor: "foldl (\<lambda>h i. h XOR g i) h xs = h XOR foldl (\<lambda>h i. h XOR g i) 0 (xs :: nat list)"
  for h :: "'a::len word"
proof (induction xs arbitrary: h)
  case (Cons x xs)
  show ?case
    using Cons [of "h XOR g x"] Cons [of "g x"] by (simp add: xor.assoc)
qed simp

lemma murmur_tail_inject: "murmur_tail h data = murmur_tail h' data \<longleftrightarrow> h = h'"
  unfolding murmur_tail_def
  by (subst (1 2) foldl_xor) (simp add: mixing_bijections)

lemma MurmurHash2_Slice_cong_words:
  assumes "length x = length y"
    and "MurmurHash2_Slice x = MurmurHash2_Slice y"
    and "snd (murmur_words (seed64 XOR (of_nat (length x) * m64)) x)
       = snd (murmur_words (seed64 XOR (of_nat (length x) * m64)) y)"
  shows "fst (murmur_words (seed64 XOR (of_nat (length x) * m64)) x)
       = fst (murmur_words (seed64 XOR (of_nat (length x) * m64)) y)"
  using assms
  by (simp add: MurmurHash2_Slice_def Let_def split_beta mixing_bijections murmur_tail_inject)

section \<open>Properties\<close>

text \<open>
  C37. The hashes of integers are injective: \<open>MurmurHash2<size_t>\<close> never maps two different values to
  the same hash, and \<open>MurmurHash2_32<size_t>\<close> does so exactly when they agree in their low 32 bits.
\<close>

theorem murmur_integer_no_collision:
  "(MurmurHash2_size_t x = MurmurHash2_size_t y \<longleftrightarrow> x = y)
   \<and> (MurmurHash2_32_size_t x = MurmurHash2_32_size_t y \<longleftrightarrow> take_bit 32 x = take_bit 32 y)"
proof -
  have "(ucast (ucast a :: u64) :: u32) = a" for a
    by (rule bit_word_eqI) (simp add: bit_simps)
  then have "ucast a = (ucast b :: u64) \<longleftrightarrow> a = b" for a b :: u32
    by metis
  moreover have "(ucast x :: u32) = ucast y \<longleftrightarrow> take_bit 32 x = take_bit 32 y"
  proof -
    have "n < 64" if "n < 32" for n :: nat using that by simp
    then have "(\<forall>n < 32. bit x n = bit y n) \<longleftrightarrow> (\<forall>n < 64. n < 32 \<and> bit x n \<longleftrightarrow> n < 32 \<and> bit y n)"
      by blast
    then show ?thesis by (simp add: bit_eq_iff bit_simps)
  qed
  ultimately show ?thesis
    by (simp add: MurmurHash2_size_t_def MurmurHash2_32_size_t_def Let_def mixing_bijections)
qed

text \<open>
  The string hash separates strings of the same length that differ in one aligned 8-byte block
  only, wherever that block is and whatever surrounds it.
\<close>

theorem murmur_string_block_separated:
  assumes "8 dvd length pre" and "length b = 8" and "length c = 8"
  shows "MurmurHash2_Slice (pre @ b @ post) = MurmurHash2_Slice (pre @ c @ post) \<longleftrightarrow> b = c"
proof
  define h0 where "h0 = seed64 XOR (of_nat (length (pre @ b @ post)) * m64)"
  define h where "h = fst (murmur_words h0 pre)"
  have words: "murmur_words h0 (pre @ w @ post) = murmur_words
      ((h XOR xorshift 47 (DecodeFixed64 w * m64) * m64) * m64) post" if "length w = 8" for w
    using murmur_words_append [OF assms(1)] murmur_words_word [OF that] by (simp add: h_def)
  assume "MurmurHash2_Slice (pre @ b @ post) = MurmurHash2_Slice (pre @ c @ post)"
  moreover have "snd (murmur_words h0 (pre @ b @ post)) = snd (murmur_words h0 (pre @ c @ post))"
    unfolding words [OF assms(2)] words [OF assms(3)] using murmur_words_inject by blast
  ultimately have "fst (murmur_words h0 (pre @ b @ post)) = fst (murmur_words h0 (pre @ c @ post))"
    unfolding h0_def using assms by (intro MurmurHash2_Slice_cong_words) simp_all
  then have "DecodeFixed64 b = DecodeFixed64 c"
    using murmur_words_inject by (simp add: words assms mixing_bijections)
  then show "b = c" using assms DecodeFixed64_inject by blast
qed simp

theorem murmur_string_block_separated_witness:
  "MurmurHash2_Slice ([] @ [1,2,3,4,5,6,7,8] @ [9,10]) \<noteq> MurmurHash2_Slice ([] @ [1,2,3,4,5,6,7,9] @ [9,10])"
  using murmur_string_block_separated [of "[]" "[1,2,3,4,5,6,7,8]" "[1,2,3,4,5,6,7,9]" "[9,10]"] by simp

end
