(* ===== verification/SubscriptionId.thy ===== *)
theory SubscriptionId
  imports Hash
begin

text \<open>
  \<open>src/util/common/subscription_id.{h,cc}\<close>: subscription identifiers and their allocator. An
  identifier packs a shard (variable-length encoded) and an identifier within the shard into eight
  bytes; the allocator hands out identifiers from an array of counters indexed by a hash of shard
  and worker. The theorems: packing and unpacking are inverse whenever the pair fits, they fit
  exactly below a power of two, every allocated identifier leads back to its shard and worker, and
  no identifier is handed out twice.
\<close>

unbundle bit_operations_syntax

section \<open>Identifiers\<close>

text \<open>\<open>SubscriptionID\<close> is its \<open>encoded_\<close> field; the invalid identifier is 0.\<close>

type_synonym ShardID = u32
type_synonym SubscriptionID = u64

definition sub_valid :: "SubscriptionID \<Rightarrow> bool" where
  "sub_valid sub_id \<longleftrightarrow> sub_id \<noteq> 0"

definition GetShardID :: "SubscriptionID \<Rightarrow> ShardID" where
  "GetShardID sub_id =
     (case GetVarint32 (EncodeFixed64 sub_id) of
        (None, _) \<Rightarrow> - 1
      | (Some shard_id, _) \<Rightarrow> shard_id)"

definition GetHierarchicalID :: "SubscriptionID \<Rightarrow> u64" where
  "GetHierarchicalID sub_id =
     (let buffer = EncodeFixed64 sub_id @ replicate 5 0
      in case GetVarint32 buffer of
           (None, _) \<Rightarrow> 0
         | (Some shard_id, inp) \<Rightarrow>
             (case GetFixed64 inp of
                (None, _) \<Rightarrow> 0
              | (Some hierarchical_id, _) \<Rightarrow> hierarchical_id))"

text \<open>
  The 13-byte buffer of \<open>ForShard\<close> and the three assertions at its end; a failed assertion is
  \<open>None\<close>. (The code reads eight bytes of memory as a \<open>uint64_t\<close>, which is \<open>DecodeFixed64\<close> on a
  little-endian machine.)
\<close>

definition ForShard_buffer :: "ShardID \<Rightarrow> u64 \<Rightarrow> bytes" where
  "ForShard_buffer shard_id hierarchical_id =
     (let written = EncodeVarint32 shard_id @ EncodeFixed64 hierarchical_id
      in written @ replicate (13 - length written) 0)"

definition ForShard :: "ShardID \<Rightarrow> u64 \<Rightarrow> SubscriptionID option" where
  "ForShard shard_id hierarchical_id =
     (let buffer = ForShard_buffer shard_id hierarchical_id
      in if list_ex (\<lambda>b. b \<noteq> 0) (drop 8 buffer) then Some 0
         else let sub_id = DecodeFixed64 (take 8 buffer)
              in if sub_valid sub_id \<and> shard_id = GetShardID sub_id
                    \<and> hierarchical_id = GetHierarchicalID sub_id
                 then Some sub_id else None)"

definition EncodeSubscriptionID :: "bytes \<Rightarrow> SubscriptionID \<Rightarrow> bytes" where
  "EncodeSubscriptionID out sub_id = PutVarint64 out sub_id"

definition DecodeSubscriptionID :: "slice \<Rightarrow> SubscriptionID option \<times> slice" where
  "DecodeSubscriptionID inp =
     (case GetVarint64 inp of
        (None, inp) \<Rightarrow> (None, inp)
      | (Some v, inp) \<Rightarrow> (Some v, inp))"

section \<open>The allocator\<close>

record SubscriptionIDAllocator =
  num_workers :: u64
  allocators :: "u64 list"

definition new_allocator :: "u64 \<Rightarrow> nat \<Rightarrow> SubscriptionIDAllocator" where
  "new_allocator nw num_allocators =
     \<lparr>num_workers = nw, allocators = replicate num_allocators 0\<rparr>"

definition allocator_index :: "nat \<Rightarrow> ShardID \<Rightarrow> u64 \<Rightarrow> nat" where
  "allocator_index n shard_id worker_id =
     unat (MurmurHash2_pair MurmurHash2_size_t MurmurHash2_size_t (ucast shard_id) worker_id) mod n"

text \<open>
  \<open>Next\<close>: the only access to shared state is the atomic post-increment, so calls of several
  threads take effect one after the other in the order of their increments.
\<close>

definition Next ::
  "SubscriptionIDAllocator \<Rightarrow> ShardID \<Rightarrow> u64 \<Rightarrow> failure + SubscriptionID \<times> SubscriptionIDAllocator" where
  "Next A shard_id worker_id =
     (if \<not> worker_id < num_workers A then Inl Assert_failed
      else let i = allocator_index (length (allocators A)) shard_id worker_id;
               seed = allocators A ! i;
               A' = A\<lparr>allocators := (allocators A)[i := seed + 1]\<rparr>;
               hierarchical_id = 1 + worker_id + num_workers A * seed;
               a = seed + 1
           in if a = 0 then Inr (0, A')
              else let b = num_workers A * a
                   in if b div a \<noteq> num_workers A then Inr (0, A')
                      else case ForShard shard_id hierarchical_id of
                             None \<Rightarrow> Inl Assert_failed
                           | Some sub_id \<Rightarrow> Inr (sub_id, A'))"

definition GetWorkerID :: "SubscriptionIDAllocator \<Rightarrow> SubscriptionID \<Rightarrow> u64" where
  "GetWorkerID A sub_id =
     (let hierarchical_id = GetHierarchicalID sub_id
      in if hierarchical_id = 0 then num_workers A
         else (hierarchical_id - 1) mod num_workers A)"

section \<open>Packing and unpacking\<close>

lemma length_EncodeVarint32_le: "length (EncodeVarint32 v) \<le> 5"
proof -
  have "unat v < 2 ^ (7 * Suc 4)"
    using unsigned_less [of v, where ?'a = nat] by simp
  then show ?thesis
    unfolding EncodeVarint32_varint_bytes using length_varint_bytes [of "unat v" 4] by simp
qed

lemma length_EncodeVarint32_pos: "0 < length (EncodeVarint32 v)"
  unfolding EncodeVarint32_varint_bytes by simp

lemma length_ForShard_buffer [simp]: "length (ForShard_buffer s h) = 13"
  using length_EncodeVarint32_le [of s] by (simp add: ForShard_buffer_def Let_def)

lemma all_zero_replicate: "(\<forall>x \<in> set xs. x = z) \<Longrightarrow> xs = replicate (length xs) z"
  by (simp add: list_eq_iff_nth_eq)

lemma ForShard_unpacks:
  assumes "\<not> list_ex (\<lambda>b. b \<noteq> 0) (drop 8 (ForShard_buffer s h))"
  defines "e \<equiv> DecodeFixed64 (take 8 (ForShard_buffer s h))"
  shows "GetShardID e = s" and "GetHierarchicalID e = h"
proof -
  let ?b = "ForShard_buffer s h"
  let ?pad = "replicate (5 - length (EncodeVarint32 s)) (0 :: u8)"
  have enc: "EncodeFixed64 e = take 8 ?b"
    by (simp add: e_def encode_decode64)
  have b: "?b = EncodeVarint32 s @ EncodeFixed64 h @ ?pad"
    by (simp add: ForShard_buffer_def Let_def)
  have "drop 8 ?b = replicate 5 0"
    using assms(1) all_zero_replicate [of "drop 8 ?b" 0] by (simp add: list_ex_iff)
  then have "EncodeFixed64 e @ replicate 5 0 = ?b"
    by (metis enc append_take_drop_id)
  then show "GetHierarchicalID e = h"
    by (simp add: GetHierarchicalID_def b varint32.get_put fixed64.get_put)
  have "take 8 ?b = EncodeVarint32 s @ take (8 - length (EncodeVarint32 s)) (EncodeFixed64 h @ ?pad)"
    using length_EncodeVarint32_le [of s] by (simp add: b)
  then show "GetShardID e = s"
    by (simp add: GetShardID_def enc varint32.get_put)
qed

lemma unpack_zero: "GetShardID 0 = 0" "GetHierarchicalID 0 = 0"
  by code_simp+

lemma pack_zero: "DecodeFixed64 (take 8 (ForShard_buffer 0 0)) = 0"
  by code_simp

lemma ForShard_cases:
  "ForShard s h =
     (if list_ex (\<lambda>b. b \<noteq> 0) (drop 8 (ForShard_buffer s h)) then Some 0
      else if s = 0 \<and> h = 0 then None
      else Some (DecodeFixed64 (take 8 (ForShard_buffer s h))))"
proof (cases "list_ex (\<lambda>b. b \<noteq> 0) (drop 8 (ForShard_buffer s h))")
  case False
  note unpacks = ForShard_unpacks [OF False]
  have "DecodeFixed64 (take 8 (ForShard_buffer s h)) = 0 \<longleftrightarrow> s = 0 \<and> h = 0"
    using unpacks unpack_zero pack_zero by metis
  then show ?thesis
    using False unpacks by (simp add: ForShard_def Let_def sub_valid_def)
qed (simp add: ForShard_def)

lemma ForShard_valid:
  assumes "ForShard s h = Some sub_id" and "sub_id \<noteq> 0"
  shows "GetShardID sub_id = s" and "GetHierarchicalID sub_id = h"
  using assms ForShard_unpacks [of s h] by (auto simp: ForShard_cases split: if_splits)

lemma ForShard_not_None: "h \<noteq> 0 \<Longrightarrow> \<exists>sub_id. ForShard s h = Some sub_id"
  by (simp add: ForShard_cases)

text \<open>Which pairs fit: the bytes of the second number that are pushed out must be zero.\<close>

lemma nth_EncodeFixed64: "j < 8 \<Longrightarrow> EncodeFixed64 h ! j = ucast (drop_bit (8 * j) h)"
  unfolding EncodeFixed64_map
  by (auto simp: numeral_eq_Suc less_Suc_eq)

lemma high_bytes_zero:
  assumes "n \<le> 8"
  shows "(\<forall>b \<in> set (drop n (EncodeFixed64 h)). b = 0) \<longleftrightarrow> unat h < 2 ^ (8 * n)"
proof -
  have "(\<forall>b \<in> set (drop n (EncodeFixed64 h)). b = 0)
      \<longleftrightarrow> (\<forall>j. n \<le> j \<and> j < 8 \<longrightarrow> (ucast (drop_bit (8 * j) h) :: u8) = 0)" (is "?zero \<longleftrightarrow> ?bytes")
  proof
    assume z: ?zero
    show ?bytes
    proof (intro allI impI)
      fix j assume j: "n \<le> j \<and> j < 8"
      have "drop n (EncodeFixed64 h) ! (j - n) \<in> set (drop n (EncodeFixed64 h))"
        using j by (intro nth_mem) auto
      then show "(ucast (drop_bit (8 * j) h) :: u8) = 0"
        using z j by (simp add: nth_EncodeFixed64)
    qed
  next
    assume bytes: ?bytes
    show ?zero
    proof
      fix b assume "b \<in> set (drop n (EncodeFixed64 h))"
      then obtain i where "i < 8 - n" "b = EncodeFixed64 h ! (n + i)"
        by (auto simp: in_set_conv_nth)
      then show "b = 0"
        using bytes [rule_format, of "n + i"] nth_EncodeFixed64 [of "n + i" h] by simp
    qed
  qed
  also have "\<dots> \<longleftrightarrow> drop_bit (8 * n) h = 0"
  proof
    assume bytes: ?bytes
    show "drop_bit (8 * n) h = 0"
    proof (rule bit_word_eqI)
      fix k assume "k < LENGTH(64)"
      let ?i = "8 * n + k"
      have "\<not> bit h ?i"
      proof
        assume h: "bit h ?i"
        then have "?i < 64" using bit_imp_le_length [OF h] by simp
        then have "n \<le> ?i div 8 \<and> ?i div 8 < 8" by auto
        then have "(ucast (drop_bit (8 * (?i div 8)) h) :: u8) = 0"
          using bytes by blast
        then have "\<not> bit (ucast (drop_bit (8 * (?i div 8)) h) :: u8) (?i mod 8)" by simp
        then show False using h by (simp add: bit_simps add.commute)
      qed
      then show "bit (drop_bit (8 * n) h) k = bit (0 :: u64) k" by (simp add: bit_simps)
    qed
  next
    assume h: "drop_bit (8 * n) h = 0"
    have "drop_bit (8 * j) h = drop_bit (8 * (j - n)) (drop_bit (8 * n) h)" if "n \<le> j" for j
    proof -
      have "8 * j = 8 * (j - n) + 8 * n" using that by simp
      then show ?thesis by (simp only: drop_bit_drop_bit [symmetric])
    qed
    then show ?bytes using h by simp
  qed
  also have "\<dots> \<longleftrightarrow> unat h div 2 ^ (8 * n) = 0"
    by (metis unat_drop_bit_div unat_0 unat_eq_zero)
  finally show ?thesis by (simp add: div_eq_0_iff)
qed

lemma ForShard_fits:
  "list_ex (\<lambda>b. b \<noteq> 0) (drop 8 (ForShard_buffer s h))
     \<longleftrightarrow> \<not> unat h < 2 ^ (8 * (8 - length (EncodeVarint32 s)))"
proof -
  let ?k = "length (EncodeVarint32 s)"
  have k: "?k \<le> 5" by (rule length_EncodeVarint32_le)
  have "drop 8 (ForShard_buffer s h) = drop (8 - ?k) (EncodeFixed64 h) @ replicate (5 - ?k) 0"
    using k by (simp add: ForShard_buffer_def Let_def)
  then show ?thesis
    using high_bytes_zero [of "8 - ?k" h] by (auto simp: list_ex_iff)
qed

section \<open>Allocation\<close>

text \<open>The overflow test of \<open>Next\<close> is exact, and it covers the expression it guards.\<close>

lemma overflow_test:
  fixes n a :: "'a::len word"
  assumes "a \<noteq> 0"
  shows "(n * a) div a = n \<longleftrightarrow> unat n * unat a < 2 ^ LENGTH('a)"
proof
  have a: "0 < unat a" using assms by (simp add: unat_gt_0)
  have mult: "unat (n * a) = (unat n * unat a) mod 2 ^ LENGTH('a)"
    by (simp add: unat_word_ariths(2))
  show "unat n * unat a < 2 ^ LENGTH('a)" if "(n * a) div a = n"
  proof -
    have "unat n = unat (n * a) div unat a" using that by (metis unat_div)
    then have "unat n * unat a \<le> unat (n * a)" by simp
    then show ?thesis using unsigned_less [of "n * a"] by (rule le_less_trans)
  qed
  show "(n * a) div a = n" if "unat n * unat a < 2 ^ LENGTH('a)"
    using that a mult by (simp add: word_unat_eq_iff unat_div)
qed

lemma hierarchical_id_exact:
  assumes "seed + 1 \<noteq> 0" and "(nw * (seed + 1)) div (seed + 1) = nw" and "w < (nw :: u64)"
  shows "unat (1 + w + nw * seed) = 1 + unat w + unat nw * unat seed"
    and "1 + unat w + unat nw * unat seed < 2 ^ 64"
proof -
  have "unat (seed + 1) = unat seed + 1"
    using assms(1) by (metis Suc_eq_plus1 unatSuc add.commute)
  then have "unat nw * (unat seed + 1) < 2 ^ 64"
    using overflow_test [OF assms(1), of nw] assms(2) by simp
  moreover have "unat w < unat nw" using assms(3) by (simp add: word_less_nat_alt)
  ultimately have b: "1 + unat w + unat nw * unat seed < 2 ^ 64" by simp
  then show "1 + unat w + unat nw * unat seed < 2 ^ 64" .
  then have "unat (of_nat (1 + unat w + unat nw * unat seed) :: u64) = 1 + unat w + unat nw * unat seed"
    by (simp only: unat_of_nat take_bit_nat_eq_self len_num0 len_bit0 len_num1) simp
  then show "unat (1 + w + nw * seed) = 1 + unat w + unat nw * unat seed"
    by (simp add: add.assoc)
qed

abbreviation counter_of :: "SubscriptionIDAllocator \<Rightarrow> ShardID \<Rightarrow> u64 \<Rightarrow> nat" where
  "counter_of A shard_id worker_id \<equiv> allocator_index (length (allocators A)) shard_id worker_id"

abbreviation advance :: "SubscriptionIDAllocator \<Rightarrow> ShardID \<Rightarrow> u64 \<Rightarrow> SubscriptionIDAllocator" where
  "advance A s w \<equiv> A\<lparr>allocators := (allocators A)
     [counter_of A s w := allocators A ! counter_of A s w + 1]\<rparr>"

lemma Next_total:
  assumes "w < num_workers A"
  obtains sub_id where "Next A s w = Inr (sub_id, advance A s w)"
proof (cases "Next A s w")
  case (Inl e)
  have "1 + w + num_workers A * seed \<noteq> 0"
    if "seed + 1 \<noteq> 0" "(num_workers A * (seed + 1)) div (seed + 1) = num_workers A" for seed
    using hierarchical_id_exact(1) [OF that assms] by (metis add_is_0 unat_0 zero_neq_one)
  then show ?thesis
    using Inl assms
      ForShard_not_None [of "1 + w + num_workers A * (allocators A ! counter_of A s w)" s]
    by (auto simp: Next_def Let_def split: if_splits option.splits)
next
  case (Inr r)
  then show ?thesis
    using that by (auto simp: Next_def Let_def split: if_splits option.splits)
qed

lemma Next_valid:
  assumes "Next A s w = Inr (sub_id, A')" and "sub_id \<noteq> 0"
  shows "w < num_workers A" and "A' = advance A s w" and "GetShardID sub_id = s"
    and "unat (GetHierarchicalID sub_id)
           = 1 + unat w + unat (num_workers A) * unat (allocators A ! counter_of A s w)"
proof -
  let ?seed = "allocators A ! counter_of A s w"
  show w: "w < num_workers A" and "A' = advance A s w"
    using assms by (auto simp: Next_def Let_def split: if_splits option.splits)
  have ok: "?seed + 1 \<noteq> 0" "(num_workers A * (?seed + 1)) div (?seed + 1) = num_workers A"
    and f: "ForShard s (1 + w + num_workers A * ?seed) = Some sub_id"
    using assms by (auto simp: Next_def Let_def split: if_splits option.splits)
  show "GetShardID sub_id = s" using ForShard_valid(1) [OF f assms(2)] .
  show "unat (GetHierarchicalID sub_id) = 1 + unat w + unat (num_workers A) * unat ?seed"
    using ForShard_valid(2) [OF f assms(2)] hierarchical_id_exact(1) [OF ok w] by simp
qed

text \<open>
  The identifiers of a sequence of calls, in the order of their atomic increments; a failed
  assertion ends the program.
\<close>

fun Next_all :: "SubscriptionIDAllocator \<Rightarrow> (ShardID \<times> u64) list \<Rightarrow> SubscriptionID list" where
  "Next_all A [] = []"
| "Next_all A ((s, w) # calls) =
     (case Next A s w of Inl _ \<Rightarrow> [] | Inr (sub_id, A') \<Rightarrow> sub_id # Next_all A' calls)"

text \<open>No counter wraps around during the given number of calls.\<close>

definition counters_last :: "SubscriptionIDAllocator \<Rightarrow> nat \<Rightarrow> bool" where
  "counters_last A n \<longleftrightarrow> (\<forall>c \<in> set (allocators A). unat c + n < 2 ^ 64)"

lemma Next_state:
  assumes "Next A s w = Inr (sub_id, A')"
  shows "A' = advance A s w" and "w < num_workers A"
  using assms by (auto simp: Next_def Let_def split: if_splits option.splits)

lemma unat_increment:
  fixes c :: u64
  assumes "unat c + Suc n < 2 ^ 64"
  shows "unat (c + 1) = unat c + 1"
proof -
  have "unat (of_nat (unat c + 1) :: u64) = unat c + 1"
    using assms by (simp only: unat_of_nat take_bit_nat_eq_self len_num0 len_bit0 len_num1) simp
  then show ?thesis by (simp add: add.commute)
qed

lemma counter_after:
  assumes "counters_last A (Suc n)" and "i < length (allocators A)"
  shows "unat (allocators (advance A s w) ! i)
    = unat (allocators A ! i) + (if i = counter_of A s w then 1 else 0)"
proof -
  have "unat (allocators A ! i) + Suc n < 2 ^ 64"
    using assms by (simp add: counters_last_def)
  from unat_increment [OF this] show ?thesis using assms(2) by auto
qed

lemma counters_last_Next:
  assumes "counters_last A (Suc n)" and "Next A s w = Inr (sub_id, A')"
  shows "counters_last A' n"
proof -
  have "unat (allocators (advance A s w) ! i) + n < 2 ^ 64" if "i < length (allocators A)" for i
  proof -
    have "unat (allocators A ! i) + Suc n < 2 ^ 64"
      using assms(1) that by (simp add: counters_last_def)
    then show ?thesis unfolding counter_after [OF assms(1) that] by auto
  qed
  then show ?thesis
    unfolding Next_state(1) [OF assms(2)] counters_last_def by (simp add: all_set_conv_all_nth)
qed

text \<open>Every valid identifier allocated from a state carries a seed not below the counter it came from.\<close>

lemma Next_all_seed:
  assumes "sub_id \<in> set (Next_all A calls)" and "sub_id \<noteq> 0" and "allocators A \<noteq> []"
    and "counters_last A (length calls)"
  shows "\<exists>s w seed. GetShardID sub_id = s \<and> w < num_workers A
    \<and> unat (GetHierarchicalID sub_id) = 1 + unat w + unat (num_workers A) * seed
    \<and> unat (allocators A ! counter_of A s w) \<le> seed"
  using assms
proof (induction A calls rule: Next_all.induct)
  case (2 A s w calls)
  obtain sub' A' where nxt: "Next A s w = Inr (sub', A')"
    using 2(2) by (cases "Next A s w") auto
  show ?case
  proof (cases "sub_id = sub'")
    case True
    then show ?thesis using Next_valid [OF nxt] 2(3) by blast
  next
    case False
    note A' = Next_state [OF nxt]
    have last: "counters_last A (Suc (length calls))" using 2(5) by simp
    have "allocators A' \<noteq> []" "sub_id \<in> set (Next_all A' calls)"
      using A' 2(2,4) nxt False by auto
    then obtain t v seed where tail: "GetShardID sub_id = t" "v < num_workers A'"
      "unat (GetHierarchicalID sub_id) = 1 + unat v + unat (num_workers A') * seed"
      "unat (allocators A' ! counter_of A' t v) \<le> seed"
      using 2(1) [OF nxt refl _ 2(3)] counters_last_Next [OF last nxt] by blast
    have i: "counter_of A t v < length (allocators A)"
      using 2(4) by (simp add: allocator_index_def)
    have "unat (allocators A ! counter_of A t v) \<le> seed"
      using tail(4) counter_after [OF last i, of s w] A'(1) by (simp split: if_splits)
    then show ?thesis using tail A'(1) by auto
  qed
qed simp

text \<open>The decomposition of an identifier within its shard is unique.\<close>

lemma hierarchical_id_unique:
  fixes w v n :: nat
  assumes "1 + w + n * seed = 1 + v + n * seed'" and "w < n" and "v < n"
  shows "w = v" and "seed = seed'"
proof -
  have "w = (w + n * seed) mod n" "v = (v + n * seed') mod n" using assms(2,3) by simp_all
  then show wv: "w = v" using assms(1) by (metis add.assoc add_left_cancel)
  then show "seed = seed'" using assms by simp
qed

lemma Next_all_fresh:
  assumes "Next A s w = Inr (sub_id, A')" and "sub_id \<noteq> 0" and "allocators A \<noteq> []"
    and "counters_last A (Suc (length calls))"
  shows "sub_id \<notin> set (Next_all A' calls)"
proof
  assume mem: "sub_id \<in> set (Next_all A' calls)"
  note first = Next_valid [OF assms(1,2)]
  have "allocators A' \<noteq> []" using first(2) assms(3) by simp
  then obtain t v seed where tail: "GetShardID sub_id = t" "v < num_workers A'"
    "unat (GetHierarchicalID sub_id) = 1 + unat v + unat (num_workers A') * seed"
    "unat (allocators A' ! counter_of A' t v) \<le> seed"
    using Next_all_seed [OF mem assms(2)] counters_last_Next [OF assms(4,1)] by blast
  have "1 + unat w + unat (num_workers A) * unat (allocators A ! counter_of A s w)
      = 1 + unat v + unat (num_workers A) * seed"
    using tail(3) first(2,4) by simp
  moreover have "unat w < unat (num_workers A)" "unat v < unat (num_workers A)"
    using tail(2) first(1,2) by (simp_all add: word_less_nat_alt)
  ultimately have "unat w = unat v" "unat (allocators A ! counter_of A s w) = seed"
    using hierarchical_id_unique by blast+
  moreover have "counter_of A s w < length (allocators A)"
    using assms(3) by (simp add: allocator_index_def)
  ultimately show False
    using tail(1,4) first(2,3) counter_after [OF assms(4), of "counter_of A s w" s w]
    by (simp add: word_unat_eq_iff [symmetric])
qed

lemma Next_all_distinct:
  assumes "allocators A \<noteq> []" and "counters_last A (length calls)"
  shows "distinct (filter sub_valid (Next_all A calls))"
  using assms
proof (induction A calls rule: Next_all.induct)
  case (2 A s w calls)
  show ?case
  proof (cases "Next A s w")
    case (Inr r)
    obtain sub_id A' where r: "r = (sub_id, A')" by (cases r)
    note nxt = Inr [unfolded r]
    have last: "counters_last A (Suc (length calls))" using 2(3) by simp
    have "allocators A' \<noteq> []" using 2(2) Next_state(1) [OF nxt] by simp
    then have "distinct (filter sub_valid (Next_all A' calls))"
      using 2(1) [OF nxt refl] counters_last_Next [OF last nxt] by blast
    moreover have "sub_id \<noteq> 0 \<Longrightarrow> sub_id \<notin> set (Next_all A' calls)"
      using Next_all_fresh [OF nxt _ 2(2) last] .
    ultimately show ?thesis using nxt by (auto simp: sub_valid_def [symmetric])
  qed simp
qed simp

section \<open>Properties\<close>

text \<open>
  C29. \<open>ForShard\<close> packs exactly the pairs that fit into eight bytes and loses nothing: it returns the
  invalid identifier precisely when the second number needs more bytes than the variable-length
  shard leaves; otherwise (for any pair but 0, 0, on which its assertion fails) it returns a valid
  identifier from which \<open>GetShardID\<close> and \<open>GetHierarchicalID\<close> recover both numbers.
\<close>

theorem ForShard_roundtrip:
  "ForShard shard_id h =
     (if 2 ^ (8 * (8 - length (EncodeVarint32 shard_id))) \<le> unat h then Some 0
      else if shard_id = 0 \<and> h = 0 then None
      else Some (DecodeFixed64 (take 8 (ForShard_buffer shard_id h))))
   \<and> (\<forall>sub_id. ForShard shard_id h = Some sub_id \<and> sub_valid sub_id
        \<longrightarrow> GetShardID sub_id = shard_id \<and> GetHierarchicalID sub_id = h)"
  using ForShard_cases [of shard_id h] ForShard_fits [of shard_id h] ForShard_valid [of shard_id h]
  by (auto simp: sub_valid_def)

theorem ForShard_roundtrip_witness:
  "\<exists>sub_id. ForShard 300 5 = Some sub_id \<and> sub_valid sub_id
     \<and> GetShardID sub_id = 300 \<and> GetHierarchicalID sub_id = 5"
proof -
  have "ForShard 300 5 = Some 0x502ac" "sub_valid 0x502ac"
    by code_simp+
  then show ?thesis
    using ForShard_roundtrip [of 300 5] by blast
qed

text \<open>
  C30. For a worker of the client, \<open>Next\<close> never fails an assertion and changes only the one counter
  the shard and worker hash to; whenever it returns a valid identifier, that identifier leads back
  to the shard and, through \<open>GetWorkerID\<close> on any later state of the allocator, to the worker.
\<close>

theorem Next_leads_back:
  assumes "worker_id < num_workers A"
  shows "\<exists>sub_id. Next A shard_id worker_id = Inr (sub_id, advance A shard_id worker_id)
    \<and> (sub_valid sub_id \<longrightarrow> GetShardID sub_id = shard_id
         \<and> (\<forall>B. num_workers B = num_workers A \<longrightarrow> GetWorkerID B sub_id = worker_id))"
proof -
  obtain sub_id where nxt: "Next A shard_id worker_id = Inr (sub_id, advance A shard_id worker_id)"
    using Next_total [OF assms] .
  let ?seed = "allocators A ! counter_of A shard_id worker_id"
  have "GetWorkerID B sub_id = worker_id" if "sub_id \<noteq> 0" "num_workers B = num_workers A" for B
  proof -
    let ?h = "GetHierarchicalID sub_id"
    have h: "unat ?h = 1 + unat worker_id + unat (num_workers A) * unat ?seed"
      using Next_valid(4) [OF nxt that(1)] .
    then have nz: "?h \<noteq> 0" by (metis add_is_0 unat_0 zero_neq_one)
    then have "unat (?h - 1) = unat worker_id + unat (num_workers A) * unat ?seed"
      using h by (simp add: unat_minus_one)
    then have "unat ((?h - 1) mod num_workers A) = unat worker_id"
      using assms by (simp add: unat_mod word_less_nat_alt)
    then have "(?h - 1) mod num_workers A = worker_id" by (simp only: word_unat_eq_iff)
    then show ?thesis using nz that(2) by (simp add: GetWorkerID_def Let_def)
  qed
  then show ?thesis
    using nxt Next_valid(3) [OF nxt] by (auto simp: sub_valid_def)
qed

theorem Next_leads_back_witness:
  "\<exists>sub_id. Next (new_allocator 4 3) 7 2 = Inr (sub_id, advance (new_allocator 4 3) 7 2)
    \<and> (sub_valid sub_id \<longrightarrow> GetShardID sub_id = 7 \<and> GetWorkerID (new_allocator 4 3) sub_id = 2)"
  using Next_leads_back [of 2 "new_allocator 4 3" 7] by (auto simp: new_allocator_def)

text \<open>
  C28. An allocator never hands out an identifier twice: in any sequence of fewer than \<open>2 ^ 64\<close> calls
  of \<open>Next\<close>, for any mix of shards and workers that share counters, the valid identifiers returned
  are pairwise different.
\<close>

theorem Next_never_repeats:
  assumes "0 < num_allocators" and "length calls < 2 ^ 64"
  shows "distinct (filter sub_valid (Next_all (new_allocator nw num_allocators) calls))"
  using assms by (intro Next_all_distinct) (auto simp: new_allocator_def counters_last_def)

theorem Next_never_repeats_witness:
  "distinct (filter sub_valid (Next_all (new_allocator 2 1) [(5, 0), (5, 1), (5, 0), (6, 0)]))"
  using Next_never_repeats [of 1 "[(5, 0), (5, 1), (5, 0), (6, 0)]" 2] by simp

end
