(* ===== verification/Messages.thy ===== *)
theory Messages
  imports MessageTypes SubscriptionId "HOL-Library.Signed_Division"
begin

text \<open>
  \<open>src/messages/messages.cc\<close>: the wire format of every message, \<open>Serialize\<close> and \<open>DeSerialize\<close> of
  each class and the factory \<open>Message::CreateNewInstance\<close>; and the encoding of stream origins of
  \<open>src/messages/types.cc\<close>. The lemmas show that what is serialized
  is read back, and that a read depends on the consumed prefix only.
\<close>

section \<open>Reading with an error status\<close>

text \<open>
  \<open>expect (Get in) e k\<close> is the source's idiom: a failed \<open>Get\<close> returns the status \<open>e\<close>, a successful
  one goes on with the value and the advanced slice.
\<close>

definition expect ::
  "'a option \<times> slice \<Rightarrow> failure \<Rightarrow> ('a \<Rightarrow> slice \<Rightarrow> (failure + 'b) \<times> slice) \<Rightarrow> (failure + 'b) \<times> slice"
where
  "expect r e k = (case r of (Some v, inp) \<Rightarrow> k v inp | (None, inp) \<Rightarrow> (Inl e, inp))"

definition thenRead ::
  "(failure + 'a) \<times> slice \<Rightarrow> ('a \<Rightarrow> slice \<Rightarrow> (failure + 'b) \<times> slice) \<Rightarrow> (failure + 'b) \<times> slice"
where
  "thenRead r k = (case r of (Inr v, inp) \<Rightarrow> k v inp | (Inl e, inp) \<Rightarrow> (Inl e, inp))"

abbreviation bad :: "string \<Rightarrow> failure" where
  "bad msg \<equiv> Failed (InvalidArgument msg)"

lemma expect_simps [simp]:
  "expect (Some v, inp) e k = k v inp"
  "expect (None, inp) e k = (Inl e, inp)"
  by (simp_all add: expect_def)

lemma thenRead_simps [simp]:
  "thenRead (Inr v, inp) k = k v inp"
  "thenRead (Inl e, inp) k = (Inl e, inp)"
  by (simp_all add: thenRead_def)

section \<open>Origins on the wire\<close>

definition EncodeOrigin :: "bytes \<Rightarrow> StreamID \<Rightarrow> bytes" where
  "EncodeOrigin out origin = PutFixed64 out origin"

definition DecodeOrigin :: "slice \<Rightarrow> StreamID option \<times> slice" where
  "DecodeOrigin inp =
     (case GetFixed64 inp of
        (None, inp') \<Rightarrow> (None, inp')
      | (Some origin_fixed, inp') \<Rightarrow> (Some origin_fixed, inp'))"

section \<open>Serialization\<close>

definition Message_Serialize :: "'z Message_scheme \<Rightarrow> bytes \<Rightarrow> bytes" where
  "Message_Serialize m out = PutFixed16 (PutFixedEnum8 out (msg_type m)) (tenantid m)"

definition MessagePing_Serialize :: "MessagePing \<Rightarrow> bytes \<Rightarrow> bytes" where
  "MessagePing_Serialize m out =
     (let out = PutFixedEnum8 out (msg_type m);
          out = PutFixed16 out (tenantid m);
          out = PutFixedEnum8 out (pingtype m)
      in PutLengthPrefixedSlice out (cookie m))"

definition MessageData_SerializeInternal :: "MessageData \<Rightarrow> bytes \<Rightarrow> bytes" where
  "MessageData_SerializeInternal m out =
     (let out = PutFixed16 out (tenantid m);
          out = PutTopicID out (data_namespace_id m) (data_topic_name m);
          out = PutLengthPrefixedSlice out (GUID_id (data_msgid m))
      in PutLengthPrefixedSlice out (data_payload m))"

definition MessageData_Serialize :: "MessageData \<Rightarrow> bytes \<Rightarrow> bytes" where
  "MessageData_Serialize m out =
     (let out = PutFixedEnum8 out (msg_type m);
          out = PutVarint64 out (data_seqno_prev m);
          out = PutVarint64 out (data_seqno m)
      in MessageData_SerializeInternal m out)"

definition Ack_Serialize :: "bytes \<Rightarrow> Ack \<Rightarrow> bytes" where
  "Ack_Serialize out ack =
     (let out = PutFixedEnum8 out (ack_status ack);
          out = PutBytes out (GUID_id (ack_msgid ack))
      in PutVarint64 out (ack_seqno ack))"

definition MessageDataAck_Serialize :: "MessageDataAck \<Rightarrow> bytes \<Rightarrow> bytes" where
  "MessageDataAck_Serialize m out =
     (let out = PutFixedEnum8 out (msg_type m);
          out = PutFixed16 out (tenantid m);
          out = PutVarint32 out (of_nat (length (acks m)))
      in foldl Ack_Serialize out (acks m))"

definition MessageGap_Serialize :: "MessageGap \<Rightarrow> bytes \<Rightarrow> bytes" where
  "MessageGap_Serialize m out =
     (let out = PutFixedEnum8 out (msg_type m);
          out = PutFixed16 out (tenantid m);
          out = PutTopicID out (gap_namespace_id m) (gap_topic_name m);
          out = PutFixedEnum8 out (gap_gap_type m);
          out = PutVarint64 out (gap_from m)
      in PutVarint64 out (gap_to m))"

definition MessageGoodbye_Serialize :: "MessageGoodbye \<Rightarrow> bytes \<Rightarrow> bytes" where
  "MessageGoodbye_Serialize m out =
     (let out = PutFixedEnum8 out (msg_type m);
          out = PutFixed16 out (tenantid m);
          out = PutFixedEnum8 out (goodbye_code m)
      in PutFixedEnum8 out (goodbye_origin_type m))"

definition MessageFindTailSeqno_Serialize :: "MessageFindTailSeqno \<Rightarrow> bytes \<Rightarrow> bytes" where
  "MessageFindTailSeqno_Serialize m out =
     PutTopicID (Message_Serialize m out) (find_namespace_id m) (find_topic_name m)"

definition MessageTailSeqno_Serialize :: "MessageTailSeqno \<Rightarrow> bytes \<Rightarrow> bytes" where
  "MessageTailSeqno_Serialize m out =
     (let out = Message_Serialize m out;
          out = PutTopicID out (tail_namespace_id m) (tail_topic_name m)
      in PutVarint64 out (tail_seqno m))"

definition MessageSubscribe_Serialize :: "MessageSubscribe \<Rightarrow> bytes \<Rightarrow> bytes" where
  "MessageSubscribe_Serialize m out =
     (let out = Message_Serialize m out;
          out = PutTopicID out (sub_namespace_id m) (sub_topic_name m);
          out = PutVarint64 out (sub_start_seqno m)
      in EncodeSubscriptionID out (sub_sub_id m))"

definition MessageUnsubscribe_Serialize :: "MessageUnsubscribe \<Rightarrow> bytes \<Rightarrow> bytes" where
  "MessageUnsubscribe_Serialize m out =
     (let out = Message_Serialize m out;
          out = EncodeSubscriptionID out (unsub_sub_id m)
      in PutFixedEnum8 out (unsub_reason m))"

text \<open>
  \<open>MessageDeliver::Serialize\<close> asserts \<open>seqno_ >= seqno_prev_\<close>, which its callers establish with
  \<open>SetSequenceNumbers\<close>; it is a hypothesis of the theorems. The difference is 64-bit arithmetic.
\<close>

definition MessageDeliver_Serialize :: "'z MessageDeliver_scheme \<Rightarrow> bytes \<Rightarrow> bytes" where
  "MessageDeliver_Serialize m out =
     (let out = Message_Serialize m out;
          out = EncodeSubscriptionID out (deliver_sub_id m);
          out = PutVarint64 out (deliver_seqno_prev m);
          seqno_diff = deliver_seqno m - deliver_seqno_prev m
      in PutVarint64 out seqno_diff)"

definition MessageDeliverGap_Serialize :: "MessageDeliverGap \<Rightarrow> bytes \<Rightarrow> bytes" where
  "MessageDeliverGap_Serialize m out = PutFixedEnum8 (MessageDeliver_Serialize m out) (deliver_gap_type m)"

definition MessageDeliverData_Serialize :: "MessageDeliverData \<Rightarrow> bytes \<Rightarrow> bytes" where
  "MessageDeliverData_Serialize m out =
     (let out = MessageDeliver_Serialize m out;
          out = PutLengthPrefixedSlice out (GUID_id (deliver_message_id m))
      in PutLengthPrefixedSlice out (deliver_payload m))"

definition MessageDeliverBatch_Serialize :: "MessageDeliverBatch \<Rightarrow> bytes \<Rightarrow> bytes" where
  "MessageDeliverBatch_Serialize m out =
     (let out = Message_Serialize m out;
          out = PutVarint64 out (of_nat (length (batch_messages m)))
      in foldl (\<lambda>out msg. MessageDeliverData_Serialize msg out) out (batch_messages m))"

text \<open>
  \<open>duration_cast<milliseconds>\<close> divides the signed tick count and truncates towards zero.
\<close>

definition ticks_per_ms :: int where
  "ticks_per_ms = 1000000"

definition MessageHeartbeat_Serialize :: "MessageHeartbeat \<Rightarrow> bytes \<Rightarrow> bytes" where
  "MessageHeartbeat_Serialize m out =
     (let out = PutFixedEnum8 out (msg_type m);
          out = PutFixed16 out (tenantid m);
          epoch_ms = word_of_int (sint (heartbeat_timestamp m) sdiv ticks_per_ms);
          out = PutFixed64 out epoch_ms
      in foldl PutVarint32 out (healthy_streams m))"

fun SerializeToString :: "AnyMessage \<Rightarrow> bytes \<Rightarrow> bytes" where
  "SerializeToString (Ping m) out = MessagePing_Serialize m out"
| "SerializeToString (Data m) out = MessageData_Serialize m out"
| "SerializeToString (DataAck m) out = MessageDataAck_Serialize m out"
| "SerializeToString (Gap m) out = MessageGap_Serialize m out"
| "SerializeToString (Goodbye m) out = MessageGoodbye_Serialize m out"
| "SerializeToString (Subscribe m) out = MessageSubscribe_Serialize m out"
| "SerializeToString (Unsubscribe m) out = MessageUnsubscribe_Serialize m out"
| "SerializeToString (DeliverGap m) out = MessageDeliverGap_Serialize m out"
| "SerializeToString (DeliverData m) out = MessageDeliverData_Serialize m out"
| "SerializeToString (FindTailSeqno m) out = MessageFindTailSeqno_Serialize m out"
| "SerializeToString (TailSeqno m) out = MessageTailSeqno_Serialize m out"
| "SerializeToString (DeliverBatch m) out = MessageDeliverBatch_Serialize m out"
| "SerializeToString (Heartbeat m) out = MessageHeartbeat_Serialize m out"

section \<open>Deserialization\<close>

definition Message_DeSerialize :: "slice \<Rightarrow> (failure + Message) \<times> slice" where
  "Message_DeSerialize inp =
     expect (GetFixedEnum8 ValidateMessageType inp) (bad ''Bad MessageType'') (\<lambda>t inp.
     expect (GetFixed16 inp) (bad ''Bad TenantID'') (\<lambda>tenant inp.
     (Inr \<lparr>msg_type = t, tenantid = tenant\<rparr>, inp)))"

definition MessagePing_DeSerialize :: "slice \<Rightarrow> (failure + MessagePing) \<times> slice" where
  "MessagePing_DeSerialize inp =
     expect (GetFixedEnum8 ValidateMessageType inp) (bad ''Bad type'') (\<lambda>t inp.
     expect (GetFixed16 inp) (bad ''Bad tenant ID'') (\<lambda>tenant inp.
     expect (GetFixedEnum8 ValidatePingType inp) (bad ''Bad ping type'') (\<lambda>ping inp.
     expect (GetLengthPrefixedSlice inp) (bad ''Bad cookie'') (\<lambda>c inp.
     (Inr \<lparr>msg_type = t, tenantid = tenant, pingtype = ping, cookie = c\<rparr>, inp)))))"

text \<open>The identifier field may be longer than an identifier; the first 16 bytes count.\<close>

definition GetMsgIdSlice :: "slice \<Rightarrow> MsgId option \<times> slice" where
  "GetMsgIdSlice inp =
     (case GetLengthPrefixedSlice inp of
        (Some idSlice, inp') \<Rightarrow>
          if length idSlice < 16 then (None, inp') else (Some (GUID_of_id idSlice), inp')
      | (None, inp') \<Rightarrow> (None, inp'))"

definition MessageData_new :: MessageData where
  "MessageData_new =
     \<lparr>msg_type = MessageType_value mPublish, tenantid = 0, data_seqno_prev = 0, data_seqno = 0,
      data_msgid = GUID_empty, data_topic_name = [], data_payload = [], data_namespace_id = [],
      storage_slice = []\<rparr>"

definition MessageData_DeSerializeStorage ::
  "MessageData \<Rightarrow> slice \<Rightarrow> (failure + MessageData) \<times> slice"
where
  "MessageData_DeSerializeStorage this inp =
     expect (GetFixed16 inp) (bad ''Bad tenant ID'') (\<lambda>tenant inp.
     expect (GetTopicID inp) (bad ''Bad Message Topic ID'') (\<lambda>(ns, topic) inp.
     expect (GetMsgIdSlice inp) (bad ''Bad Message Id'') (\<lambda>mid inp.
     expect (GetLengthPrefixedSlice inp) (bad ''Bad payload'') (\<lambda>pl inp.
     (Inr (this\<lparr>tenantid := tenant, data_namespace_id := ns, data_topic_name := topic,
                data_msgid := mid, data_payload := pl\<rparr>), inp)))))"

definition MessageData_DeSerialize :: "slice \<Rightarrow> (failure + MessageData) \<times> slice" where
  "MessageData_DeSerialize inp =
     expect (GetFixedEnum8 ValidateMessageType inp) (bad ''Bad type'') (\<lambda>t inp.
     expect (GetVarint64 inp) (bad ''Bad Previous Sequence Number'') (\<lambda>prev inp.
     expect (GetVarint64 inp) (bad ''Bad Sequence Number'') (\<lambda>sn inp.
     MessageData_DeSerializeStorage
       (MessageData_new\<lparr>msg_type := t, data_seqno_prev := prev, data_seqno := sn,
                        storage_slice := inp\<rparr>) inp)))"

definition Ack_DeSerialize :: "slice \<Rightarrow> (failure + Ack) \<times> slice" where
  "Ack_DeSerialize inp =
     expect (GetFixedEnum8 ValidateAckStatus inp) (bad ''Bad Ack Status'') (\<lambda>st inp.
     expect (GetBytes 16 inp) (bad ''Bad Ack MsgId'') (\<lambda>mid inp.
     expect (GetVarint64 inp) (bad ''Bad Ack Sequence number'') (\<lambda>sn inp.
     (Inr \<lparr>ack_status = st, ack_msgid = GUID_of_id mid, ack_seqno = sn\<rparr>, inp))))"

text \<open>A counted loop that reads \<open>n\<close> elements and stops at the first failure.\<close>

fun read_n :: "(slice \<Rightarrow> (failure + 'a) \<times> slice) \<Rightarrow> nat \<Rightarrow> slice \<Rightarrow> (failure + 'a list) \<times> slice" where
  "read_n rd 0 inp = (Inr [], inp)"
| "read_n rd (Suc n) inp =
     thenRead (rd inp) (\<lambda>x inp. thenRead (read_n rd n inp) (\<lambda>xs inp. (Inr (x # xs), inp)))"

definition MessageDataAck_DeSerialize :: "slice \<Rightarrow> (failure + MessageDataAck) \<times> slice" where
  "MessageDataAck_DeSerialize inp =
     expect (GetFixedEnum8 ValidateMessageType inp) (bad ''Bad type'') (\<lambda>t inp.
     expect (GetFixed16 inp) (bad ''Bad tenant ID'') (\<lambda>tenant inp.
     expect (GetVarint32 inp) (bad ''Bad Number Of Acks'') (\<lambda>num_acks inp.
     thenRead (read_n Ack_DeSerialize (unat num_acks) inp) (\<lambda>as inp.
     (Inr \<lparr>msg_type = t, tenantid = tenant, acks = as\<rparr>, inp)))))"

definition MessageGap_DeSerialize :: "slice \<Rightarrow> (failure + MessageGap) \<times> slice" where
  "MessageGap_DeSerialize inp =
     expect (GetFixedEnum8 ValidateMessageType inp) (bad ''Bad type'') (\<lambda>t inp.
     expect (GetFixed16 inp) (bad ''Bad tenant ID'') (\<lambda>tenant inp.
     expect (GetTopicID inp) (bad ''Invalid topic ID'') (\<lambda>(ns, topic) inp.
     expect (GetFixedEnum8 ValidateGapType inp) (bad ''Missing gap type'') (\<lambda>gt inp.
     expect (GetVarint64 inp) (bad ''Bad gap log ID'') (\<lambda>from inp.
     expect (GetVarint64 inp) (bad ''Bad gap log ID'') (\<lambda>to inp.
     (Inr \<lparr>msg_type = t, tenantid = tenant, gap_namespace_id = ns, gap_topic_name = topic,
           gap_gap_type = gt, gap_from = from, gap_to = to\<rparr>, inp)))))))"

definition MessageGoodbye_DeSerialize :: "slice \<Rightarrow> (failure + MessageGoodbye) \<times> slice" where
  "MessageGoodbye_DeSerialize inp =
     expect (GetFixedEnum8 ValidateMessageType inp) (bad ''Bad type'') (\<lambda>t inp.
     expect (GetFixed16 inp) (bad ''Bad tenant ID'') (\<lambda>tenant inp.
     expect (GetFixedEnum8 ValidateGoodbyeCode inp) (bad ''Bad code'') (\<lambda>c inp.
     expect (GetFixedEnum8 ValidateOriginType inp) (bad ''Bad origin type'') (\<lambda>ot inp.
     (Inr \<lparr>msg_type = t, tenantid = tenant, goodbye_code = c, goodbye_origin_type = ot\<rparr>, inp)))))"

definition MessageFindTailSeqno_DeSerialize :: "slice \<Rightarrow> (failure + MessageFindTailSeqno) \<times> slice"
where
  "MessageFindTailSeqno_DeSerialize inp =
     thenRead (Message_DeSerialize inp) (\<lambda>b inp.
     expect (GetTopicID inp) (bad ''Bad NamespaceID and/or TopicName'') (\<lambda>(ns, topic) inp.
     (Inr \<lparr>msg_type = msg_type b, tenantid = tenantid b, find_namespace_id = ns,
           find_topic_name = topic\<rparr>, inp)))"

definition MessageTailSeqno_DeSerialize :: "slice \<Rightarrow> (failure + MessageTailSeqno) \<times> slice" where
  "MessageTailSeqno_DeSerialize inp =
     thenRead (Message_DeSerialize inp) (\<lambda>b inp.
     expect (GetTopicID inp) (bad ''Bad NamespaceID and/or TopicName'') (\<lambda>(ns, topic) inp.
     expect (GetVarint64 inp) (bad ''Bad sequence number'') (\<lambda>sn inp.
     (Inr \<lparr>msg_type = msg_type b, tenantid = tenantid b, tail_namespace_id = ns,
           tail_topic_name = topic, tail_seqno = sn\<rparr>, inp))))"

definition MessageSubscribe_DeSerialize :: "slice \<Rightarrow> (failure + MessageSubscribe) \<times> slice" where
  "MessageSubscribe_DeSerialize inp =
     thenRead (Message_DeSerialize inp) (\<lambda>b inp.
     expect (GetTopicID inp) (bad ''Bad NamespaceID and/or TopicName'') (\<lambda>(ns, topic) inp.
     expect (GetVarint64 inp) (bad ''Bad SequenceNumber'') (\<lambda>start inp.
     expect (DecodeSubscriptionID inp) (bad ''Bad SubscriptionID'') (\<lambda>sid inp.
     (Inr \<lparr>msg_type = msg_type b, tenantid = tenantid b, sub_namespace_id = ns,
           sub_topic_name = topic, sub_start_seqno = start, sub_sub_id = sid\<rparr>, inp)))))"

definition MessageUnsubscribe_DeSerialize :: "slice \<Rightarrow> (failure + MessageUnsubscribe) \<times> slice"
where
  "MessageUnsubscribe_DeSerialize inp =
     thenRead (Message_DeSerialize inp) (\<lambda>b inp.
     expect (DecodeSubscriptionID inp) (bad ''Bad SubscriptionID'') (\<lambda>sid inp.
     expect (GetFixedEnum8 ValidateReason inp) (bad ''Bad Reason'') (\<lambda>r inp.
     (Inr \<lparr>msg_type = msg_type b, tenantid = tenantid b, unsub_sub_id = sid, unsub_reason = r\<rparr>,
      inp))))"

text \<open>
  \<open>seqno_ = seqno_prev_ + seqno_diff\<close> is 64-bit arithmetic on two numbers from the wire, and the
  assertion after it fails exactly when the sum wraps.
\<close>

definition MessageDeliver_DeSerialize :: "slice \<Rightarrow> (failure + MessageDeliver) \<times> slice" where
  "MessageDeliver_DeSerialize inp =
     thenRead (Message_DeSerialize inp) (\<lambda>b inp.
     expect (DecodeSubscriptionID inp) (bad ''Bad SubscriptionID'') (\<lambda>sid inp.
     expect (GetVarint64 inp) (bad ''Bad previous SequenceNumber'') (\<lambda>prev inp.
     expect (GetVarint64 inp) (bad ''Bad difference between SequenceNumbers'') (\<lambda>diff inp.
     let sn = prev + diff in
     if prev \<le> sn
     then (Inr \<lparr>msg_type = msg_type b, tenantid = tenantid b, deliver_sub_id = sid,
                deliver_seqno_prev = prev, deliver_seqno = sn\<rparr>, inp)
     else (Inl Assert_failed, inp)))))"

definition MessageDeliverGap_DeSerialize :: "slice \<Rightarrow> (failure + MessageDeliverGap) \<times> slice" where
  "MessageDeliverGap_DeSerialize inp =
     thenRead (MessageDeliver_DeSerialize inp) (\<lambda>d inp.
     expect (GetFixedEnum8 ValidateGapType inp) (bad ''Bad GapType'') (\<lambda>gt inp.
     (Inr (MessageDeliver.extend d (MessageDeliverGap.fields gt)), inp)))"

definition MessageDeliverData_DeSerialize :: "slice \<Rightarrow> (failure + MessageDeliverData) \<times> slice"
where
  "MessageDeliverData_DeSerialize inp =
     thenRead (MessageDeliver_DeSerialize inp) (\<lambda>d inp.
     expect (GetMsgIdSlice inp) (bad ''Bad Message ID'') (\<lambda>mid inp.
     expect (GetLengthPrefixedSlice inp) (bad ''Bad payload'') (\<lambda>pl inp.
     (Inr (MessageDeliver.extend d (MessageDeliverData.fields mid pl)), inp))))"

text \<open>
  \<open>messages_.reserve(len)\<close> on the count read from the wire throws when \<open>len\<close> is above
  \<open>max_size()\<close> of a vector of pointers.
\<close>

definition vector_max_size :: nat where
  "vector_max_size = 2 ^ 60 - 1"

definition MessageDeliverBatch_DeSerialize :: "slice \<Rightarrow> (failure + MessageDeliverBatch) \<times> slice"
where
  "MessageDeliverBatch_DeSerialize inp =
     thenRead (Message_DeSerialize inp) (\<lambda>b inp.
     expect (GetVarint64 inp) (bad ''Bad Messages count'') (\<lambda>len inp.
     if vector_max_size < unat len then (Inl Length_error, inp)
     else
       thenRead (read_n MessageDeliverData_DeSerialize (unat len) inp) (\<lambda>ms inp.
       (Inr \<lparr>msg_type = msg_type b, tenantid = tenantid b, batch_messages = ms\<rparr>, inp))))"

lemma GetVarint32_Nil: "GetVarint32 [] = (None, [])"
  by (simp add: GetVarint32_def GetVarint32Ptr_def GetVarint32PtrFallback_def)

lemma GetVarint32_shrinks:
  assumes "GetVarint32 inp = (Some v, rest)"
  shows "length rest < length inp"
proof -
  obtain p where p: "inp = p @ rest" "\<forall>x. GetVarint32 (p @ x) = (Some v, x)"
    using prefix_parserE [OF prefix_GetVarint32 assms] by blast
  then have "p \<noteq> []" using GetVarint32_Nil by fastforce
  with p(1) show ?thesis by simp
qed

function read_shards :: "slice \<Rightarrow> u32 list \<Rightarrow> u32 list \<times> slice" where
  "read_shards inp healthy =
     (case GetVarint32 inp of
        (Some shard, inp') \<Rightarrow>
          read_shards inp' (if shard \<in> set healthy then healthy else healthy @ [shard])
      | (None, inp') \<Rightarrow> (healthy, inp'))"
  by pat_completeness auto
termination
  by (relation "measure (\<lambda>(inp, healthy). length inp)") (auto intro: GetVarint32_shrinks [OF sym])

declare read_shards.simps [simp del]

definition MessageHeartbeat_DeSerialize :: "slice \<Rightarrow> (failure + MessageHeartbeat) \<times> slice" where
  "MessageHeartbeat_DeSerialize inp =
     expect (GetFixedEnum8 ValidateMessageType inp) (bad ''Bad type'') (\<lambda>t inp.
     expect (GetFixed16 inp) (bad ''Bad tenant ID'') (\<lambda>tenant inp.
     if length inp = 0
     then (Inr \<lparr>msg_type = t, tenantid = tenant, heartbeat_timestamp = 0, healthy_streams = []\<rparr>, inp)
     else
       expect (GetFixed64 inp) (bad ''Bad timestamp'') (\<lambda>epoch_ms inp.
       let (healthy, inp) = read_shards inp [] in
       (Inr \<lparr>msg_type = t, tenantid = tenant,
             heartbeat_timestamp = epoch_ms * word_of_int ticks_per_ms,
             healthy_streams = healthy\<rparr>, inp))))"

section \<open>The factory\<close>

definition ReadMessageType :: "slice \<Rightarrow> u8" where
  "ReadMessageType s = (if length s < 1 then MessageType_value NotInitializedType else s ! 0)"

text \<open>A failed status makes \<open>CreateNewInstance\<close> return the null pointer, here \<open>Inr None\<close>.\<close>

fun instance_of :: "('m \<Rightarrow> AnyMessage) \<Rightarrow> (failure + 'm) \<times> slice \<Rightarrow> failure + AnyMessage option" where
  "instance_of C (Inr m, _) = Inr (Some (C m))"
| "instance_of C (Inl (Failed st), _) = Inr None"
| "instance_of C (Inl e, _) = Inl e"

definition CreateNewInstance :: "slice \<Rightarrow> failure + AnyMessage option" where
  "CreateNewInstance inp =
     (let mtype = ReadMessageType inp in
      if mtype = MessageType_value NotInitializedType then Inr None
      else if mtype = MessageType_value mPing then instance_of Ping (MessagePing_DeSerialize inp)
      else if mtype = MessageType_value mPublish \<or> mtype = MessageType_value mDeliver then
        instance_of Data (MessageData_DeSerialize inp)
      else if mtype = MessageType_value mDataAck then
        instance_of DataAck (MessageDataAck_DeSerialize inp)
      else if mtype = MessageType_value mGap then instance_of Gap (MessageGap_DeSerialize inp)
      else if mtype = MessageType_value mGoodbye then
        instance_of Goodbye (MessageGoodbye_DeSerialize inp)
      else if mtype = MessageType_value mSubscribe then
        instance_of Subscribe (MessageSubscribe_DeSerialize inp)
      else if mtype = MessageType_value mUnsubscribe then
        instance_of Unsubscribe (MessageUnsubscribe_DeSerialize inp)
      else if mtype = MessageType_value mDeliverGap then
        instance_of DeliverGap (MessageDeliverGap_DeSerialize inp)
      else if mtype = MessageType_value mDeliverData then
        instance_of DeliverData (MessageDeliverData_DeSerialize inp)
      else if mtype = MessageType_value mFindTailSeqno then
        instance_of FindTailSeqno (MessageFindTailSeqno_DeSerialize inp)
      else if mtype = MessageType_value mTailSeqno then
        instance_of TailSeqno (MessageTailSeqno_DeSerialize inp)
      else if mtype = MessageType_value mDeliverBatch then
        instance_of DeliverBatch (MessageDeliverBatch_DeSerialize inp)
      else if mtype = MessageType_value mHeartbeat then
        instance_of Heartbeat (MessageHeartbeat_DeSerialize inp)
      else Inr None)"

definition Message_Copy :: "AnyMessage \<Rightarrow> failure + AnyMessage option" where
  "Message_Copy msg = CreateNewInstance (SerializeToString msg [])"

text \<open>Which handler of a \<open>StreamReceiver\<close> a message reaches; \<open>None\<close> is the failed assertion.\<close>

datatype receiver =
    ReceivePing | ReceiveData | ReceiveDataAck | ReceiveGoodbye | ReceiveSubscribe
  | ReceiveUnsubscribe | ReceiveDeliverData | ReceiveDeliverGap | ReceiveFindTailSeqno
  | ReceiveTailSeqno | ReceiveDeliverBatch

definition StreamReceiver_dispatch :: "u8 \<Rightarrow> receiver option" where
  "StreamReceiver_dispatch t =
     (if t = MessageType_value mPing then Some ReceivePing
      else if t = MessageType_value mPublish then Some ReceiveData
      else if t = MessageType_value mDataAck then Some ReceiveDataAck
      else if t = MessageType_value mGoodbye then Some ReceiveGoodbye
      else if t = MessageType_value mSubscribe then Some ReceiveSubscribe
      else if t = MessageType_value mUnsubscribe then Some ReceiveUnsubscribe
      else if t = MessageType_value mDeliverData then Some ReceiveDeliverData
      else if t = MessageType_value mDeliverGap then Some ReceiveDeliverGap
      else if t = MessageType_value mFindTailSeqno then Some ReceiveFindTailSeqno
      else if t = MessageType_value mTailSeqno then Some ReceiveTailSeqno
      else if t = MessageType_value mDeliverBatch then Some ReceiveDeliverBatch
      else if t = MessageType_value mHeartbeat then None
      else None)"

section \<open>Well-formed messages\<close>

text \<open>
  What the constructors of the classes establish: the tag of the class, enumerators in range, byte
  strings whose length fits the 32-bit prefix, counts that fit their field.
\<close>

fun wf_message :: "AnyMessage \<Rightarrow> bool" where
  "wf_message (Ping m) \<longleftrightarrow> msg_type m = MessageType_value mPing \<and> ValidatePingType (pingtype m) \<and>
     fits32 (cookie m)"
| "wf_message (Data m) \<longleftrightarrow>
     msg_type m \<in> {MessageType_value mPublish, MessageType_value mDeliver} \<and>
     fits32 (data_namespace_id m) \<and> fits32 (data_topic_name m) \<and> fits32 (data_payload m)"
| "wf_message (DataAck m) \<longleftrightarrow> msg_type m = MessageType_value mDataAck \<and>
     length (acks m) < 2 ^ 32 \<and> (\<forall>a \<in> set (acks m). ValidateAckStatus (ack_status a))"
| "wf_message (Gap m) \<longleftrightarrow> msg_type m = MessageType_value mGap \<and> ValidateGapType (gap_gap_type m) \<and>
     fits32 (gap_namespace_id m) \<and> fits32 (gap_topic_name m)"
| "wf_message (Goodbye m) \<longleftrightarrow> msg_type m = MessageType_value mGoodbye \<and>
     ValidateGoodbyeCode (goodbye_code m) \<and> ValidateOriginType (goodbye_origin_type m)"
| "wf_message (Subscribe m) \<longleftrightarrow> msg_type m = MessageType_value mSubscribe \<and>
     fits32 (sub_namespace_id m) \<and> fits32 (sub_topic_name m)"
| "wf_message (Unsubscribe m) \<longleftrightarrow> msg_type m = MessageType_value mUnsubscribe \<and>
     ValidateReason (unsub_reason m)"
| "wf_message (DeliverGap m) \<longleftrightarrow> msg_type m = MessageType_value mDeliverGap \<and>
     deliver_seqno_prev m \<le> deliver_seqno m \<and> ValidateGapType (deliver_gap_type m)"
| "wf_message (DeliverData m) \<longleftrightarrow> msg_type m = MessageType_value mDeliverData \<and>
     deliver_seqno_prev m \<le> deliver_seqno m \<and> fits32 (deliver_payload m)"
| "wf_message (FindTailSeqno m) \<longleftrightarrow> msg_type m = MessageType_value mFindTailSeqno \<and>
     fits32 (find_namespace_id m) \<and> fits32 (find_topic_name m)"
| "wf_message (TailSeqno m) \<longleftrightarrow> msg_type m = MessageType_value mTailSeqno \<and>
     fits32 (tail_namespace_id m) \<and> fits32 (tail_topic_name m)"
| "wf_message (DeliverBatch m) \<longleftrightarrow> msg_type m = MessageType_value mDeliverBatch \<and>
     length (batch_messages m) \<le> vector_max_size \<and>
     (\<forall>d \<in> set (batch_messages m). ValidateMessageType (msg_type d) \<and>
        deliver_seqno_prev d \<le> deliver_seqno d \<and> fits32 (deliver_payload d))"
| "wf_message (Heartbeat m) \<longleftrightarrow> msg_type m = MessageType_value mHeartbeat \<and>
     distinct (healthy_streams m)"

text \<open>
  The message the other side holds: \<open>storage_slice_\<close> covers the part of the buffer that goes to log
  storage, and a heartbeat keeps its timestamp in whole milliseconds.
\<close>

fun as_received :: "AnyMessage \<Rightarrow> AnyMessage" where
  "as_received (Data m) = Data (m\<lparr>storage_slice := MessageData_SerializeInternal m []\<rparr>)"
| "as_received (Heartbeat m) =
     Heartbeat (m\<lparr>heartbeat_timestamp :=
       word_of_int (sint (heartbeat_timestamp m) sdiv ticks_per_ms) * word_of_int ticks_per_ms\<rparr>)"
| "as_received m = m"

section \<open>Round trips of the parts\<close>

lemma enum8_Cons [get_simps]: "ok v \<Longrightarrow> GetFixedEnum8 ok (v # rest) = (Some v, rest)"
  using enum8.get_put [of ok v rest] by simp

lemmas get_puts_last [get_simps] =
  fixed8.get_put_all fixed16.get_put_all fixed32.get_put_all fixed64.get_put_all
  varint32.get_put_all varint64.get_put_all lengthprefixed.get_put_all
  topicid.get_put_all [of "(ns, t)" for ns t, simplified] rawbytes.get_put_all

lemma origin_roundtrip [get_simps]: "DecodeOrigin (EncodeFixed64 v @ rest) = (Some v, rest)"
  by (simp add: DecodeOrigin_def get_simps)

lemma DecodeSubscriptionID_eq: "DecodeSubscriptionID = GetVarint64"
  by (auto simp: DecodeSubscriptionID_def fun_eq_iff split: prod.splits option.splits)

lemma EncodeSubscriptionID_append [put_simps]:
  "EncodeSubscriptionID out v = out @ EncodeVarint64 v"
  by (simp add: EncodeSubscriptionID_def put_simps)

interpretation msgid_field: codec "\<lambda>g. length_prefixed (GUID_id g)" GetMsgIdSlice "\<lambda>_. True"
proof
  fix g rest
  show "GetMsgIdSlice (length_prefixed (GUID_id g) @ rest) = (Some g, rest)"
    by (simp add: GetMsgIdSlice_def get_simps)
  have eq: "GetMsgIdSlice = (\<lambda>inp. case GetLengthPrefixedSlice inp of
      (Some s, inp') \<Rightarrow> Pair (if length s < 16 then None else Some (GUID_of_id s)) inp'
    | (None, inp') \<Rightarrow> (None, inp'))"
    by (auto simp: GetMsgIdSlice_def fun_eq_iff split: prod.splits option.splits)
  show "prefix_parser GetMsgIdSlice"
    by (subst eq) (intro prefix_parser_seq prefix_GetLengthPrefixedSlice, auto intro: parser_intros)
qed

lemmas msgid_get [get_simps] = msgid_field.get_put msgid_field.get_put_all

lemma Message_Serialize_append [put_simps]:
  "Message_Serialize m out = out @ [msg_type m] @ EncodeFixed16 (tenantid m)"
  by (simp add: Message_Serialize_def put_simps)

lemma Message_roundtrip [get_simps]:
  "ValidateMessageType t \<Longrightarrow>
     Message_DeSerialize (t # EncodeFixed16 n @ rest) = (Inr \<lparr>msg_type = t, tenantid = n\<rparr>, rest)"
  by (simp add: Message_DeSerialize_def get_simps)

lemma valid_tags [simp]:
  "ValidateMessageType 1" "ValidateMessageType 2" "ValidateMessageType 4" "ValidateMessageType 5"
  "ValidateMessageType 6" "ValidateMessageType 7" "ValidateMessageType 8" "ValidateMessageType 9"
  "ValidateMessageType 10" "ValidateMessageType 11" "ValidateMessageType 12"
  "ValidateMessageType 13" "ValidateMessageType 14" "ValidateMessageType 15"
  by (simp_all add: ValidateMessageType_def)

definition MessageDeliver_bytes :: "'z MessageDeliver_scheme \<Rightarrow> bytes" where
  "MessageDeliver_bytes m =
     [msg_type m] @ EncodeFixed16 (tenantid m) @ EncodeVarint64 (deliver_sub_id m) @
     EncodeVarint64 (deliver_seqno_prev m) @ EncodeVarint64 (deliver_seqno m - deliver_seqno_prev m)"

lemma MessageDeliver_Serialize_append [put_simps]:
  "MessageDeliver_Serialize m out = out @ MessageDeliver_bytes m"
  by (simp add: MessageDeliver_Serialize_def MessageDeliver_bytes_def Let_def put_simps)

lemma MessageDeliver_roundtrip [get_simps]:
  "ValidateMessageType (msg_type m) \<Longrightarrow> deliver_seqno_prev m \<le> deliver_seqno m \<Longrightarrow>
     MessageDeliver_DeSerialize (MessageDeliver_bytes m @ rest)
       = (Inr (MessageDeliver.truncate m), rest)"
  by (simp add: MessageDeliver_DeSerialize_def MessageDeliver_bytes_def DecodeSubscriptionID_eq
      MessageDeliver.truncate_def get_simps)

definition MessageDeliverData_bytes :: "MessageDeliverData \<Rightarrow> bytes" where
  "MessageDeliverData_bytes m =
     MessageDeliver_bytes m @ length_prefixed (GUID_id (deliver_message_id m)) @
     length_prefixed (deliver_payload m)"

lemma MessageDeliverData_Serialize_append [put_simps]:
  "MessageDeliverData_Serialize m out = out @ MessageDeliverData_bytes m"
  by (simp add: MessageDeliverData_Serialize_def MessageDeliverData_bytes_def Let_def put_simps)

lemma MessageDeliverData_roundtrip [get_simps]:
  "ValidateMessageType (msg_type m) \<Longrightarrow> deliver_seqno_prev m \<le> deliver_seqno m \<Longrightarrow>
     fits32 (deliver_payload m) \<Longrightarrow>
     MessageDeliverData_DeSerialize (MessageDeliverData_bytes m @ rest) = (Inr m, rest)"
  by (simp add: MessageDeliverData_DeSerialize_def MessageDeliverData_bytes_def get_simps
      MessageDeliver.truncate_def MessageDeliver.extend_def MessageDeliverData.fields_def)

definition Ack_bytes :: "Ack \<Rightarrow> bytes" where
  "Ack_bytes a = [ack_status a] @ GUID_id (ack_msgid a) @ EncodeVarint64 (ack_seqno a)"

lemma Ack_Serialize_append [put_simps]: "Ack_Serialize out a = out @ Ack_bytes a"
  by (simp add: Ack_Serialize_def Ack_bytes_def Let_def put_simps)

lemma Ack_roundtrip [get_simps]:
  "ValidateAckStatus (ack_status a) \<Longrightarrow> Ack_DeSerialize (Ack_bytes a @ rest) = (Inr a, rest)"
  by (simp add: Ack_DeSerialize_def Ack_bytes_def get_simps)

text \<open>A counted sequence of elements that each read back reads back.\<close>

lemma read_n_roundtrip:
  assumes "\<And>x rest. x \<in> set xs \<Longrightarrow> rd (enc x @ rest) = (Inr x, rest)"
  shows "read_n rd (length xs) (concat (map enc xs) @ rest) = (Inr xs, rest)"
  using assms by (induction xs) simp_all

section \<open>Round trips of the messages\<close>

named_theorems message_defs \<open>serializers, deserializers and record equations of the messages\<close>

declare
  MessagePing_Serialize_def [message_defs] MessagePing_DeSerialize_def [message_defs]
  MessageData_Serialize_def [message_defs] MessageData_DeSerialize_def [message_defs]
  MessageData_SerializeInternal_def [message_defs] MessageData_DeSerializeStorage_def [message_defs]
  MessageData_new_def [message_defs]
  MessageDataAck_Serialize_def [message_defs] MessageDataAck_DeSerialize_def [message_defs]
  MessageGap_Serialize_def [message_defs] MessageGap_DeSerialize_def [message_defs]
  MessageGoodbye_Serialize_def [message_defs] MessageGoodbye_DeSerialize_def [message_defs]
  MessageFindTailSeqno_Serialize_def [message_defs] MessageFindTailSeqno_DeSerialize_def [message_defs]
  MessageTailSeqno_Serialize_def [message_defs] MessageTailSeqno_DeSerialize_def [message_defs]
  MessageSubscribe_Serialize_def [message_defs] MessageSubscribe_DeSerialize_def [message_defs]
  MessageUnsubscribe_Serialize_def [message_defs] MessageUnsubscribe_DeSerialize_def [message_defs]
  MessageDeliverGap_Serialize_def [message_defs] MessageDeliverGap_DeSerialize_def [message_defs]
  MessageDeliverBatch_Serialize_def [message_defs] MessageDeliverBatch_DeSerialize_def [message_defs]
  MessageHeartbeat_Serialize_def [message_defs] MessageHeartbeat_DeSerialize_def [message_defs]
  DecodeSubscriptionID_eq [message_defs]

lemma MessagePing_roundtrip:
  assumes "wf_message (Ping m)"
  shows "MessagePing_DeSerialize (MessagePing_Serialize m [] @ rest) = (Inr m, rest)"
  using assms by (simp add: message_defs put_simps get_simps Let_def)

lemma MessageData_roundtrip:
  assumes "wf_message (Data m)"
  shows "MessageData_DeSerialize (MessageData_Serialize m [] @ rest)
    = (Inr (m\<lparr>storage_slice := MessageData_SerializeInternal m [] @ rest\<rparr>), rest)"
proof -
  have "ValidateMessageType (msg_type m)" using assms by auto
  then show ?thesis using assms by (simp add: message_defs put_simps get_simps Let_def)
qed

lemma MessageDataAck_roundtrip:
  assumes "wf_message (DataAck m)"
  shows "MessageDataAck_DeSerialize (MessageDataAck_Serialize m [] @ rest) = (Inr m, rest)"
proof -
  have "foldl Ack_Serialize out as = out @ concat (map Ack_bytes as)" for out as
    by (rule foldl_appends) (simp add: put_simps)
  moreover have "unat (of_nat (length (acks m)) :: u32) = length (acks m)"
    using assms by (simp add: unat_of_nat)
  moreover have "read_n Ack_DeSerialize (length (acks m)) (concat (map Ack_bytes (acks m)) @ rest)
      = (Inr (acks m), rest)"
    using assms by (intro read_n_roundtrip) (simp add: get_simps)
  ultimately show ?thesis using assms by (simp add: message_defs put_simps get_simps Let_def)
qed

lemma MessageGap_roundtrip:
  assumes "wf_message (Gap m)"
  shows "MessageGap_DeSerialize (MessageGap_Serialize m [] @ rest) = (Inr m, rest)"
  using assms by (simp add: message_defs put_simps get_simps Let_def)

lemma MessageGoodbye_roundtrip:
  assumes "wf_message (Goodbye m)"
  shows "MessageGoodbye_DeSerialize (MessageGoodbye_Serialize m [] @ rest) = (Inr m, rest)"
  using assms by (simp add: message_defs put_simps get_simps Let_def)

lemma MessageFindTailSeqno_roundtrip:
  assumes "wf_message (FindTailSeqno m)"
  shows "MessageFindTailSeqno_DeSerialize (MessageFindTailSeqno_Serialize m [] @ rest) = (Inr m, rest)"
  using assms by (simp add: message_defs put_simps get_simps Let_def)

lemma MessageTailSeqno_roundtrip:
  assumes "wf_message (TailSeqno m)"
  shows "MessageTailSeqno_DeSerialize (MessageTailSeqno_Serialize m [] @ rest) = (Inr m, rest)"
  using assms by (simp add: message_defs put_simps get_simps Let_def)

lemma MessageSubscribe_roundtrip:
  assumes "wf_message (Subscribe m)"
  shows "MessageSubscribe_DeSerialize (MessageSubscribe_Serialize m [] @ rest) = (Inr m, rest)"
  using assms by (simp add: message_defs put_simps get_simps Let_def)

lemma MessageUnsubscribe_roundtrip:
  assumes "wf_message (Unsubscribe m)"
  shows "MessageUnsubscribe_DeSerialize (MessageUnsubscribe_Serialize m [] @ rest) = (Inr m, rest)"
  using assms by (simp add: message_defs put_simps get_simps Let_def)

lemma MessageDeliverGap_roundtrip:
  assumes "wf_message (DeliverGap m)"
  shows "MessageDeliverGap_DeSerialize (MessageDeliverGap_Serialize m [] @ rest) = (Inr m, rest)"
  using assms by (simp add: message_defs put_simps get_simps MessageDeliver.truncate_def
      MessageDeliver.extend_def MessageDeliverGap.fields_def)

lemma MessageDeliverBatch_roundtrip:
  assumes "wf_message (DeliverBatch m)"
  shows "MessageDeliverBatch_DeSerialize (MessageDeliverBatch_Serialize m [] @ rest) = (Inr m, rest)"
proof -
  have "foldl (\<lambda>out msg. MessageDeliverData_Serialize msg out) out ms
      = out @ concat (map MessageDeliverData_bytes ms)" for out ms
    by (rule foldl_appends) (simp add: put_simps)
  moreover have "unat (of_nat (length (batch_messages m)) :: u64) = length (batch_messages m)"
    using assms by (simp add: unat_of_nat vector_max_size_def)
  moreover have "read_n MessageDeliverData_DeSerialize (length (batch_messages m))
      (concat (map MessageDeliverData_bytes (batch_messages m)) @ rest) = (Inr (batch_messages m), rest)"
    using assms by (intro read_n_roundtrip) (simp add: get_simps)
  ultimately show ?thesis using assms by (simp add: message_defs put_simps get_simps Let_def)
qed

text \<open>The list of shards has no count: it extends to the end of the message.\<close>

lemma read_shards_roundtrip:
  "distinct (healthy @ xs) \<Longrightarrow>
     read_shards (concat (map EncodeVarint32 xs)) healthy = (healthy @ xs, [])"
proof (induction xs arbitrary: healthy)
  case Nil
  then show ?case by (subst read_shards.simps) (simp add: GetVarint32_Nil)
next
  case (Cons x xs)
  then have "read_shards (concat (map EncodeVarint32 xs)) (healthy @ [x]) = ((healthy @ [x]) @ xs, [])"
    by (intro Cons.IH) simp
  with Cons.prems show ?case by (subst read_shards.simps) (simp add: get_simps)
qed

lemma EncodeFixed64_not_Nil [simp]: "EncodeFixed64 v \<noteq> []"
  by (simp add: EncodeFixed64_def)

lemma MessageHeartbeat_roundtrip:
  assumes "wf_message (Heartbeat m)"
  shows "Heartbeat (case MessageHeartbeat_DeSerialize (MessageHeartbeat_Serialize m []) of
      (Inr m', _) \<Rightarrow> m') = as_received (Heartbeat m)"
    and "\<exists>m'. MessageHeartbeat_DeSerialize (MessageHeartbeat_Serialize m []) = (Inr m', [])"
proof -
  have "foldl PutVarint32 out xs = out @ concat (map EncodeVarint32 xs)" for out xs
    by (rule foldl_appends) (simp add: put_simps)
  moreover have "read_shards (concat (map EncodeVarint32 (healthy_streams m))) []
      = (healthy_streams m, [])"
    using read_shards_roundtrip [of "[]"] assms by simp
  ultimately show "Heartbeat (case MessageHeartbeat_DeSerialize (MessageHeartbeat_Serialize m []) of
      (Inr m', _) \<Rightarrow> m') = as_received (Heartbeat m)"
    and "\<exists>m'. MessageHeartbeat_DeSerialize (MessageHeartbeat_Serialize m []) = (Inr m', [])"
    using assms by (simp_all add: message_defs put_simps get_simps Let_def)
qed

section \<open>A message depends on the bytes it consumes\<close>

text \<open>A deserializer as a parser of the part \<open>f\<close> of its message.\<close>

definition as_parser ::
  "('m \<Rightarrow> 'n) \<Rightarrow> (slice \<Rightarrow> (failure + 'm) \<times> slice) \<Rightarrow> slice \<Rightarrow> 'n option \<times> slice"
where
  "as_parser f d inp = (case d inp of (Inr m, rest) \<Rightarrow> (Some (f m), rest) | (Inl _, rest) \<Rightarrow> (None, rest))"

lemma as_parser_Some: "as_parser f d inp = (Some v, rest) \<longleftrightarrow> (\<exists>m. d inp = (Inr m, rest) \<and> v = f m)"
  by (auto simp: as_parser_def split: prod.splits sum.splits)

lemma as_parser_expect:
  "as_parser f (\<lambda>inp. expect (get inp) e k) =
     (\<lambda>inp. case get inp of (Some v, inp') \<Rightarrow> as_parser f (k v) inp' | (None, inp') \<Rightarrow> (None, inp'))"
  by (auto simp: as_parser_def expect_def fun_eq_iff split: prod.splits option.splits sum.splits)

lemma prefix_expect [parser_intros]:
  "prefix_parser get \<Longrightarrow> (\<And>v. prefix_parser (as_parser f (k v))) \<Longrightarrow>
     prefix_parser (as_parser f (\<lambda>inp. expect (get inp) e k))"
  unfolding as_parser_expect by (rule prefix_parser_seq)

lemma as_parser_thenRead:
  "as_parser f (\<lambda>inp. thenRead (d inp) k) =
     (\<lambda>inp. case as_parser id d inp of
        (Some v, inp') \<Rightarrow> as_parser f (k v) inp' | (None, inp') \<Rightarrow> (None, inp'))"
  by (auto simp: as_parser_def thenRead_def fun_eq_iff split: prod.splits option.splits sum.splits)

lemma prefix_thenRead [parser_intros]:
  "prefix_parser (as_parser id d) \<Longrightarrow> (\<And>v. prefix_parser (as_parser f (k v))) \<Longrightarrow>
     prefix_parser (as_parser f (\<lambda>inp. thenRead (d inp) k))"
  unfolding as_parser_thenRead by (rule prefix_parser_seq)

lemma prefix_done [parser_intros]:
  "prefix_parser (as_parser f (Pair (Inr v)))" "prefix_parser (as_parser f (Pair (Inl e)))"
  by (rule prefix_parserI, force simp: as_parser_def)+

lemma prefix_if [parser_intros]:
  "prefix_parser (as_parser f g) \<Longrightarrow> prefix_parser (as_parser f h) \<Longrightarrow>
     prefix_parser (as_parser f (\<lambda>inp. if c then g inp else h inp))"
  by (cases c) simp_all

lemma prefix_case_prod [parser_intros]:
  "(\<And>a b. prefix_parser (as_parser f (g a b))) \<Longrightarrow>
     prefix_parser (as_parser f (case p of (a, b) \<Rightarrow> g a b))"
  by (cases p) simp

lemma prefix_read_n [parser_intros]:
  "prefix_parser (as_parser id rd) \<Longrightarrow> prefix_parser (as_parser id (read_n rd n))"
proof (induction n)
  case 0
  have "read_n rd 0 = Pair (Inr [])" by (simp add: fun_eq_iff)
  then show ?case by (simp only: prefix_done)
next
  case (Suc n)
  have "read_n rd (Suc n) = (\<lambda>inp. thenRead (rd inp)
      (\<lambda>x inp. thenRead (read_n rd n inp) (\<lambda>xs. Pair (Inr (x # xs)))))"
    by (simp add: fun_eq_iff)
  with Suc.IH [OF Suc.prems] Suc.prems show ?case by (simp only:) (intro parser_intros)
qed

lemma prefix_Message [parser_intros]: "prefix_parser (as_parser id Message_DeSerialize)"
  unfolding Message_DeSerialize_def [abs_def] by (intro parser_intros)

lemma prefix_MessageDeliver [parser_intros]: "prefix_parser (as_parser id MessageDeliver_DeSerialize)"
  unfolding MessageDeliver_DeSerialize_def [abs_def] Let_def DecodeSubscriptionID_eq
  by (intro parser_intros)

lemma prefix_Ack [parser_intros]: "prefix_parser (as_parser id Ack_DeSerialize)"
  unfolding Ack_DeSerialize_def [abs_def] by (intro parser_intros)

lemmas prefix_GetMsgIdSlice [parser_intros] = msgid_field.get_prefix

lemma prefix_MessageDeliverData [parser_intros]:
  "prefix_parser (as_parser id MessageDeliverData_DeSerialize)"
  unfolding MessageDeliverData_DeSerialize_def [abs_def] by (intro parser_intros)

lemma prefix_messages [parser_intros]:
  "prefix_parser (as_parser id MessagePing_DeSerialize)"
  "prefix_parser (as_parser id MessageDataAck_DeSerialize)"
  "prefix_parser (as_parser id MessageGap_DeSerialize)"
  "prefix_parser (as_parser id MessageGoodbye_DeSerialize)"
  "prefix_parser (as_parser id MessageFindTailSeqno_DeSerialize)"
  "prefix_parser (as_parser id MessageTailSeqno_DeSerialize)"
  "prefix_parser (as_parser id MessageSubscribe_DeSerialize)"
  "prefix_parser (as_parser id MessageUnsubscribe_DeSerialize)"
  "prefix_parser (as_parser id MessageDeliverGap_DeSerialize)"
  "prefix_parser (as_parser id MessageDeliverBatch_DeSerialize)"
  unfolding MessagePing_DeSerialize_def [abs_def] MessageDataAck_DeSerialize_def [abs_def]
    MessageGap_DeSerialize_def [abs_def] MessageGoodbye_DeSerialize_def [abs_def]
    MessageFindTailSeqno_DeSerialize_def [abs_def] MessageTailSeqno_DeSerialize_def [abs_def]
    MessageSubscribe_DeSerialize_def [abs_def] MessageUnsubscribe_DeSerialize_def [abs_def]
    MessageDeliverGap_DeSerialize_def [abs_def] MessageDeliverBatch_DeSerialize_def [abs_def]
    DecodeSubscriptionID_eq
  by (intro parser_intros)+

text \<open>
  \<open>storage_slice_\<close> of a data message reaches to the end of the buffer; the rest of the message
  depends on the consumed bytes only.
\<close>

abbreviation without_storage :: "MessageData \<Rightarrow> MessageData" where
  "without_storage m \<equiv> m\<lparr>storage_slice := []\<rparr>"

lemma prefix_MessageData: "prefix_parser (as_parser without_storage MessageData_DeSerialize)"
proof -
  have "as_parser without_storage (\<lambda>inp. MessageData_DeSerializeStorage (m\<lparr>storage_slice := inp\<rparr>) inp)
      = as_parser without_storage (MessageData_DeSerializeStorage m)" for m
    by (auto simp: as_parser_def MessageData_DeSerializeStorage_def fun_eq_iff expect_def
        split: prod.splits option.splits)
  moreover have "prefix_parser (as_parser without_storage (MessageData_DeSerializeStorage m))" for m
    unfolding MessageData_DeSerializeStorage_def [abs_def] by (intro parser_intros)
  ultimately have "prefix_parser (as_parser without_storage
      (\<lambda>inp. MessageData_DeSerializeStorage (m\<lparr>storage_slice := inp\<rparr>) inp))" for m
    by simp
  then show ?thesis
    unfolding MessageData_DeSerialize_def [abs_def] by (intro parser_intros)
qed

section \<open>The factory reads what was sent\<close>

fun message_type :: "AnyMessage \<Rightarrow> u8" where
  "message_type (Ping m) = msg_type m"
| "message_type (Data m) = msg_type m"
| "message_type (DataAck m) = msg_type m"
| "message_type (Gap m) = msg_type m"
| "message_type (Goodbye m) = msg_type m"
| "message_type (Subscribe m) = msg_type m"
| "message_type (Unsubscribe m) = msg_type m"
| "message_type (DeliverGap m) = msg_type m"
| "message_type (DeliverData m) = msg_type m"
| "message_type (FindTailSeqno m) = msg_type m"
| "message_type (TailSeqno m) = msg_type m"
| "message_type (DeliverBatch m) = msg_type m"
| "message_type (Heartbeat m) = msg_type m"

lemma foldl_keeps_head:
  "(\<And>out x. \<exists>y. g out x = out @ y) \<Longrightarrow> \<exists>y. foldl g (a # out) xs = a # y"
proof (induction xs arbitrary: out)
  case (Cons x xs)
  then obtain y where "g (a # out) x = a # out @ y" by (metis append_Cons)
  then show ?case using Cons.IH [OF Cons.prems] by simp
qed simp

lemma serialized_head: "\<exists>tl. SerializeToString m [] = message_type m # tl"
proof (cases m)
  case (DataAck x)
  then show ?thesis
    by (simp add: message_defs put_simps Let_def) (rule foldl_keeps_head, simp add: put_simps)
next
  case (DeliverBatch x)
  then show ?thesis
    by (simp add: message_defs put_simps Let_def) (rule foldl_keeps_head, simp add: put_simps)
next
  case (Heartbeat x)
  then show ?thesis
    by (simp add: message_defs put_simps Let_def) (rule foldl_keeps_head, simp add: put_simps)
qed (simp_all add: message_defs put_simps Let_def MessageDeliver_bytes_def
      MessageDeliverData_bytes_def)

lemma ReadMessageType_serialized: "ReadMessageType (SerializeToString m []) = message_type m"
  using serialized_head [of m] by (auto simp: ReadMessageType_def)

lemma ReadMessageType_take:
  "0 < n \<Longrightarrow> ReadMessageType (take n (SerializeToString m [])) = message_type m"
  using serialized_head [of m] by (cases n) (auto simp: ReadMessageType_def)

text \<open>The deserializer the factory selects for a well-formed message.\<close>

fun selected :: "AnyMessage \<Rightarrow> slice \<Rightarrow> failure + AnyMessage option" where
  "selected (Ping _) inp = instance_of Ping (MessagePing_DeSerialize inp)"
| "selected (Data _) inp = instance_of Data (MessageData_DeSerialize inp)"
| "selected (DataAck _) inp = instance_of DataAck (MessageDataAck_DeSerialize inp)"
| "selected (Gap _) inp = instance_of Gap (MessageGap_DeSerialize inp)"
| "selected (Goodbye _) inp = instance_of Goodbye (MessageGoodbye_DeSerialize inp)"
| "selected (Subscribe _) inp = instance_of Subscribe (MessageSubscribe_DeSerialize inp)"
| "selected (Unsubscribe _) inp = instance_of Unsubscribe (MessageUnsubscribe_DeSerialize inp)"
| "selected (DeliverGap _) inp = instance_of DeliverGap (MessageDeliverGap_DeSerialize inp)"
| "selected (DeliverData _) inp = instance_of DeliverData (MessageDeliverData_DeSerialize inp)"
| "selected (FindTailSeqno _) inp = instance_of FindTailSeqno (MessageFindTailSeqno_DeSerialize inp)"
| "selected (TailSeqno _) inp = instance_of TailSeqno (MessageTailSeqno_DeSerialize inp)"
| "selected (DeliverBatch _) inp = instance_of DeliverBatch (MessageDeliverBatch_DeSerialize inp)"
| "selected (Heartbeat _) inp = instance_of Heartbeat (MessageHeartbeat_DeSerialize inp)"

lemma CreateNewInstance_selected:
  "wf_message m \<Longrightarrow> ReadMessageType inp = message_type m \<Longrightarrow> CreateNewInstance inp = selected m inp"
  by (cases m) (auto simp: CreateNewInstance_def)

lemmas roundtrips =
  MessagePing_roundtrip MessageData_roundtrip MessageDataAck_roundtrip MessageGap_roundtrip
  MessageGoodbye_roundtrip MessageSubscribe_roundtrip MessageUnsubscribe_roundtrip
  MessageDeliverGap_roundtrip MessageFindTailSeqno_roundtrip MessageTailSeqno_roundtrip
  MessageDeliverBatch_roundtrip

lemma selected_roundtrip:
  assumes "wf_message m"
  shows "selected m (SerializeToString m []) = Inr (Some (as_received m))"
proof (cases m)
  case (DeliverData x)
  with assms MessageDeliverData_roundtrip [of x "[]"] show ?thesis
    by (simp add: put_simps)
next
  case (Heartbeat x)
  with assms obtain x' where "MessageHeartbeat_DeSerialize (MessageHeartbeat_Serialize x []) = (Inr x', [])"
    using MessageHeartbeat_roundtrip(2) [of x] by auto
  with Heartbeat assms MessageHeartbeat_roundtrip(1) [of x] show ?thesis by simp
qed (use assms roundtrips [where rest = "[]"] in simp_all)

lemma CreateNewInstance_serialized:
  "wf_message m \<Longrightarrow> CreateNewInstance (SerializeToString m []) = Inr (Some (as_received m))"
  by (simp add: CreateNewInstance_selected ReadMessageType_serialized selected_roundtrip)

lemma truncated_not_read:
  assumes "prefix_parser (as_parser f d)" and "d s = (Inr v, [])" and "n < length s"
  shows "d (take n s) \<noteq> (Inr w, rest)"
proof
  assume "d (take n s) = (Inr w, rest)"
  then have "as_parser f d (take n s) = (Some (f w), rest)" by (simp add: as_parser_Some)
  then obtain p where p: "take n s = p @ rest" "\<forall>x. as_parser f d (p @ x) = (Some (f w), x)"
    using prefix_parserE [OF assms(1)] by blast
  from p(1) have "s = p @ (rest @ drop n s)" by (rule take_eq_append_drop)
  then have "as_parser f d s = (Some (f w), rest @ drop n s)" using p(2) by metis
  then show False using assms(2,3) by (auto simp: as_parser_Some)
qed

lemma instance_of_Some:
  "instance_of C r = Inr (Some m) \<longleftrightarrow> (\<exists>v rest. r = (Inr v, rest) \<and> m = C v)"
  by (induction C r rule: instance_of.induct) auto

lemma selected_truncated:
  assumes "wf_message m" and "\<forall>h. m \<noteq> Heartbeat h" and "n < length (SerializeToString m [])"
  shows "selected m (take n (SerializeToString m [])) \<noteq> Inr (Some m')"
proof (cases m)
  case (DeliverData x)
  with assms MessageDeliverData_roundtrip [of x "[]"]
    truncated_not_read [OF prefix_MessageDeliverData, of "MessageDeliverData_bytes x"]
  show ?thesis by (auto simp: instance_of_Some put_simps)
next
  case (Data x)
  with assms MessageData_roundtrip [of x "[]"]
    truncated_not_read [OF prefix_MessageData, of "MessageData_Serialize x []"]
  show ?thesis by (auto simp: instance_of_Some)
next
  case (Heartbeat x)
  with assms show ?thesis by simp
qed (use assms roundtrips [where rest = "[]"] truncated_not_read [OF prefix_messages(1)]
      truncated_not_read [OF prefix_messages(2)] truncated_not_read [OF prefix_messages(3)]
      truncated_not_read [OF prefix_messages(4)] truncated_not_read [OF prefix_messages(5)]
      truncated_not_read [OF prefix_messages(6)] truncated_not_read [OF prefix_messages(7)]
      truncated_not_read [OF prefix_messages(8)] truncated_not_read [OF prefix_messages(9)]
      truncated_not_read [OF prefix_messages(10)] in \<open>auto simp: instance_of_Some\<close>)

section \<open>What the factory accepts is well formed\<close>

lemma expect_Inr: "expect r e k = (Inr v, rest) \<longleftrightarrow> (\<exists>w inp. r = (Some w, inp) \<and> k w inp = (Inr v, rest))"
  by (auto simp: expect_def split: prod.splits option.splits)

lemma thenRead_Inr: "thenRead r k = (Inr v, rest) \<longleftrightarrow> (\<exists>w inp. r = (Inr w, inp) \<and> k w inp = (Inr v, rest))"
  by (auto simp: thenRead_def split: prod.splits sum.splits)

lemma GetFixedEnum8_accepted:
  "GetFixedEnum8 ok inp = (Some v, rest) \<Longrightarrow> ok v \<and> ReadMessageType inp = v"
  by (auto simp: GetFixedEnum8_def GetFixed8_def ReadMessageType_def
      split: prod.splits option.splits if_splits)

lemma GetLengthPrefixedSlice_fits: "GetLengthPrefixedSlice inp = (Some v, rest) \<Longrightarrow> length v < 2 ^ 32"
proof -
  assume "GetLengthPrefixedSlice inp = (Some v, rest)"
  then have "\<exists>len :: u32. length v = unat len"
    by (auto simp: GetLengthPrefixedSlice_def split: prod.splits option.splits if_splits)
  then obtain len :: u32 where "length v = unat len" by blast
  then show ?thesis using unsigned_less [of len] by simp
qed

lemma GetTopicID_fits:
  "GetTopicID inp = (Some (ns, t), rest) \<Longrightarrow> length ns < 2 ^ 32 \<and> length t < 2 ^ 32"
  by (auto simp: GetTopicID_def split: prod.splits option.splits dest!: GetLengthPrefixedSlice_fits)

lemma read_n_Inr:
  "read_n rd n inp = (Inr xs, rest) \<Longrightarrow>
     length xs = n \<and> (\<forall>x \<in> set xs. \<exists>i r. rd i = (Inr x, r))"
  by (induction n arbitrary: inp xs) (fastforce simp: thenRead_Inr)+

lemma read_shards_distinct: "distinct healthy \<Longrightarrow> distinct (fst (read_shards inp healthy))"
proof (induction inp healthy rule: read_shards.induct)
  case (1 inp healthy)
  then show ?case
    by (subst read_shards.simps) (auto split: prod.splits option.splits)
qed

lemmas accepted =
  expect_Inr thenRead_Inr instance_of_Some

lemmas accepted_dests =
  GetFixedEnum8_accepted GetLengthPrefixedSlice_fits GetTopicID_fits

lemma Message_accepted:
  "Message_DeSerialize inp = (Inr b, rest) \<Longrightarrow>
     ValidateMessageType (msg_type b) \<and> ReadMessageType inp = msg_type b"
  by (auto simp: Message_DeSerialize_def accepted dest!: accepted_dests)

lemma MessageDeliver_accepted:
  "MessageDeliver_DeSerialize inp = (Inr d, rest) \<Longrightarrow>
     ValidateMessageType (msg_type d) \<and> ReadMessageType inp = msg_type d \<and>
     deliver_seqno_prev d \<le> deliver_seqno d"
  by (auto simp: MessageDeliver_DeSerialize_def accepted Let_def split: if_splits
      dest!: Message_accepted)

lemma MessageDeliverData_accepted:
  "MessageDeliverData_DeSerialize inp = (Inr d, rest) \<Longrightarrow>
     ValidateMessageType (msg_type d) \<and> ReadMessageType inp = msg_type d \<and>
     deliver_seqno_prev d \<le> deliver_seqno d \<and> fits32 (deliver_payload d)"
  by (auto simp: MessageDeliverData_DeSerialize_def accepted MessageDeliver.extend_def
      MessageDeliverData.fields_def dest!: MessageDeliver_accepted GetLengthPrefixedSlice_fits)

lemma CreateNewInstance_wf_cases:
  "ReadMessageType inp \<in> {2, 6} \<Longrightarrow> MessageData_DeSerialize inp = (Inr x1, r) \<Longrightarrow> wf_message (Data x1)"
  "ReadMessageType inp = 1 \<Longrightarrow> MessagePing_DeSerialize inp = (Inr x2, r) \<Longrightarrow> wf_message (Ping x2)"
  "ReadMessageType inp = 5 \<Longrightarrow> MessageGap_DeSerialize inp = (Inr x3, r) \<Longrightarrow> wf_message (Gap x3)"
  "ReadMessageType inp = 7 \<Longrightarrow> MessageGoodbye_DeSerialize inp = (Inr x4, r) \<Longrightarrow> wf_message (Goodbye x4)"
  "ReadMessageType inp = 8 \<Longrightarrow> MessageSubscribe_DeSerialize inp = (Inr x5, r) \<Longrightarrow>
     wf_message (Subscribe x5)"
  "ReadMessageType inp = 9 \<Longrightarrow> MessageUnsubscribe_DeSerialize inp = (Inr x6, r) \<Longrightarrow>
     wf_message (Unsubscribe x6)"
  "ReadMessageType inp = 12 \<Longrightarrow> MessageFindTailSeqno_DeSerialize inp = (Inr x7, r) \<Longrightarrow>
     wf_message (FindTailSeqno x7)"
  "ReadMessageType inp = 13 \<Longrightarrow> MessageTailSeqno_DeSerialize inp = (Inr x8, r) \<Longrightarrow>
     wf_message (TailSeqno x8)"
  by (auto simp: message_defs accepted
      dest!: accepted_dests Message_accepted)

lemma CreateNewInstance_wf_deliver:
  "ReadMessageType inp = 10 \<Longrightarrow> MessageDeliverGap_DeSerialize inp = (Inr x1, r) \<Longrightarrow>
     wf_message (DeliverGap x1)"
  "ReadMessageType inp = 11 \<Longrightarrow> MessageDeliverData_DeSerialize inp = (Inr x2, r) \<Longrightarrow>
     wf_message (DeliverData x2)"
  by (auto simp: MessageDeliverGap_DeSerialize_def accepted MessageDeliver.extend_def
      MessageDeliverGap.fields_def dest!: MessageDeliver_accepted MessageDeliverData_accepted
      accepted_dests)

lemma CreateNewInstance_wf_lists:
  "ReadMessageType inp = 4 \<Longrightarrow> MessageDataAck_DeSerialize inp = (Inr x1, r) \<Longrightarrow> wf_message (DataAck x1)"
  "ReadMessageType inp = 14 \<Longrightarrow> MessageDeliverBatch_DeSerialize inp = (Inr x2, r) \<Longrightarrow>
     wf_message (DeliverBatch x2)"
  "ReadMessageType inp = 15 \<Longrightarrow> MessageHeartbeat_DeSerialize inp = (Inr x3, r) \<Longrightarrow>
     wf_message (Heartbeat x3)"
proof -
  assume "ReadMessageType inp = 4" "MessageDataAck_DeSerialize inp = (Inr x1, r)"
  moreover have "unat n < 2 ^ 32" for n :: u32 using unsigned_less [of n] by simp
  moreover have "Ack_DeSerialize i = (Inr a, q) \<Longrightarrow> ValidateAckStatus (ack_status a)" for i a q
    by (auto simp: Ack_DeSerialize_def accepted dest!: accepted_dests)
  ultimately show "wf_message (DataAck x1)"
    by (auto simp: message_defs accepted dest!: read_n_Inr accepted_dests) blast+
next
  assume "ReadMessageType inp = 14" "MessageDeliverBatch_DeSerialize inp = (Inr x2, r)"
  then show "wf_message (DeliverBatch x2)"
    by (auto simp: message_defs accepted split: if_splits
        dest!: read_n_Inr Message_accepted) (fastforce dest: MessageDeliverData_accepted)+
next
  assume "ReadMessageType inp = 15" "MessageHeartbeat_DeSerialize inp = (Inr x3, r)"
  moreover have "distinct (fst (read_shards i []))" for i
    by (rule read_shards_distinct) simp
  ultimately show "wf_message (Heartbeat x3)"
    by (auto simp: message_defs accepted split_beta split: if_splits dest!: accepted_dests)
qed

lemma CreateNewInstance_accepts_wf:
  "CreateNewInstance inp = Inr (Some m) \<Longrightarrow> wf_message m"
  unfolding CreateNewInstance_def Let_def
  by (auto simp: instance_of_Some split: if_splits simp del: wf_message.simps
      intro: CreateNewInstance_wf_cases CreateNewInstance_wf_deliver CreateNewInstance_wf_lists)

section \<open>Properties\<close>

text \<open>
  C1. Every well-formed message of every class survives the wire: the factory, given the bytes
  \<open>Serialize\<close> produced, builds a message of the same class with the same fields (a data message
  with its storage slice, a heartbeat with its timestamp in whole milliseconds).
\<close>

theorem message_roundtrip:
  "wf_message m \<Longrightarrow> CreateNewInstance (SerializeToString m []) = Inr (Some (as_received m))"
  by (rule CreateNewInstance_serialized)

definition example_batch :: MessageDeliverBatch where
  "example_batch =
     \<lparr>msg_type = 14, tenantid = 101,
      batch_messages =
        [\<lparr>msg_type = 11, tenantid = 101, deliver_sub_id = 300, deliver_seqno_prev = 7,
          deliver_seqno = 9, deliver_message_id = \<lparr>guid_hi = 1, guid_lo = 2\<rparr>,
          deliver_payload = [104, 105]\<rparr>]\<rparr>"

theorem message_roundtrip_witness:
  "wf_message (DeliverBatch example_batch) \<and>
   CreateNewInstance (SerializeToString (DeliverBatch example_batch) [])
     = Inr (Some (DeliverBatch example_batch))"
proof -
  have wf: "wf_message (DeliverBatch example_batch)"
    by (simp add: example_batch_def vector_max_size_def)
  show ?thesis using wf message_roundtrip [OF wf] by simp
qed

text \<open>
  C7. A message that lost its tail never parses: no strict prefix of the bytes of a well-formed
  message yields a message. (A heartbeat carries an uncounted list and is the exception.)
\<close>

theorem truncated_message_rejected:
  assumes "wf_message m" and "\<forall>h. m \<noteq> Heartbeat h" and "n < length (SerializeToString m [])"
  shows "CreateNewInstance (take n (SerializeToString m [])) \<noteq> Inr (Some m')"
proof (cases n)
  case 0
  then show ?thesis by (simp add: CreateNewInstance_def ReadMessageType_def)
next
  case (Suc k)
  with assms show ?thesis
    by (simp add: CreateNewInstance_selected ReadMessageType_take selected_truncated)
qed

theorem truncated_message_rejected_witness:
  "wf_message (DeliverBatch example_batch) \<and>
   CreateNewInstance (take 5 (SerializeToString (DeliverBatch example_batch) [])) \<noteq>
     Inr (Some (DeliverBatch example_batch))"
proof -
  have wf: "wf_message (DeliverBatch example_batch)"
    by (simp add: example_batch_def vector_max_size_def)
  have "5 < length (SerializeToString (DeliverBatch example_batch) [])"
    by (simp add: example_batch_def message_defs put_simps MessageDeliverData_bytes_def
        MessageDeliver_bytes_def length_prefixed_def Let_def)
  with wf truncated_message_rejected [OF wf] show ?thesis by simp
qed

text \<open>
  C8. Whatever bytes arrive, a message the factory hands on is well formed: its tag is the tag of
  its class, its enumerations are in range, its sequence numbers do not run backwards, its
  lengths fit their fields. Such a message can be forwarded, by C1.
\<close>

theorem accepted_message_well_formed:
  "CreateNewInstance inp = Inr (Some m) \<Longrightarrow> wf_message m"
  by (rule CreateNewInstance_accepts_wf)

theorem accepted_message_well_formed_witness:
  "CreateNewInstance [7, 101, 0, 1, 0] =
     Inr (Some (Goodbye \<lparr>msg_type = 7, tenantid = 101, goodbye_code = 1, goodbye_origin_type = 0\<rparr>)) \<and>
   wf_message (Goodbye \<lparr>msg_type = 7, tenantid = 101, goodbye_code = 1, goodbye_origin_type = 0\<rparr>)"
proof -
  have c: "CreateNewInstance [7, 101, 0, 1, 0] =
     Inr (Some (Goodbye \<lparr>msg_type = 7, tenantid = 101, goodbye_code = 1, goodbye_origin_type = 0\<rparr>))"
    by (simp add: CreateNewInstance_def ReadMessageType_def MessageGoodbye_DeSerialize_def
        GetFixedEnum8_def GetFixed8_def GetFixed16_def DecodeFixed16_def ValidateMessageType_def
        ValidateGoodbyeCode_def ValidateOriginType_def)
  show ?thesis using c accepted_message_well_formed [OF c] by (rule conjI)
qed

end
