(* ===== verification/BitStream.thy ===== *)
theory BitStream
  imports Coding
begin

text \<open>
  The bit-stream part of \<open>src/util/common/coding.cc\<close>: \<open>BitStreamPutInt\<close> and \<open>BitStreamGetInt\<close>
  write and read an integer of up to 64 bits at any bit offset of a buffer, one byte at a time.
  The abstract view is a sequence of bits, \<open>stream_bit\<close>; both loops are shown to move exactly the
  bits of the requested window. \<open>GetSliceUntil\<close>, the delimiter scan of \<open>coding.h\<close>, is here too.
\<close>

unbundle bit_operations_syntax

section \<open>The loops\<close>

text \<open>
  One iteration of \<open>BitStreamPutInt\<close> replaces \<open>bitsToGet\<close> bits of one byte. C++ computes the new
  byte at 64 bits and truncates it; so does \<open>put_byte\<close>. \<open>bitOffset\<close> is below 8 in every call
  (it is \<open>offset % 8\<close> first and 0 afterwards), the guard only makes the recursion total.
\<close>

definition put_byte :: "u8 \<Rightarrow> nat \<Rightarrow> nat \<Rightarrow> u64 \<Rightarrow> u8" where
  "put_byte old bitOffset bitsToGet v =
     (let m = mask bitsToGet :: u64
      in ucast ((ucast old AND NOT (push_bit bitOffset m)) + push_bit bitOffset (v AND m)))"

function BitStreamPutInt_loop :: "bytes \<Rightarrow> nat \<Rightarrow> nat \<Rightarrow> nat \<Rightarrow> u64 \<Rightarrow> bytes" where
  "BitStreamPutInt_loop ptr byteOffset bitOffset bits v =
     (if bits = 0 \<or> 8 \<le> bitOffset then ptr
      else let bitsToGet = min bits (8 - bitOffset)
           in BitStreamPutInt_loop
                (ptr[byteOffset := put_byte (ptr ! byteOffset) bitOffset bitsToGet v])
                (byteOffset + 1) 0 (bits - bitsToGet) (drop_bit bitsToGet v))"
  by pat_completeness auto

termination
  by (relation "measure (\<lambda>(_, _, _, bits, _). bits)") auto

declare BitStreamPutInt_loop.simps [simp del]

definition get_byte :: "u8 \<Rightarrow> nat \<Rightarrow> nat \<Rightarrow> nat \<Rightarrow> u64" where
  "get_byte b bitOffset bitsToGet sh =
     push_bit sh (ucast (drop_bit bitOffset b AND mask bitsToGet))"

function BitStreamGetInt_loop ::
  "bytes \<Rightarrow> nat \<Rightarrow> nat \<Rightarrow> nat \<Rightarrow> nat \<Rightarrow> u64 \<Rightarrow> u64" where
  "BitStreamGetInt_loop ptr byteOffset bitOffset sh bits result =
     (if bits = 0 \<or> 8 \<le> bitOffset then result
      else let bitsToGet = min bits (8 - bitOffset)
           in BitStreamGetInt_loop ptr (byteOffset + 1) 0 (sh + bitsToGet) (bits - bitsToGet)
                (result + get_byte (ptr ! byteOffset) bitOffset bitsToGet sh))"
  by pat_completeness auto

termination
  by (relation "measure (\<lambda>(_, _, _, _, bits, _). bits)") auto

declare BitStreamGetInt_loop.simps [simp del]

text \<open>The routines with their assertions; \<open>None\<close> is a failed \<open>RS_ASSERT\<close>.\<close>

definition BitStreamGetInt :: "bytes \<Rightarrow> nat \<Rightarrow> nat \<Rightarrow> u64 option" where
  "BitStreamGetInt src offset bits =
     (if (offset + bits + 7) div 8 \<le> length src \<and> bits \<le> 64
      then Some (BitStreamGetInt_loop src (offset div 8) (offset mod 8) 0 bits 0)
      else None)"

definition BitStreamPutInt :: "bytes \<Rightarrow> nat \<Rightarrow> nat \<Rightarrow> u64 \<Rightarrow> bytes option" where
  "BitStreamPutInt dst offset bits v =
     (if (offset + bits + 7) div 8 \<le> length dst \<and> bits \<le> 64
      then let origValue = (if bits < 64 then v AND (push_bit bits 1 - 1) else v);
               dst' = BitStreamPutInt_loop dst (offset div 8) (offset mod 8) bits v
           in if Some origValue = BitStreamGetInt dst' offset bits then Some dst' else None
      else None)"

section \<open>What the loops do to the bits\<close>

text \<open>Bit \<open>i\<close> of a buffer: bits are numbered from the least significant one of the first byte.\<close>

definition stream_bit :: "bytes \<Rightarrow> nat \<Rightarrow> bool" where
  "stream_bit buf i = bit (buf ! (i div 8)) (i mod 8)"

lemma stream_bit_at: "k < 8 \<Longrightarrow> stream_bit buf (8 * B + k) \<longleftrightarrow> bit (buf ! B) k"
  by (simp add: stream_bit_def)

lemma bit_put_byte:
  assumes "o' + n \<le> 8" and "k < 8"
  shows "bit (put_byte old o' n v) k \<longleftrightarrow>
    (if o' \<le> k \<and> k < o' + n then bit v (k - o') else bit old k)"
proof -
  let ?m = "mask n :: u64"
  have "(ucast old AND NOT (push_bit o' ?m)) AND push_bit o' (v AND ?m) = 0"
    by (rule bit_word_eqI) (auto simp: bit_simps)
  then have "(ucast old AND NOT (push_bit o' ?m)) + push_bit o' (v AND ?m)
      = (ucast old AND NOT (push_bit o' ?m)) OR push_bit o' (v AND ?m)"
    using word_plus_and_or [of "ucast old AND NOT (push_bit o' ?m)" "push_bit o' (v AND ?m)"] by simp
  then show ?thesis
    using assms unfolding put_byte_def Let_def by (auto simp: bit_simps)
qed

lemma stream_bit_update:
  assumes "B < length buf"
  shows "stream_bit (buf[B := b]) i \<longleftrightarrow>
    (if i div 8 = B then bit b (i mod 8) else stream_bit buf i)"
  using assms by (auto simp: stream_bit_def nth_list_update)

lemma length_BitStreamPutInt_loop [simp]:
  "length (BitStreamPutInt_loop ptr B o' bits v) = length ptr"
  by (induction ptr B o' bits v rule: BitStreamPutInt_loop.induct)
     (subst BitStreamPutInt_loop.simps, simp add: Let_def)

lemma stream_bit_put_step:
  assumes "o' < 8" "B < length ptr" "n = min bits (8 - o')"
  shows "stream_bit (ptr[B := put_byte (ptr ! B) o' n v]) i \<longleftrightarrow>
    (if 8 * B + o' \<le> i \<and> i < 8 * B + o' + n then bit v (i - (8 * B + o')) else stream_bit ptr i)"
proof (cases "i div 8 = B")
  case True
  obtain k where i: "i = 8 * B + k" and k: "k < 8"
    using True mult_div_mod_eq [of 8 i] by (metis mod_less_divisor zero_less_numeral)
  then have "i div 8 = B" "i mod 8 = k" by simp_all
  then show ?thesis
    using assms k by (auto simp: stream_bit_update bit_put_byte stream_bit_def i)
next
  case False
  have "\<not> (8 * B + o' \<le> i \<and> i < 8 * B + o' + n)"
    using False assms by auto
  then show ?thesis
    using False assms by (auto simp: stream_bit_update)
qed

lemma stream_bit_put_loop:
  assumes "o' < 8" and "8 * B + o' + bits \<le> 8 * length ptr"
  shows "stream_bit (BitStreamPutInt_loop ptr B o' bits v) i \<longleftrightarrow>
    (if 8 * B + o' \<le> i \<and> i < 8 * B + o' + bits then bit v (i - (8 * B + o'))
     else stream_bit ptr i)"
  using assms
proof (induction ptr B o' bits v rule: BitStreamPutInt_loop.induct)
  case (1 ptr B o' bits v)
  show ?case
  proof (cases "bits = 0")
    case True
    then show ?thesis by (auto simp: BitStreamPutInt_loop.simps)
  next
    case False
    define n where "n = min bits (8 - o')"
    have B: "B < length ptr" using 1 False by linarith
    have n: "n = bits \<or> o' + n = 8" "n \<le> bits" using 1(2) False by (auto simp: n_def)
    have len: "8 * (B + 1) + 0 + (bits - n) \<le> 8 * length (ptr[B := put_byte (ptr ! B) o' n v])"
      using n 1(3) B by auto
    have "stream_bit (BitStreamPutInt_loop (ptr[B := put_byte (ptr ! B) o' n v]) (B + 1) 0
        (bits - n) (drop_bit n v)) i
      \<longleftrightarrow> (if 8 * (B + 1) + 0 \<le> i \<and> i < 8 * (B + 1) + 0 + (bits - n)
          then bit (drop_bit n v) (i - (8 * (B + 1) + 0))
          else stream_bit (ptr[B := put_byte (ptr ! B) o' n v]) i)"
      using 1(1) [OF _ n_def _ len] 1(2) False by simp
    moreover have "n + (i - 8 * (B + 1)) = i - (8 * B + o')" if "o' + n = 8" "8 * (B + 1) \<le> i"
      using that by simp
    moreover have "BitStreamPutInt_loop ptr B o' bits v
      = BitStreamPutInt_loop (ptr[B := put_byte (ptr ! B) o' n v]) (B + 1) 0 (bits - n) (drop_bit n v)"
      using 1(2) False by (subst BitStreamPutInt_loop.simps) (simp add: n_def Let_def)
    ultimately show ?thesis
      using n stream_bit_put_step [OF 1(2) B n_def, of v i] by (auto simp: bit_drop_bit_eq)
  qed
qed

lemma bit_get_byte:
  assumes "j < 64" "o' + n \<le> 8"
  shows "bit (get_byte b o' n sh) j \<longleftrightarrow> sh \<le> j \<and> j < sh + n \<and> bit b (o' + (j - sh))"
  using assms by (auto simp: get_byte_def bit_simps)

lemma bit_get_loop:
  assumes "o' < 8" and "sh + bits \<le> 64" and "\<And>j. sh \<le> j \<Longrightarrow> \<not> bit result j"
  shows "bit (BitStreamGetInt_loop ptr B o' sh bits result) j \<longleftrightarrow>
    (if j < sh then bit result j else j < sh + bits \<and> stream_bit ptr (8 * B + o' + (j - sh)))"
  using assms
proof (induction ptr B o' sh bits result rule: BitStreamGetInt_loop.induct)
  case (1 ptr B o' sh bits result)
  show ?case
  proof (cases "bits = 0")
    case True
    then show ?thesis using 1(4) by (auto simp: BitStreamGetInt_loop.simps)
  next
    case False
    define n where "n = min bits (8 - o')"
    define r where "r = result + get_byte (ptr ! B) o' n sh"
    have n: "n = bits \<or> o' + n = 8" "n \<le> bits" "o' + n \<le> 8"
      using 1(2) False by (auto simp: n_def)
    have "result AND get_byte (ptr ! B) o' n sh = 0"
      using 1(4) n(3) by (intro bit_word_eqI) (auto simp: bit_get_byte bit_and_iff)
    then have r: "r = result OR get_byte (ptr ! B) o' n sh"
      using word_plus_and_or [of result "get_byte (ptr ! B) o' n sh"] by (simp add: r_def)
    have bit_r: "bit r k \<longleftrightarrow> (if k < sh then bit result k
        else k < sh + n \<and> stream_bit ptr (8 * B + o' + (k - sh)))" for k
    proof (cases "sh \<le> k \<and> k < sh + n")
      case True
      then have "o' + (k - sh) < 8" "k < 64" using n 1(3) by auto
      then show ?thesis
        using True n(3) 1(4) [of k] stream_bit_at [of "o' + (k - sh)" ptr B]
        by (simp add: r bit_or_iff bit_get_byte add.assoc)
    next
      case False
      have "\<not> bit (get_byte (ptr ! B) o' n sh) k"
        using False n(3) by (cases "k < 64") (auto simp: bit_get_byte dest: bit_imp_le_length)
      then show ?thesis
        using False 1(4) [of k] by (auto simp: r bit_or_iff)
    qed
    have "bit (BitStreamGetInt_loop ptr (B + 1) 0 (sh + n) (bits - n) r) j \<longleftrightarrow>
      (if j < sh + n then bit r j
       else j < sh + n + (bits - n) \<and> stream_bit ptr (8 * (B + 1) + (j - (sh + n))))"
      using 1(1) [OF _ n_def] 1(2,3) False n(2) bit_r by (simp add: r_def)
    moreover have "8 * (B + 1) + (j - (sh + n)) = 8 * B + o' + (j - sh)"
      if "o' + n = 8" "sh + n \<le> j" using that by simp
    moreover have "BitStreamGetInt_loop ptr B o' sh bits result
      = BitStreamGetInt_loop ptr (B + 1) 0 (sh + n) (bits - n) r"
      using 1(2) False by (subst BitStreamGetInt_loop.simps) (simp add: n_def r_def Let_def)
    ultimately show ?thesis
      using n bit_r [of j] by auto
  qed
qed

lemma stream_bits_fit:
  assumes "(offset + bits + 7) div 8 \<le> length buf"
  shows "8 * (offset div 8) + offset mod 8 + bits \<le> 8 * length buf"
  using assms by auto

lemma stream_ext:
  assumes "length a = length b" and "\<And>i. i < 8 * length a \<Longrightarrow> stream_bit a i = stream_bit b i"
  shows "a = b"
proof (rule nth_equalityI [OF assms(1)])
  fix k assume k: "k < length a"
  show "a ! k = b ! k"
  proof (rule bit_word_eqI)
    fix j :: nat assume "j < LENGTH(8)"
    then have j: "j < 8" by simp
    then have "8 * k + j < 8 * length a" using k by simp
    then show "bit (a ! k) j = bit (b ! k) j"
      using assms(2) [of "8 * k + j"] by (simp add: stream_bit_at j)
  qed
qed

lemma BitStreamGetInt_bits:
  assumes "(offset + bits + 7) div 8 \<le> length buf" and "bits \<le> 64"
  obtains r where "BitStreamGetInt buf offset bits = Some r"
    and "\<And>j. bit r j \<longleftrightarrow> j < bits \<and> stream_bit buf (offset + j)"
  using assms bit_get_loop [of "offset mod 8" 0 bits 0 buf "offset div 8"]
  by (auto simp: BitStreamGetInt_def)

lemma BitStreamGetInt_window:
  assumes "(offset + bits + 7) div 8 \<le> length buf" and "bits \<le> 64"
    and "\<And>j. j < bits \<Longrightarrow> stream_bit buf (offset + j) = bit v j"
  shows "BitStreamGetInt buf offset bits = Some (take_bit bits v)"
proof -
  obtain r where r: "BitStreamGetInt buf offset bits = Some r"
    "\<And>j. bit r j \<longleftrightarrow> j < bits \<and> stream_bit buf (offset + j)"
    using BitStreamGetInt_bits [OF assms(1,2)] by metis
  have "r = take_bit bits v"
    by (rule bit_word_eqI) (use r(2) assms(3) in \<open>auto simp: bit_take_bit_iff\<close>)
  then show ?thesis using r(1) by simp
qed

lemma truncated_value:
  "bits \<le> 64 \<Longrightarrow> (if bits < 64 then v AND (push_bit bits 1 - 1) else v) = take_bit bits (v :: u64)"
  by (cases "bits = 64") (auto simp: take_bit_eq_mask mask_eq_decr_exp push_bit_eq_mult
    intro: sym [OF take_bit_length_eq [of v, simplified]])

lemma BitStreamPutInt_window:
  assumes "(offset + bits + 7) div 8 \<le> length dst" and "bits \<le> 64"
  obtains dst' where "BitStreamPutInt dst offset bits v = Some dst'"
    and "length dst' = length dst"
    and "\<And>i. stream_bit dst' i \<longleftrightarrow>
      (if offset \<le> i \<and> i < offset + bits then bit v (i - offset) else stream_bit dst i)"
    and "BitStreamGetInt dst' offset bits = Some (take_bit bits v)"
proof
  let ?dst' = "BitStreamPutInt_loop dst (offset div 8) (offset mod 8) bits v"
  show len: "length ?dst' = length dst" by simp
  show bits: "stream_bit ?dst' i \<longleftrightarrow>
      (if offset \<le> i \<and> i < offset + bits then bit v (i - offset) else stream_bit dst i)" for i
    using stream_bit_put_loop [of "offset mod 8" "offset div 8" bits dst v i]
      stream_bits_fit [OF assms(1)] by simp
  show get: "BitStreamGetInt ?dst' offset bits = Some (take_bit bits v)"
    using assms by (intro BitStreamGetInt_window) (auto simp: bits)
  show "BitStreamPutInt dst offset bits v = Some ?dst'"
    using assms get truncated_value [OF assms(2), of v] by (simp add: BitStreamPutInt_def Let_def)
qed

section \<open>The overload on \<open>std::string\<close>\<close>

text \<open>
  The overload works on a nine-byte copy of the bytes concerned. \<open>junk\<close> is the uninitialised
  content of that buffer; \<open>string_at\<close> reads the terminating null byte at index \<open>size()\<close>, and
  writing it back there changes nothing.
\<close>

definition string_at :: "bytes \<Rightarrow> nat \<Rightarrow> u8" where
  "string_at s i = (if i < length s then s ! i else 0)"

definition BitStreamPutInt_string :: "bytes \<Rightarrow> bytes \<Rightarrow> nat \<Rightarrow> nat \<Rightarrow> u64 \<Rightarrow> bytes option" where
  "BitStreamPutInt_string junk dst offset bits v =
     (if (offset + bits + 7) div 8 \<le> length dst
      then let kUsedBytes = (offset mod 8 + bits) div 8;
               tmpBuf = foldl (\<lambda>t idx. t[idx := string_at dst (offset div 8 + idx)]) junk
                          [0..<kUsedBytes + 1]
           in case BitStreamPutInt tmpBuf (offset mod 8) bits v of
                None \<Rightarrow> None
              | Some tmpBuf' \<Rightarrow>
                  let dst' = foldl (\<lambda>d idx. d[offset div 8 + idx := tmpBuf' ! idx]) dst
                               [0..<kUsedBytes + 1]
                  in if Some (if bits < 64 then v AND (push_bit bits 1 - 1) else v)
                          = BitStreamGetInt dst' offset bits
                     then Some dst' else None
      else None)"

lemma length_foldl_update [simp]: "length (foldl (\<lambda>t x. t[g x := h x]) t xs) = length t"
  by (induction xs arbitrary: t) auto

lemma nth_foldl_update:
  "i < length t \<Longrightarrow> foldl (\<lambda>t x. t[b + x := h x]) t [0..<m] ! i
     = (if b \<le> i \<and> i < b + m then h (i - b) else t ! i)"
  by (induction m) (auto simp: nth_list_update less_Suc_eq)

lemma BitStreamPutInt_string_eq:
  assumes "(offset + bits + 7) div 8 \<le> length dst" and "bits \<le> 64" and "length junk = 9"
  shows "BitStreamPutInt_string junk dst offset bits v = BitStreamPutInt dst offset bits v"
proof -
  define B where "B = offset div 8"
  define o' where "o' = offset mod 8"
  define u where "u = (o' + bits) div 8"
  define tmp where "tmp = foldl (\<lambda>t idx. t[0 + idx := string_at dst (B + idx)]) junk [0..<u + 1]"
  have off: "offset = 8 * B + o'" "o' < 8" by (auto simp: B_def o'_def)
  have u: "o' + bits < 8 * (u + 1)" "u \<le> 8" "8 * u \<le> o' + bits"
    using assms(2) off(2) by (auto simp: u_def o'_def)
  have tmp: "length tmp = 9" "k \<le> u \<Longrightarrow> tmp ! k = string_at dst (B + k)" for k
    using u(2) assms(3) nth_foldl_update [of k junk 0] by (auto simp: tmp_def simp del: upt_Suc)
  have fit: "(o' + bits + 7) div 8 \<le> length tmp"
    using assms(2) off(2) tmp(1) by auto
  obtain tmp' where tmp': "BitStreamPutInt tmp o' bits v = Some tmp'" "length tmp' = length tmp"
    "\<And>i. stream_bit tmp' i \<longleftrightarrow>
      (if o' \<le> i \<and> i < o' + bits then bit v (i - o') else stream_bit tmp i)"
    using BitStreamPutInt_window [OF fit assms(2), of v] by blast
  obtain dst' where dst': "BitStreamPutInt dst offset bits v = Some dst'" "length dst' = length dst"
    "\<And>i. stream_bit dst' i \<longleftrightarrow>
      (if offset \<le> i \<and> i < offset + bits then bit v (i - offset) else stream_bit dst i)"
    "BitStreamGetInt dst' offset bits = Some (take_bit bits v)"
    using BitStreamPutInt_window [OF assms(1,2), of v] by blast
  have "foldl (\<lambda>d idx. d[B + idx := tmp' ! idx]) dst [0..<u + 1] = dst'" (is "?d = _")
  proof (rule stream_ext)
    fix i assume "i < 8 * length ?d"
    then have i: "i div 8 < length dst" by simp
    show "stream_bit ?d i = stream_bit dst' i"
    proof (cases "B \<le> i div 8 \<and> i div 8 < B + (u + 1)")
      case True
      define k where "k = i div 8 - B"
      define m where "m = i mod 8"
      have i8: "i div 8 = B + k" "m < 8" using True by (auto simp: k_def m_def)
      have ik: "i = 8 * (B + k) + m" "k \<le> u" "B + k < length dst"
        using True i i8 mult_div_mod_eq [of 8 i] by (auto simp: m_def)
      have "stream_bit ?d i = bit (tmp' ! k) m"
        using True i by (simp add: stream_bit_def nth_foldl_update k_def m_def del: upt_Suc)
      also have "\<dots> = stream_bit tmp' (8 * k + m)" by (simp add: stream_bit_at i8)
      also have "\<dots> = (if o' \<le> 8 * k + m \<and> 8 * k + m < o' + bits then bit v (8 * k + m - o')
          else bit (dst ! (B + k)) m)"
        using tmp(2) [OF ik(2)] ik(3) by (simp add: tmp'(3) stream_bit_at i8 string_at_def)
      also have "\<dots> = stream_bit dst' i"
        using stream_bit_at [OF i8(2), of dst "B + k"] unfolding dst'(3) ik(1) off(1) by auto
      finally show ?thesis .
    next
      case False
      then have "\<not> (offset \<le> i \<and> i < offset + bits)" using u off by auto
      then show ?thesis
        using False i dst'(3) [of i] by (auto simp: stream_bit_def nth_foldl_update simp del: upt_Suc)
    qed
  qed (simp add: dst'(2))
  then show ?thesis
    using assms(1) tmp'(1) dst'(1,4)
    unfolding BitStreamPutInt_string_def Let_def B_def [symmetric] o'_def [symmetric]
      u_def [symmetric] truncated_value [OF assms(2), of v]
    by (simp add: tmp_def del: upt_Suc)
qed

section \<open>Scanning for a delimiter\<close>

text \<open>
  \<open>GetSliceUntil\<close> counts with a \<open>uint32_t\<close> while the slice is measured with a \<open>size_t\<close>, so on a
  slice of 4 GiB or more without the delimiter the scan wraps around and never ends: the loop is a
  partial function and \<open>None\<close> is that it does not return.
\<close>

partial_function (option) GetSliceUntil_loop :: "slice \<Rightarrow> u8 \<Rightarrow> u32 \<Rightarrow> u32 option" where
  "GetSliceUntil_loop s delimiter len =
     (if unat len < length s \<and> s ! unat len \<noteq> delimiter
      then GetSliceUntil_loop s delimiter (len + 1) else Some len)"

definition GetSliceUntil :: "slice \<Rightarrow> u8 \<Rightarrow> (slice \<times> slice) option" where
  "GetSliceUntil s delimiter =
     (case GetSliceUntil_loop s delimiter 0 of
        None \<Rightarrow> None
      | Some len \<Rightarrow> Some (take (unat len) s,
          drop (unat (len + (if unat len < length s then 1 else 0))) s))"

lemma GetSliceUntil_loop_scan:
  assumes "length s < 2 ^ 32" and "n \<le> length (takeWhile (\<lambda>c. c \<noteq> delimiter) s)"
  shows "GetSliceUntil_loop s delimiter (of_nat n)
    = Some (of_nat (length (takeWhile (\<lambda>c. c \<noteq> delimiter) s)))" (is "_ = Some (of_nat ?m)")
  using assms(2)
proof (induction "?m - n" arbitrary: n)
  case 0
  have "?m \<le> length s" by (rule length_takeWhile_le)
  then have "unat (of_nat ?m :: u32) = ?m"
    using assms(1) by (simp add: unat_of_nat)
  moreover have "s ! ?m = delimiter" if "?m < length s"
    using nth_length_takeWhile [OF that] by simp
  ultimately show ?case
    using 0 by (subst GetSliceUntil_loop.simps) auto
next
  case (Suc d)
  then have n: "n < ?m" by simp
  have "?m \<le> length s" by (rule length_takeWhile_le)
  then have u: "unat (of_nat n :: u32) = n" "n < length s"
    using assms(1) n by (auto simp: unat_of_nat)
  have "s ! n \<noteq> delimiter"
    using n takeWhile_nth [OF n] set_takeWhileD [OF nth_mem [OF n]] by simp
  then show ?case
    using Suc(1) [of "Suc n"] Suc(2) n u
    by (subst GetSliceUntil_loop.simps) (simp add: add.commute)
qed

lemma GetSliceUntil_loop_stops:
  assumes "GetSliceUntil_loop s delimiter len = Some r"
  shows "unat r < length s \<longrightarrow> s ! unat r = delimiter"
  using assms
  by (rule GetSliceUntil_loop.raw_induct
        [of "\<lambda>s delimiter len r. unat r < length s \<longrightarrow> s ! unat r = delimiter", rotated])
     (auto split: if_splits)

section \<open>Properties\<close>

text \<open>
  C35. \<open>BitStreamPutInt\<close> never fails on a window that lies in the buffer: it keeps the length of the
  buffer, writes the low \<open>bits\<close> bits of the value into the window and leaves every bit outside the
  window as it was, and \<open>BitStreamGetInt\<close> reads the written value back (which is what the
  assertions of both overloads demand). The \<open>std::string\<close> overload gives the same result whatever
  its uninitialised buffer holds.
\<close>

theorem bitstream_put_get:
  assumes "(offset + bits + 7) div 8 \<le> length dst" and "bits \<le> 64" and "length junk = 9"
  shows "\<exists>dst'. BitStreamPutInt dst offset bits v = Some dst'
    \<and> BitStreamPutInt_string junk dst offset bits v = Some dst'
    \<and> length dst' = length dst
    \<and> (\<forall>i. stream_bit dst' i = (if offset \<le> i \<and> i < offset + bits then bit v (i - offset)
                              else stream_bit dst i))
    \<and> BitStreamGetInt dst' offset bits = Some (take_bit bits v)"
  using BitStreamPutInt_window [OF assms(1,2), of v] BitStreamPutInt_string_eq [OF assms, of v]
  by metis

theorem bitstream_put_get_witness:
  "\<exists>dst'. BitStreamPutInt [0xff, 0xff, 0xff] 5 7 0x2a = Some dst'
    \<and> BitStreamPutInt_string (replicate 9 7) [0xff, 0xff, 0xff] 5 7 0x2a = Some dst'
    \<and> BitStreamGetInt dst' 5 7 = Some 0x2a"
  using bitstream_put_get [of 5 7 "[0xff, 0xff, 0xff]" "replicate 9 7" "0x2a"] by auto

text \<open>
  C36. On a slice shorter than 4 GiB \<open>GetSliceUntil\<close> returns, gives the bytes before the first
  delimiter (all of them when there is none) and advances the slice past that delimiter.
\<close>

theorem GetSliceUntil_splits:
  assumes "length s < 2 ^ 32"
  shows "GetSliceUntil s delimiter
    = Some (takeWhile (\<lambda>c. c \<noteq> delimiter) s, drop 1 (dropWhile (\<lambda>c. c \<noteq> delimiter) s))"
proof -
  let ?m = "length (takeWhile (\<lambda>c. c \<noteq> delimiter) s)"
  have m: "?m \<le> length s" by (rule length_takeWhile_le)
  have "unat (of_nat ?m :: u32) = ?m"
    using assms m by (simp add: unat_of_nat)
  moreover have "unat (of_nat ?m + 1 :: u32) = ?m + 1" if "?m < length s"
  proof -
    have "?m + 1 < 2 ^ LENGTH(32)" using assms that by simp
    then show ?thesis using unat_of_nat_less [of "?m + 1", where ?'a = 32] by (metis of_nat_1 of_nat_add)
  qed
  moreover have "take ?m s = takeWhile (\<lambda>c. c \<noteq> delimiter) s"
    by (rule takeWhile_eq_take [symmetric])
  moreover have "drop ?m s = dropWhile (\<lambda>c. c \<noteq> delimiter) s"
    by (rule dropWhile_eq_drop [symmetric])
  moreover have "drop (?m + 1) s = drop 1 (drop ?m s)" by (simp add: add.commute)
  ultimately show ?thesis
    using GetSliceUntil_loop_scan [OF assms, of 0 delimiter] m
    by (cases "?m < length s") (simp_all add: GetSliceUntil_def)
qed

theorem GetSliceUntil_splits_witness:
  "GetSliceUntil [1, 2, 44, 3] 44 = Some ([1, 2], [3])"
  using GetSliceUntil_splits [of "[1, 2, 44, 3]" 44] by simp

text \<open>
  On a slice of 4 GiB or more that does not contain the delimiter \<open>GetSliceUntil\<close> never returns:
  its 32-bit counter wraps around before it reaches the 64-bit size.
\<close>

theorem GetSliceUntil_diverges:
  assumes "2 ^ 32 \<le> length s" and "delimiter \<notin> set s"
  shows "GetSliceUntil s delimiter = None"
proof (cases "GetSliceUntil_loop s delimiter 0")
  case (Some r)
  have "unat r < 2 ^ LENGTH(32)" by (rule unsigned_less)
  then have "unat r < length s" using assms(1) by simp
  then have "delimiter \<in> set s"
    using GetSliceUntil_loop_stops [OF Some] by (metis nth_mem)
  then show ?thesis using assms(2) by simp
qed (simp add: GetSliceUntil_def)

theorem GetSliceUntil_diverges_witness: "GetSliceUntil (replicate (2 ^ 32) 0) 1 = None"
  by (rule GetSliceUntil_diverges) (simp_all only: length_replicate set_replicate_conv_if, simp_all)

end
