(* ===== verification/IdAllocator.thy ===== *)
theory IdAllocator
  imports Prelude
begin

text \<open>
  \<open>src/util/id_allocator.h\<close> (and its instances \<open>StreamAllocator\<close> and \<open>UpstreamAllocator\<close>): an
  allocator of numeric identifiers of any unsigned type, that owns a residue class modulo a power of
  two and can be divided into pieces. The theorems: an allocator only ever returns identifiers of its
  class and repeats one only after a full period; the pieces of a division own disjoint classes that
  together make up the divided one, and the division mapping finds the piece that owns an identifier.
\<close>

unbundle bit_operations_syntax

section \<open>Definitions\<close>

record (overloaded) 'a IDAllocator =
  alloc_step :: "'a word"
  alloc_next :: "'a word"

text \<open>\<open>None\<close> is a failed assertion (of \<open>CheckValid\<close>, in the operations below).\<close>

definition CheckValid :: "('a::len) IDAllocator \<Rightarrow> bool" where
  "CheckValid A \<longleftrightarrow> 0 < alloc_step A \<and> alloc_step A AND (alloc_step A - 1) = 0"

definition IDAllocator_default :: "('a::len) IDAllocator" where
  "IDAllocator_default = \<lparr>alloc_step = 1, alloc_next = 0\<rparr>"

definition IDAllocator_Next :: "('a::len) IDAllocator \<Rightarrow> ('a word \<times> 'a IDAllocator) option" where
  "IDAllocator_Next A =
     (if CheckValid A
      then let curr = alloc_next A in Some (curr, A\<lparr>alloc_next := alloc_next A + alloc_step A\<rparr>)
      else None)"

definition IsSourceOf :: "('a::len) IDAllocator \<Rightarrow> 'a word \<Rightarrow> bool option" where
  "IsSourceOf A ident =
     (if CheckValid A
      then let step_mask = alloc_step A - 1
           in Some (alloc_next A AND step_mask = ident AND step_mask)
      else None)"

text \<open>
  The doubling loop of \<open>Divide\<close>. Its assertion compares with \<open>kMax << 1\<close>, which for the 64-bit
  allocators of the program is \<open>2 ^ 64 - 2\<close>: a power of two never exceeds it. The loop may not end
  (\<open>num_pieces\<close> wraps around to 0), so it is a partial function.
\<close>

partial_function (option) Divide_loop ::
  "nat \<Rightarrow> ('a::len) word \<Rightarrow> 'a word \<Rightarrow> ('a word \<times> 'a word) option option" where
  "Divide_loop min_pieces num_pieces new_step =
     (if unat num_pieces < min_pieces
      then if new_step \<le> push_bit 1 (- 1)
           then Divide_loop min_pieces (push_bit 1 num_pieces) (push_bit 1 new_step)
           else Some None
      else Some (Some (num_pieces, new_step)))"

fun Divide_pieces :: "nat \<Rightarrow> ('a::len) word \<Rightarrow> 'a IDAllocator \<Rightarrow> 'a IDAllocator list" where
  "Divide_pieces 0 new_step piece = []"
| "Divide_pieces (Suc n) new_step piece =
     \<lparr>alloc_step = new_step, alloc_next = alloc_next piece\<rparr>
       # Divide_pieces n new_step (piece\<lparr>alloc_next := alloc_next piece + alloc_step piece\<rparr>)"

record (overloaded) 'a DivisionMapping =
  div_shift :: int
  div_mask :: "'a word"

lemma drop_bit_1_smaller: "0 < w \<Longrightarrow> unat (drop_bit 1 w) < unat (w :: 'a::len word)"
  by (simp only: unat_drop_bit_div word_less_nat_alt) simp

function mapping_shift :: "('a::len) word \<Rightarrow> int \<Rightarrow> int" where
  "mapping_shift step sh = (if 0 < step then mapping_shift (drop_bit 1 step) (sh + 1) else sh)"
  by pat_completeness auto

termination
  by (relation "measure (\<lambda>(step, _). unat step)")
     (auto simp only: in_measure split_conv intro: drop_bit_1_smaller)

declare mapping_shift.simps [simp del]

definition Divide ::
  "('a::len) IDAllocator \<Rightarrow> nat \<Rightarrow> ('a IDAllocator list \<times> 'a DivisionMapping) option option" where
  "Divide A min_pieces =
     (if \<not> CheckValid A then Some None
      else case Divide_loop min_pieces 1 (alloc_step A) of
             None \<Rightarrow> None
           | Some None \<Rightarrow> Some None
           | Some (Some (num_pieces, new_step)) \<Rightarrow>
               let first = alloc_next A AND (alloc_step A - 1);
                   piece = \<lparr>alloc_step = alloc_step A, alloc_next = first\<rparr>
               in Some (Some (Divide_pieces (unat num_pieces) new_step piece,
                    \<lparr>div_shift = mapping_shift (alloc_step A) (- 1), div_mask = num_pieces - 1\<rparr>)))"

definition DivisionMapping_apply :: "('a::len) DivisionMapping \<Rightarrow> 'a word \<Rightarrow> 'a word option" where
  "DivisionMapping_apply m ident =
     (if 0 \<le> div_shift m then Some (drop_bit (nat (div_shift m)) ident AND div_mask m) else None)"

definition Split :: "('a::len) IDAllocator \<Rightarrow> ('a IDAllocator \<times> 'a IDAllocator) option option" where
  "Split A =
     (if \<not> CheckValid A then Some None
      else case Divide A 2 of
             None \<Rightarrow> None
           | Some None \<Rightarrow> Some None
           | Some (Some (allocs, _)) \<Rightarrow>
               if length allocs = 2 then Some (Some (hd allocs, List.last allocs)) else Some None)"

section \<open>Residue classes\<close>

text \<open>The abstract view of an allocator: the exponent of its step and the residue it owns.\<close>

definition owns :: "nat \<Rightarrow> ('a::len) word \<Rightarrow> 'a word set" where
  "owns k r = {ident. take_bit k ident = r}"

lemma CheckValid_pow2:
  assumes "alloc_step (A :: ('a::len) IDAllocator) = 2 ^ k" and "k < LENGTH('a)"
  shows "CheckValid A"
proof -
  have "(2 ^ k :: 'a word) \<noteq> 0" using assms(2) by (simp add: not_le)
  then show ?thesis using assms(1) pow2_and_pred by (simp add: CheckValid_def word_gt_0)
qed

lemma CheckValid_cases:
  assumes "CheckValid (A :: ('a::len) IDAllocator)"
  obtains k where "k < LENGTH('a)" and "alloc_step A = 2 ^ k"
proof -
  have "alloc_step A \<noteq> 0" "alloc_step A AND (alloc_step A - 1) = 0"
    using assms by (auto simp only: CheckValid_def less_irrefl)
  from single_bit_pow2 [OF this] show ?thesis using that by (elim exE conjE)
qed

lemma IsSourceOf_owns:
  assumes "alloc_step (A :: ('a::len) IDAllocator) = 2 ^ k" and "k < LENGTH('a)"
  shows "IsSourceOf A ident = Some (ident \<in> owns k (take_bit k (alloc_next A)))"
  using CheckValid_pow2 [OF assms] assms(1)
  by (auto simp: IsSourceOf_def Let_def and_minus_1 owns_def)

lemma take_bit_add_pow2:
  assumes "k < LENGTH('a)"
  shows "take_bit k (w + 2 ^ k) = take_bit k (w :: 'a::len word)"
proof -
  have "(2 :: nat) ^ k dvd 2 ^ LENGTH('a)" using assms by (simp add: le_imp_power_dvd)
  then have "unat (w + 2 ^ k) mod 2 ^ k = unat w mod 2 ^ k"
    using assms by (simp add: unat_word_ariths(1) mod_mod_cancel unat_pow2)
  then show ?thesis by (simp add: word_unat_eq_iff unat_take_bit_mod)
qed

lemma IDAllocator_Next_owns:
  fixes A :: "('a::len) IDAllocator"
  assumes "IDAllocator_Next A = Some (ident, A')"
  shows "IsSourceOf A ident = Some True" and "IsSourceOf A' = IsSourceOf A"
proof -
  obtain k where k: "k < LENGTH('a)" "alloc_step A = 2 ^ k"
    using assms CheckValid_cases by (metis IDAllocator_Next_def option.distinct(1))
  have A': "ident = alloc_next A" "A' = A\<lparr>alloc_next := alloc_next A + alloc_step A\<rparr>"
    using assms by (auto simp: IDAllocator_Next_def Let_def split: if_splits)
  have "take_bit k (alloc_next A + 2 ^ k) = take_bit k (alloc_next A)"
    using k(1) by (rule take_bit_add_pow2)
  then show "IsSourceOf A' = IsSourceOf A"
    using k A'(2) by (simp add: fun_eq_iff IsSourceOf_owns)
  show "IsSourceOf A ident = Some True"
    using k A'(1) by (simp add: IsSourceOf_owns owns_def)
qed

text \<open>The identifiers of a run of \<open>n\<close> calls.\<close>

fun IDAllocator_run :: "nat \<Rightarrow> ('a::len) IDAllocator \<Rightarrow> 'a word list" where
  "IDAllocator_run 0 A = []"
| "IDAllocator_run (Suc n) A =
     (case IDAllocator_Next A of None \<Rightarrow> [] | Some (ident, A') \<Rightarrow> ident # IDAllocator_run n A')"

lemma IDAllocator_run_eq:
  assumes "CheckValid A"
  shows "IDAllocator_run n A = map (\<lambda>i. alloc_next A + of_nat i * alloc_step A) [0..<n]"
  using assms
proof (induction n arbitrary: A)
  case (Suc n)
  have "CheckValid (A\<lparr>alloc_next := alloc_next A + alloc_step A\<rparr>)"
    using Suc(2) by (simp add: CheckValid_def)
  from Suc(1) [OF this] show ?case
    using Suc(2)
    by (simp add: IDAllocator_Next_def Let_def map_upt_Suc algebra_simps del: upt_Suc)
qed simp

section \<open>Division\<close>

lemma pow2_below_assertion:
  assumes "Suc j < LENGTH('a)"
  shows "(2 ^ j :: 'a::len word) \<le> push_bit 1 (- 1)"
proof -
  have even: "(2 ^ Suc i :: 'a word) \<le> push_bit 1 (- 1)" if "Suc i < LENGTH('a)" for i
  proof -
    have "push_bit 1 (- 1) AND 2 ^ Suc i = (2 ^ Suc i :: 'a word)"
      by (rule bit_word_eqI) (auto simp: bit_simps)
    then show ?thesis by (metis word_and_le2 and.commute)
  qed
  show ?thesis
  proof (cases j)
    case 0
    have "unat (2 ^ 0 :: 'a word) \<le> unat (2 ^ Suc 0 :: 'a word)"
      using assms 0 unat_pow2 [of 0, where ?'a = 'a] unat_pow2 [of "Suc 0", where ?'a = 'a] by simp
    then show ?thesis using even [of 0] assms 0 by (simp add: word_le_nat_alt)
  next
    case (Suc i)
    then show ?thesis using even [of i] assms by simp
  qed
qed

lemma Divide_loop_eq:
  assumes "p \<le> P" and "k + P < LENGTH('a)" and "m \<le> 2 ^ P" and "\<And>q. q < P \<Longrightarrow> 2 ^ q < m"
  shows "Divide_loop m (2 ^ p) (2 ^ (k + p) :: 'a::len word) = Some (Some (2 ^ P, 2 ^ (k + P)))"
  using assms(1)
proof (induction "P - p" arbitrary: p)
  case 0
  then have "unat (2 ^ p :: 'a word) = 2 ^ P" using assms(2) unat_pow2 [of p, where ?'a = 'a] by simp
  then show ?case using 0 assms(3) by (subst Divide_loop.simps) simp
next
  case (Suc d)
  then have p: "p < P" by simp
  then have "unat (2 ^ p :: 'a word) < m"
    using assms(2,4) unat_pow2 [of p, where ?'a = 'a] by simp
  moreover have "(2 ^ (k + p) :: 'a word) \<le> push_bit 1 (- 1)"
    using p assms(2) by (intro pow2_below_assertion) simp
  moreover have "push_bit 1 (2 ^ p) = (2 ^ Suc p :: 'a word)"
    "push_bit 1 (2 ^ (k + p)) = (2 ^ (k + Suc p) :: 'a word)"
    by (simp_all add: push_bit_eq_mult)
  moreover have "Divide_loop m (2 ^ Suc p) (2 ^ (k + Suc p) :: 'a word) = Some (Some (2 ^ P, 2 ^ (k + P)))"
    using Suc(1) [of "Suc p"] Suc(2) p by simp
  ultimately show ?case by (subst Divide_loop.simps) (simp only: if_True)
qed

lemma length_Divide_pieces [simp]: "length (Divide_pieces n st piece) = n"
  by (induction n arbitrary: piece) auto

lemma nth_Divide_pieces:
  "i < n \<Longrightarrow> Divide_pieces n st piece ! i
     = \<lparr>alloc_step = st, alloc_next = alloc_next piece + of_nat i * alloc_step piece\<rparr>"
  by (induction n arbitrary: i piece) (auto simp: less_Suc_eq_0_disj algebra_simps)

lemma mapping_shift_pow2:
  "k < LENGTH('a) \<Longrightarrow> mapping_shift (2 ^ k :: 'a::len word) sh = sh + int k + 1"
proof (induction k arbitrary: sh)
  case 0
  have "(drop_bit 1 1 :: 'a word) = 0" by (rule bit_word_eqI) (auto simp: bit_simps)
  then show ?case by (simp add: mapping_shift.simps)
next
  case (Suc k)
  have "drop_bit 1 (2 ^ Suc k) = (2 ^ k :: 'a word)"
    using Suc(2) by (intro bit_word_eqI) (auto simp: bit_simps)
  moreover have "(0 :: 'a word) < 2 ^ Suc k"
    using Suc(2) by (simp only: word_gt_0) (simp add: not_le del: power_Suc)
  ultimately show ?case using Suc by (subst mapping_shift.simps) (simp del: power_Suc)
qed

text \<open>Which residue a piece owns, in terms of the low and the middle bits of an identifier.\<close>

lemma split_residue:
  fixes a b :: nat
  assumes "a < 2 ^ k" and "b < 2 ^ k"
  shows "a + 2 ^ k * i = b + 2 ^ k * j \<longleftrightarrow> a = b \<and> i = j"
proof
  assume eq: "a + 2 ^ k * i = b + 2 ^ k * j"
  have "(a + 2 ^ k * i) mod 2 ^ k = a" "(b + 2 ^ k * j) mod 2 ^ k = b" using assms by simp_all
  then show "a = b \<and> i = j" using eq by simp
qed simp

lemma owns_piece:
  fixes ident nx :: "'a::len word"
  assumes "k + P < LENGTH('a)" and "i < 2 ^ P"
  defines "r \<equiv> take_bit k nx + of_nat i * 2 ^ k"
  shows "take_bit (k + P) r = r"
    and "ident \<in> owns (k + P) r \<longleftrightarrow> ident \<in> owns k (take_bit k nx)
          \<and> unat (take_bit P (drop_bit k ident)) = i"
proof -
  note t = unat_take_bit_mod
  have lt: "unat (take_bit k nx) < 2 ^ k" unfolding t by simp
  have "unat (take_bit k nx) + 2 ^ k * i < 2 ^ k + 2 ^ k * i" using lt by simp
  also have "\<dots> = 2 ^ k * Suc i" by simp
  also have "\<dots> \<le> 2 ^ k * 2 ^ P" using assms(2) by (intro mult_le_mono) auto
  finally have b: "unat (take_bit k nx) + 2 ^ k * i < 2 ^ (k + P)" by (simp add: power_add)
  then have "unat (take_bit k nx) + 2 ^ k * i < 2 ^ LENGTH('a)"
    using assms(1) by (meson less_trans power_strict_increasing one_less_numeral_iff semiring_norm(76))
  then have "unat (of_nat (unat (take_bit k nx) + 2 ^ k * i) :: 'a word) = unat (take_bit k nx) + 2 ^ k * i"
    by (rule unat_of_nat_less)
  then have r: "unat r = unat (take_bit k nx) + 2 ^ k * i"
    by (simp add: r_def mult.commute)
  show "take_bit (k + P) r = r"
    using b r by (simp add: word_unat_eq_iff t)
  have "unat ident mod 2 ^ (k + P) = unat ident mod 2 ^ k + 2 ^ k * (unat ident div 2 ^ k mod 2 ^ P)"
    by (simp add: power_add mod_mult2_eq)
  then have "ident \<in> owns (k + P) r \<longleftrightarrow> unat ident mod 2 ^ k + 2 ^ k * (unat ident div 2 ^ k mod 2 ^ P)
      = unat (take_bit k nx) + 2 ^ k * i"
    by (simp only: owns_def mem_Collect_eq word_unat_eq_iff t r)
  also have "\<dots> \<longleftrightarrow> unat ident mod 2 ^ k = unat (take_bit k nx) \<and> unat ident div 2 ^ k mod 2 ^ P = i"
    using lt by (intro split_residue) simp_all
  finally show "ident \<in> owns (k + P) r \<longleftrightarrow> ident \<in> owns k (take_bit k nx)
          \<and> unat (take_bit P (drop_bit k ident)) = i"
    by (simp only: owns_def mem_Collect_eq word_unat_eq_iff t unat_drop_bit_div)
qed

lemma division_exponent:
  fixes m st :: nat
  assumes "0 < st" and "2 * (m * st) \<le> 2 ^ w" and "st = 2 ^ k" and "k < w"
  obtains P where "k + P < w" and "m \<le> 2 ^ P" and "\<And>q. q < P \<Longrightarrow> 2 ^ q < m"
proof
  define P where "P = (LEAST p. m \<le> 2 ^ p)"
  have "m \<le> 2 ^ m" by (simp add: less_imp_le)
  then show "m \<le> 2 ^ P" unfolding P_def by (rule LeastI)
  show below: "2 ^ q < m" if "q < P" for q
    using not_less_Least [of q "\<lambda>p. m \<le> 2 ^ p"] that by (simp add: P_def)
  show "k + P < w"
  proof (cases P)
    case (Suc q)
    have "2 ^ (k + P) = 2 * (2 ^ q * st)" by (simp add: Suc assms(3) power_add)
    also have "\<dots> < 2 * (m * st)" using below [of q] Suc assms(1) by simp
    also have "\<dots> \<le> 2 ^ w" by (rule assms(2))
    finally show ?thesis by simp
  qed (simp add: assms(4))
qed

lemma Divide_eq:
  fixes A :: "('a::len) IDAllocator"
  assumes "alloc_step A = 2 ^ k" and "k + P < LENGTH('a)" and "m \<le> 2 ^ P"
    and "\<And>q. q < P \<Longrightarrow> 2 ^ q < m"
  shows "Divide A m = Some (Some
    (map (\<lambda>i. \<lparr>alloc_step = 2 ^ (k + P), alloc_next = take_bit k (alloc_next A) + of_nat i * 2 ^ k\<rparr>)
       [0..<2 ^ P],
     \<lparr>div_shift = int k, div_mask = 2 ^ P - 1\<rparr>))"
proof -
  have "CheckValid A" using assms(2) by (intro CheckValid_pow2 [OF assms(1)]) simp
  moreover have "Divide_loop m 1 (alloc_step A) = Some (Some (2 ^ P, 2 ^ (k + P)))"
    using Divide_loop_eq [of 0 P k m] assms by simp
  moreover have "unat (2 ^ P :: 'a word) = 2 ^ P" using assms(2) by (intro unat_pow2) simp
  moreover have "mapping_shift (alloc_step A) (- 1) = int k"
    using mapping_shift_pow2 [of k "- 1", where ?'a = 'a] assms(1,2) by simp
  moreover have "Divide_pieces (2 ^ P) (2 ^ (k + P)) piece
      = map (\<lambda>i. \<lparr>alloc_step = 2 ^ (k + P), alloc_next = alloc_next piece + of_nat i * alloc_step piece\<rparr>)
          [0..<2 ^ P]" for piece :: "'a IDAllocator"
    by (rule nth_equalityI) (simp_all add: nth_Divide_pieces)
  ultimately show ?thesis
    using assms(1) by (simp add: Divide_def Let_def and_minus_1)
qed

section \<open>Properties\<close>

text \<open>
  C32. A valid allocator hands out the identifiers it is the source of, and all of them, before it
  repeats one: in a full period of \<open>2 ^ w / step\<close> calls the identifiers are pairwise different and
  are exactly those for which \<open>IsSourceOf\<close> answers true.
\<close>

theorem IDAllocator_full_period:
  fixes A :: "('a::len) IDAllocator"
  assumes "CheckValid A" and "n * unat (alloc_step A) = 2 ^ LENGTH('a)"
  shows "distinct (IDAllocator_run n A)
    \<and> set (IDAllocator_run n A) = {ident. IsSourceOf A ident = Some True}"
proof -
  obtain k where k: "k < LENGTH('a)" "alloc_step A = 2 ^ k"
    using CheckValid_cases [OF assms(1)] .
  have n: "n * 2 ^ k = 2 ^ LENGTH('a)" using assms(2) k by (simp add: unat_pow2)
  have u: "unat (of_nat i * 2 ^ k :: 'a word) = i * 2 ^ k" if "i < n" for i
  proof -
    have "i * 2 ^ k < 2 ^ LENGTH('a)" using that by (simp flip: n)
    from unat_of_nat_less [OF this] show ?thesis by simp
  qed
  have "inj_on (\<lambda>i. alloc_next A + of_nat i * alloc_step A) (set [0..<n])"
  proof (rule inj_onI)
    fix i j assume ij: "i \<in> set [0..<n]" "j \<in> set [0..<n]"
      "alloc_next A + of_nat i * alloc_step A = alloc_next A + of_nat j * alloc_step A"
    then have "i < n" "j < n" "(of_nat i * 2 ^ k :: 'a word) = of_nat j * 2 ^ k"
      by (simp_all only: k(2) add_left_cancel) simp_all
    then have "i * 2 ^ k = j * 2 ^ k" by (metis u)
    then show "i = j" by simp
  qed
  then have dist: "distinct (IDAllocator_run n A)"
    by (simp add: IDAllocator_run_eq [OF assms(1)] distinct_map)
  have "ident \<in> (\<lambda>i. alloc_next A + of_nat i * 2 ^ k) ` {0..<n} \<longleftrightarrow>
      take_bit k ident = take_bit k (alloc_next A)" for ident
  proof -
    define d where "d = ident - alloc_next A"
    have "(2 :: nat) ^ k dvd 2 ^ LENGTH('a)" using k(1) by (simp add: le_imp_power_dvd)
    then have "take_bit k ident = take_bit k (alloc_next A) \<longleftrightarrow>
        (unat (alloc_next A) + unat d) mod 2 ^ k = unat (alloc_next A) mod 2 ^ k"
      using unat_word_ariths(1) [of "alloc_next A" d]
      by (simp add: word_unat_eq_iff unat_take_bit_mod d_def mod_mod_cancel)
    also have "\<dots> \<longleftrightarrow> 2 ^ k dvd unat d"
      by (simp add: mod_eq_dvd_iff_nat)
    also have "\<dots> \<longleftrightarrow> (\<exists>i < n. d = of_nat i * 2 ^ k)"
    proof
      assume "2 ^ k dvd unat d"
      then obtain i where i: "unat d = i * 2 ^ k" by (metis dvd_def mult.commute)
      moreover have "unat d < n * 2 ^ k" unfolding n by (rule unsigned_less)
      ultimately have "i < n" by simp
      then show "\<exists>i < n. d = of_nat i * 2 ^ k"
        using i u [of i] by (metis word_unat_eq_iff)
    qed (use u in auto)
    finally show ?thesis by (auto simp: d_def algebra_simps)
  qed
  then have "set (IDAllocator_run n A) = {ident. IsSourceOf A ident = Some True}"
    by (auto simp: IDAllocator_run_eq [OF assms(1)] IsSourceOf_owns [OF k(2,1)] owns_def k(2))
  with dist show ?thesis by simp
qed

theorem IDAllocator_full_period_witness:
  "distinct (IDAllocator_run (2 ^ 62) \<lparr>alloc_step = 4 :: u64, alloc_next = 6\<rparr>)
   \<and> set (IDAllocator_run (2 ^ 62) \<lparr>alloc_step = 4 :: u64, alloc_next = 6\<rparr>)
       = {ident. IsSourceOf \<lparr>alloc_step = 4, alloc_next = 6\<rparr> ident = Some True}"
  by (rule IDAllocator_full_period) (simp_all add: CheckValid_def)

text \<open>
  C31. As long as the identifier type has room for the pieces (twice the requested number of pieces
  times the step does not exceed \<open>2 ^ w\<close>), \<open>Divide\<close> returns at least the requested number of valid
  allocators, every identifier of the divided allocator belongs to the piece the mapping names, and
  an identifier of a piece belongs to the divided allocator and is mapped to that piece: the pieces
  own disjoint classes that together make up the class of the divided allocator.
\<close>

theorem Divide_partitions:
  fixes A :: "('a::len) IDAllocator"
  assumes "CheckValid A" and "2 * (min_pieces * unat (alloc_step A)) \<le> 2 ^ LENGTH('a)"
  shows "\<exists>pieces mapping. Divide A min_pieces = Some (Some (pieces, mapping))
    \<and> min_pieces \<le> length pieces
    \<and> (\<forall>piece \<in> set pieces. CheckValid piece)
    \<and> (\<forall>ident i. i < length pieces \<longrightarrow>
         (IsSourceOf (pieces ! i) ident = Some True \<longleftrightarrow>
            IsSourceOf A ident = Some True
            \<and> map_option unat (DivisionMapping_apply mapping ident) = Some i))
    \<and> (\<forall>ident. \<exists>i < length pieces. map_option unat (DivisionMapping_apply mapping ident) = Some i)"
proof -
  obtain k where k: "k < LENGTH('a)" "alloc_step A = 2 ^ k"
    using CheckValid_cases [OF assms(1)] .
  obtain P where P: "k + P < LENGTH('a)" "min_pieces \<le> 2 ^ P" "\<And>q. q < P \<Longrightarrow> 2 ^ q < min_pieces"
    using division_exponent [of "2 ^ k" min_pieces "LENGTH('a)" k] assms(2) k by (auto simp: unat_pow2)
  let ?piece = "\<lambda>i. \<lparr>alloc_step = 2 ^ (k + P), alloc_next = take_bit k (alloc_next A) + of_nat i * 2 ^ k\<rparr>"
  let ?m = "\<lparr>div_shift = int k, div_mask = 2 ^ P - 1\<rparr> :: 'a DivisionMapping"
  have D: "Divide A min_pieces = Some (Some (map ?piece [0..<2 ^ P], ?m))"
    by (rule Divide_eq [OF k(2) P])
  have apply_m: "DivisionMapping_apply ?m ident = Some (take_bit P (drop_bit k ident))" for ident
    by (simp add: DivisionMapping_apply_def and_minus_1)
  have "IsSourceOf (?piece i) ident = Some True \<longleftrightarrow>
      IsSourceOf A ident = Some True \<and> unat (take_bit P (drop_bit k ident)) = i"
    if "i < 2 ^ P" for i ident
    using that owns_piece(1) [OF P(1) that, of "alloc_next A"]
      owns_piece(2) [OF P(1) that, of ident "alloc_next A"]
    by (simp add: IsSourceOf_owns [OF _ P(1)] IsSourceOf_owns [OF k(2,1)])
  moreover have "CheckValid (?piece i)" for i
    by (rule CheckValid_pow2 [OF _ P(1)]) simp
  moreover have "unat (take_bit P (drop_bit k ident)) < 2 ^ P" for ident :: "'a word"
    by (simp add: unat_take_bit_mod)
  ultimately show ?thesis
    using P(2) by (intro exI [of _ "map ?piece [0..<2 ^ P]"] exI [of _ ?m]) (auto simp: D apply_m)
qed

theorem Divide_partitions_witness:
  "\<exists>pieces mapping. Divide (IDAllocator_default :: 64 IDAllocator) 3 = Some (Some (pieces, mapping))
    \<and> 3 \<le> length pieces \<and> (\<forall>piece \<in> set pieces. CheckValid piece)"
  using Divide_partitions [of "IDAllocator_default :: 64 IDAllocator" 3]
  by (auto simp: IDAllocator_default_def CheckValid_def)



end
