(* ===== verification/Maps.thy ===== *)
theory Maps
  imports Prelude "HOL-Library.AList"
begin

text \<open>
  \<open>std::unordered_map\<close>: an association list with at most one entry per key, in the (unspecified)
  iteration order of the container. \<open>umap_set\<close> is \<open>m[k] = v\<close>, \<open>umap_emplace\<close> keeps an entry that
  is already there, \<open>umap_erase\<close> is \<open>erase(k)\<close>. No theorem depends on the order chosen.
\<close>

type_synonym ('k, 'v) umap = "('k \<times> 'v) list"

abbreviation umap_find :: "('k, 'v) umap \<Rightarrow> 'k \<Rightarrow> 'v option" where
  "umap_find m k \<equiv> map_of m k"

definition umap_wf :: "('k, 'v) umap \<Rightarrow> bool" where
  "umap_wf m \<longleftrightarrow> distinct (map fst m)"

definition umap_set :: "('k, 'v) umap \<Rightarrow> 'k \<Rightarrow> 'v \<Rightarrow> ('k, 'v) umap" where
  "umap_set m k v = AList.update k v m"

definition umap_emplace :: "('k, 'v) umap \<Rightarrow> 'k \<Rightarrow> 'v \<Rightarrow> ('k, 'v) umap" where
  "umap_emplace m k v = (case umap_find m k of None \<Rightarrow> m @ [(k, v)] | Some _ \<Rightarrow> m)"

definition umap_erase :: "('k, 'v) umap \<Rightarrow> 'k \<Rightarrow> ('k, 'v) umap" where
  "umap_erase m k = AList.delete k m"

lemma umap_wf_Nil [simp]: "umap_wf []"
  by (simp add: umap_wf_def)

lemma umap_find_set [simp]:
  "umap_find (umap_set m k v) k' = (if k' = k then Some v else umap_find m k')"
  by (simp add: umap_set_def update_conv)

lemma umap_find_erase [simp]:
  "umap_find (umap_erase m k) k' = (if k' = k then None else umap_find m k')"
  by (simp add: umap_erase_def delete_conv)

lemma umap_find_emplace [simp]:
  "umap_find (umap_emplace m k v) k' =
     (if k' = k \<and> umap_find m k = None then Some v else umap_find m k')"
  by (auto simp: umap_emplace_def map_add_Some_iff map_add_def split: option.splits)

lemma umap_wf_set [simp]: "umap_wf m \<Longrightarrow> umap_wf (umap_set m k v)"
  by (simp add: umap_wf_def umap_set_def distinct_update)

lemma umap_wf_erase [simp]: "umap_wf m \<Longrightarrow> umap_wf (umap_erase m k)"
  by (simp add: umap_wf_def umap_erase_def distinct_delete)

lemma umap_wf_emplace [simp]: "umap_wf m \<Longrightarrow> umap_wf (umap_emplace m k v)"
  by (auto simp: umap_wf_def umap_emplace_def map_of_eq_None_iff split: option.splits)

lemma umap_find_None: "umap_find m k = None \<longleftrightarrow> k \<notin> fst ` set m"
  by (rule map_of_eq_None_iff)

lemma umap_in_set: "umap_wf m \<Longrightarrow> (k, v) \<in> set m \<longleftrightarrow> umap_find m k = Some v"
  by (simp add: umap_wf_def)

lemma umap_empty_iff: "m = [] \<longleftrightarrow> (\<forall>k. umap_find m k = None)"
  by (auto simp: umap_find_None)

lemma length_umap_set:
  "umap_find m k = None \<Longrightarrow> length (umap_set m k v) = Suc (length m)"
  "umap_find m k \<noteq> None \<Longrightarrow> length (umap_set m k v) = length m"
  by (induction m) (auto simp: umap_set_def split: if_splits)

lemma length_umap_erase:
  "umap_wf m \<Longrightarrow> umap_find m k = Some v \<Longrightarrow> length m = Suc (length (umap_erase m k))"
proof (induction m)
  case (Cons e m)
  have "fst e \<notin> fst ` set m" "umap_wf m" using Cons(2) by (auto simp: umap_wf_def)
  then show ?case
    using Cons by (cases e) (auto simp: umap_erase_def delete_idem split: if_splits)
qed simp

text \<open>The sum of a measure over the values of a map.\<close>

definition umap_sum :: "('v \<Rightarrow> nat) \<Rightarrow> ('k, 'v) umap \<Rightarrow> nat" where
  "umap_sum f m = sum_list (map (f \<circ> snd) m)"

lemma umap_sum_Nil [simp]: "umap_sum f [] = 0"
  by (simp add: umap_sum_def)

lemma umap_sum_set:
  "umap_wf m \<Longrightarrow> umap_sum f (umap_set m k v) + (case umap_find m k of None \<Rightarrow> 0 | Some u \<Rightarrow> f u) = umap_sum f m + f v"
proof (induction m)
  case (Cons e m)
  obtain k' u where e: "e = (k', u)" by (cases e)
  have wf: "umap_wf m" "umap_find m k' = None" using Cons(2) e by (auto simp: umap_wf_def map_of_eq_None_iff)
  show ?case using Cons(1) [OF wf(1)] wf(2) e by (auto simp: umap_sum_def umap_set_def split: option.splits)
qed (simp add: umap_sum_def umap_set_def)

lemma umap_sum_erase:
  "umap_wf m \<Longrightarrow> umap_sum f (umap_erase m k) + (case umap_find m k of None \<Rightarrow> 0 | Some u \<Rightarrow> f u) = umap_sum f m"
proof (induction m)
  case (Cons e m)
  obtain k' u where e: "e = (k', u)" by (cases e)
  have wf: "umap_wf m" "umap_find m k' = None" using Cons(2) e by (auto simp: umap_wf_def map_of_eq_None_iff)
  then have "AList.delete k' m = m" by (simp add: delete_idem umap_find_None)
  then show ?case
    using Cons(1) [OF wf(1)] wf(2) e by (auto simp: umap_sum_def umap_erase_def split: option.splits)
qed (simp add: umap_sum_def umap_erase_def)

lemma umap_sum_find: "umap_find m k = Some v \<Longrightarrow> f v \<le> umap_sum f m"
  by (induction m) (auto simp: umap_sum_def split: if_splits)

lemma umap_sum_keys:
  assumes "umap_wf m" and "distinct ks" and "set ks = fst ` set m"
  shows "sum_list (map (\<lambda>k. case umap_find m k of None \<Rightarrow> 0 | Some v \<Rightarrow> f v) ks) = umap_sum f m"
proof -
  let ?g = "\<lambda>k. case umap_find m k of None \<Rightarrow> 0 | Some v \<Rightarrow> f v"
  have "umap_sum f m = sum_list (map ?g (map fst m))"
    unfolding umap_sum_def map_map
    using assms(1) by (intro arg_cong [of _ _ sum_list] map_cong) (auto simp: umap_wf_def)
  also have "\<dots> = sum ?g (fst ` set m)"
    using assms(1) unfolding umap_wf_def by (subst sum_list_distinct_conv_sum_set) simp_all
  finally show ?thesis using assms(2,3) by (simp add: sum_list_distinct_conv_sum_set)
qed

end
