(* ===== verification/LinkedMap.thy ===== *)
theory LinkedMap
  imports Maps "HOL-Library.Multiset"
begin

text \<open>
  \<open>src/util/common/linked_map.h\<close>: \<open>LinkedBase\<close>, the container behind \<open>LinkedMap\<close> and \<open>LinkedSet\<close>:
  a doubly-linked list of nodes with a hash index from keys to list iterators. Nodes keep their
  identity (a number, standing for their address) when they move, and an iterator is that identity,
  \<open>None\<close> being \<open>end()\<close>. The operations are shown to keep list and index consistent and to implement
  those of a plain list without repeated keys.
\<close>

section \<open>The container\<close>

record ('k, 'n) LinkedBase =
  linked_list :: "(nat \<times> 'n) list"
  linked_index :: "('k, nat) umap"
  linked_fresh :: nat

type_synonym iterator = "nat option"

definition linked_new :: "('k, 'n) LinkedBase" where
  "linked_new = \<lparr>linked_list = [], linked_index = [], linked_fresh = 0\<rparr>"

text \<open>The operations of \<open>std::list\<close> on iterators: insertion before a position and erasure.\<close>

fun list_insert :: "iterator \<Rightarrow> nat \<times> 'n \<Rightarrow> (nat \<times> 'n) list \<Rightarrow> (nat \<times> 'n) list" where
  "list_insert pos x [] = [x]"
| "list_insert pos x (y # ys) = (if pos = Some (fst y) then x # y # ys else y # list_insert pos x ys)"

fun list_erase :: "nat \<Rightarrow> (nat \<times> 'n) list \<Rightarrow> (nat \<times> 'n) list" where
  "list_erase n [] = []"
| "list_erase n (y # ys) = (if fst y = n then ys else y # list_erase n ys)"

fun list_next :: "nat \<Rightarrow> (nat \<times> 'n) list \<Rightarrow> iterator" where
  "list_next n [] = None"
| "list_next n (y # ys) =
     (if fst y = n then (case ys of [] \<Rightarrow> None | z # _ \<Rightarrow> Some (fst z)) else list_next n ys)"

definition linked_begin :: "('k, 'n) LinkedBase \<Rightarrow> iterator" where
  "linked_begin L = (case linked_list L of [] \<Rightarrow> None | y # _ \<Rightarrow> Some (fst y))"

definition linked_find :: "('k, 'n) LinkedBase \<Rightarrow> 'k \<Rightarrow> iterator" where
  "linked_find L k = (case umap_find (linked_index L) k of None \<Rightarrow> None | Some it \<Rightarrow> Some it)"

definition linked_contains :: "('k, 'n) LinkedBase \<Rightarrow> 'k \<Rightarrow> bool" where
  "linked_contains L k \<longleftrightarrow> umap_find (linked_index L) k \<noteq> None"

definition linked_clear :: "('k, 'n) LinkedBase \<Rightarrow> ('k, 'n) LinkedBase" where
  "linked_clear L = L\<lparr>linked_list := [], linked_index := []\<rparr>"

text \<open>
  \<open>emplace\<close> builds the node in the list first and takes it out again when the index already has an
  entry for its key. \<open>nk\<close> is \<open>node_to_key\<close>.
\<close>

definition linked_emplace ::
  "('n \<Rightarrow> 'k) \<Rightarrow> iterator \<Rightarrow> 'n \<Rightarrow> ('k, 'n) LinkedBase \<Rightarrow> (nat \<times> bool) \<times> ('k, 'n) LinkedBase" where
  "linked_emplace nk pos node L =
     (let it = linked_fresh L;
          list' = list_insert pos (it, node) (linked_list L)
      in case umap_find (linked_index L) (nk node) of
           None \<Rightarrow> ((it, True), L\<lparr>linked_list := list',
             linked_index := umap_emplace (linked_index L) (nk node) it, linked_fresh := it + 1\<rparr>)
         | Some old \<Rightarrow> ((old, False), L\<lparr>linked_list := list_erase it list', linked_fresh := it + 1\<rparr>))"

definition linked_emplace_front ::
  "('n \<Rightarrow> 'k) \<Rightarrow> 'n \<Rightarrow> ('k, 'n) LinkedBase \<Rightarrow> (nat \<times> bool) \<times> ('k, 'n) LinkedBase" where
  "linked_emplace_front nk node L = linked_emplace nk (linked_begin L) node L"

definition linked_emplace_back ::
  "('n \<Rightarrow> 'k) \<Rightarrow> 'n \<Rightarrow> ('k, 'n) LinkedBase \<Rightarrow> (nat \<times> bool) \<times> ('k, 'n) LinkedBase" where
  "linked_emplace_back nk node L = linked_emplace nk None node L"

text \<open>
  Erasure by iterator returns the iterator that follows. Erasing an iterator that does not point
  into the list is undefined in C++; the model leaves the container alone.
\<close>

definition linked_erase_it ::
  "('n \<Rightarrow> 'k) \<Rightarrow> nat \<Rightarrow> ('k, 'n) LinkedBase \<Rightarrow> iterator \<times> ('k, 'n) LinkedBase" where
  "linked_erase_it nk pos L =
     (case map_of (linked_list L) pos of
        None \<Rightarrow> (None, L)
      | Some node \<Rightarrow> (list_next pos (linked_list L),
          L\<lparr>linked_index := umap_erase (linked_index L) (nk node),
            linked_list := list_erase pos (linked_list L)\<rparr>))"

definition linked_erase :: "'k \<Rightarrow> ('k, 'n) LinkedBase \<Rightarrow> bool \<times> ('k, 'n) LinkedBase" where
  "linked_erase k L =
     (case umap_find (linked_index L) k of
        None \<Rightarrow> (False, L)
      | Some it \<Rightarrow> (True, L\<lparr>linked_list := list_erase it (linked_list L),
          linked_index := umap_erase (linked_index L) k\<rparr>))"

definition linked_pop_front :: "('n \<Rightarrow> 'k) \<Rightarrow> ('k, 'n) LinkedBase \<Rightarrow> ('k, 'n) LinkedBase option" where
  "linked_pop_front nk L =
     (case linked_begin L of
        None \<Rightarrow> None
      | Some it \<Rightarrow> Some (snd (linked_erase_it nk it L)))"

definition linked_pop_back :: "('n \<Rightarrow> 'k) \<Rightarrow> ('k, 'n) LinkedBase \<Rightarrow> ('k, 'n) LinkedBase option" where
  "linked_pop_back nk L =
     (if linked_list L = [] then None
      else Some (snd (linked_erase_it nk (fst (List.last (linked_list L))) L)))"

text \<open>\<open>move_to\<close> splices a node to another position; before itself it is left where it is.\<close>

definition linked_move_to :: "nat \<Rightarrow> iterator \<Rightarrow> ('k, 'n) LinkedBase \<Rightarrow> ('k, 'n) LinkedBase" where
  "linked_move_to it pos L =
     (case map_of (linked_list L) it of
        None \<Rightarrow> L
      | Some node \<Rightarrow>
          if pos = Some it then L
          else L\<lparr>linked_list := list_insert pos (it, node) (list_erase it (linked_list L))\<rparr>)"

definition linked_move_to_front :: "nat \<Rightarrow> ('k, 'n) LinkedBase \<Rightarrow> ('k, 'n) LinkedBase" where
  "linked_move_to_front it L = linked_move_to it (linked_begin L) L"

definition linked_move_to_back :: "nat \<Rightarrow> ('k, 'n) LinkedBase \<Rightarrow> ('k, 'n) LinkedBase" where
  "linked_move_to_back it L = linked_move_to it None L"

text \<open>Assignment through an iterator (\<open>it->second = v\<close>).\<close>

definition linked_assign :: "nat \<Rightarrow> ('n \<Rightarrow> 'n) \<Rightarrow> ('k, 'n) LinkedBase \<Rightarrow> ('k, 'n) LinkedBase" where
  "linked_assign it f L =
     L\<lparr>linked_list := map (\<lambda>(n, x). (n, if n = it then f x else x)) (linked_list L)\<rparr>"

section \<open>Consistency of list and index\<close>

definition linked_inv :: "('n \<Rightarrow> 'k) \<Rightarrow> ('k, 'n) LinkedBase \<Rightarrow> bool" where
  "linked_inv nk L \<longleftrightarrow>
     distinct (map fst (linked_list L))
     \<and> distinct (map (nk \<circ> snd) (linked_list L))
     \<and> (\<forall>n \<in> fst ` set (linked_list L). n < linked_fresh L)
     \<and> umap_wf (linked_index L)
     \<and> (\<forall>k n. umap_find (linked_index L) k = Some n \<longleftrightarrow> (\<exists>x. (n, x) \<in> set (linked_list L) \<and> nk x = k))"

text \<open>The abstract value: the nodes in list order.\<close>

definition linked_abs :: "('k, 'n) LinkedBase \<Rightarrow> 'n list" where
  "linked_abs L = map snd (linked_list L)"

lemma linked_inv_new [simp]: "linked_inv nk linked_new"
  by (simp add: linked_inv_def linked_new_def)

lemma linked_abs_new [simp]: "linked_abs linked_new = []"
  by (simp add: linked_abs_def linked_new_def)

lemma set_list_insert [simp]: "set (list_insert pos x xs) = insert x (set xs)"
  by (induction xs) auto

lemma distinct_list_insert [simp]:
  "distinct (map f (list_insert pos x xs)) \<longleftrightarrow> f x \<notin> f ` set xs \<and> distinct (map f xs)"
  by (induction xs) auto

lemma list_insert_end [simp]: "list_insert None x xs = xs @ [x]"
  by (induction xs) auto

lemma list_insert_begin [simp]:
  "list_insert (case xs of [] \<Rightarrow> None | y # _ \<Rightarrow> Some (fst y)) x xs = x # xs"
  by (cases xs) auto

lemma list_erase_filter:
  "distinct (map fst xs) \<Longrightarrow> list_erase n xs = filter (\<lambda>y. fst y \<noteq> n) xs"
proof (induction xs)
  case (Cons y ys)
  have "filter (\<lambda>z. fst z \<noteq> fst y) ys = ys"
    using Cons(2) by (auto simp: filter_id_conv image_iff)
  then show ?case using Cons by auto
qed simp

lemma list_erase_insert [simp]:
  "n \<notin> fst ` set xs \<Longrightarrow> list_erase n (list_insert pos (n, x) xs) = xs"
  by (induction xs) auto

text \<open>Erasing the node of a key is erasing the key from the abstract list.\<close>

lemma filter_node_key:
  assumes "distinct (map fst xs)" and "distinct (map (nk \<circ> snd) xs)" and "(n, x) \<in> set xs"
  shows "map snd (filter (\<lambda>y. fst y \<noteq> n) xs) = filter (\<lambda>y. nk y \<noteq> nk x) (map snd xs)"
proof -
  have "fst y \<noteq> n \<longleftrightarrow> nk (snd y) \<noteq> nk x" if "y \<in> set xs" for y
  proof -
    have "inj_on fst (set xs)" "inj_on (nk \<circ> snd) (set xs)"
      using assms(1,2) by (simp_all add: distinct_map)
    then show ?thesis
      using that assms(3) by (metis comp_apply fst_conv inj_on_def snd_conv)
  qed
  then show ?thesis by (simp add: filter_map comp_def cong: filter_cong)
qed

lemma linked_inv_keys:
  assumes "linked_inv nk L"
  shows "umap_find (linked_index L) k = None \<longleftrightarrow> k \<notin> nk ` set (linked_abs L)"
proof -
  have "umap_find (linked_index L) k = None \<longleftrightarrow> (\<forall>n. umap_find (linked_index L) k \<noteq> Some n)"
    by auto
  also have "\<dots> \<longleftrightarrow> \<not> (\<exists>n x. (n, x) \<in> set (linked_list L) \<and> nk x = k)"
    using assms by (simp add: linked_inv_def)
  finally show ?thesis by (force simp: linked_abs_def)
qed

lemma linked_inv_node:
  assumes "linked_inv nk L" and "(n, x) \<in> set (linked_list L)"
  shows "map_of (linked_list L) n = Some x" and "umap_find (linked_index L) (nk x) = Some n"
    and "map snd (list_erase n (linked_list L)) = filter (\<lambda>y. nk y \<noteq> nk x) (linked_abs L)"
    and "distinct (map nk (linked_abs L))"
  using assms filter_node_key [of "linked_list L" nk n x]
  by (auto simp: linked_inv_def linked_abs_def list_erase_filter)

lemma linked_find_node:
  assumes "linked_inv nk L" and "umap_find (linked_index L) k = Some n"
  obtains x where "(n, x) \<in> set (linked_list L)" and "nk x = k"
  using assms unfolding linked_inv_def by blast

lemma linked_inv_same_node:
  assumes "linked_inv nk L" and "(n, x) \<in> set (linked_list L)" and "(m, y) \<in> set (linked_list L)"
  shows "n = m \<longleftrightarrow> nk x = nk y" and "n = m \<Longrightarrow> x = y"
proof -
  have "inj_on fst (set (linked_list L))" "inj_on (nk \<circ> snd) (set (linked_list L))"
    using assms(1) by (simp_all add: linked_inv_def distinct_map)
  then show "n = m \<longleftrightarrow> nk x = nk y" "n = m \<Longrightarrow> x = y"
    using assms(2,3) by (metis (mono_tags, lifting) comp_apply fst_conv inj_onD snd_conv)+
qed

lemma linked_inv_erase:
  assumes "linked_inv nk L" and "(n, x) \<in> set (linked_list L)"
  shows "linked_inv nk (L\<lparr>linked_list := list_erase n (linked_list L),
    linked_index := umap_erase (linked_index L) (nk x)\<rparr>)"
proof -
  have same: "m = n \<longleftrightarrow> nk y = nk x" if "(m, y) \<in> set (linked_list L)" for m y
    using linked_inv_same_node(1) [OF assms(1) that assms(2)] .
  have "umap_find (linked_index L) k = Some m \<longleftrightarrow> (\<exists>y. (m, y) \<in> set (linked_list L) \<and> nk y = k)" for k m
    using assms(1) by (simp add: linked_inv_def)
  then show ?thesis
    using assms(1) same by (auto simp: linked_inv_def list_erase_filter distinct_map_filter)
qed

section \<open>The operations refine those of a list\<close>

lemma linked_contains_abs:
  "linked_inv nk L \<Longrightarrow> linked_contains L k \<longleftrightarrow> k \<in> nk ` set (linked_abs L)"
  using linked_inv_keys [of nk L k] by (simp add: linked_contains_def)

lemma linked_emplace_duplicate:
  assumes "linked_inv nk L" and "nk x \<in> nk ` set (linked_abs L)"
  shows "\<exists>n. linked_emplace nk pos x L = ((n, False), L\<lparr>linked_fresh := linked_fresh L + 1\<rparr>)"
proof -
  obtain old where "umap_find (linked_index L) (nk x) = Some old"
    using linked_inv_keys [OF assms(1)] assms(2) by auto
  moreover have "linked_fresh L \<notin> fst ` set (linked_list L)"
    using assms(1) unfolding linked_inv_def by blast
  ultimately show ?thesis
    by (auto simp: linked_emplace_def Let_def image_iff)
qed

lemma linked_inv_fresh: "linked_inv nk L \<Longrightarrow> linked_inv nk (L\<lparr>linked_fresh := linked_fresh L + 1\<rparr>)"
  by (auto simp: linked_inv_def less_Suc_eq)

lemma linked_emplace_new:
  assumes "linked_inv nk L" and "nk x \<notin> nk ` set (linked_abs L)"
  shows "\<exists>L'. linked_emplace nk pos x L = ((linked_fresh L, True), L') \<and> linked_inv nk L'
    \<and> linked_list L' = list_insert pos (linked_fresh L, x) (linked_list L)"
proof -
  have none: "umap_find (linked_index L) (nk x) = None"
    using linked_inv_keys [OF assms(1)] assms(2) by simp
  have fresh: "linked_fresh L \<notin> fst ` set (linked_list L)"
    using assms(1) unfolding linked_inv_def by blast
  have keys: "nk x \<notin> (nk \<circ> snd) ` set (linked_list L)"
    using assms(2) by (auto simp: linked_abs_def image_iff)
  have "linked_inv nk (L\<lparr>linked_list := list_insert pos (linked_fresh L, x) (linked_list L),
      linked_index := umap_emplace (linked_index L) (nk x) (linked_fresh L),
      linked_fresh := linked_fresh L + 1\<rparr>)"
    using assms(1) fresh keys none unfolding linked_inv_def
    by (auto simp: image_iff less_Suc_eq)
  then show ?thesis using none by (simp add: linked_emplace_def Let_def)
qed

lemma linked_erase_refines:
  assumes "linked_inv nk L"
  shows "\<exists>L'. linked_erase k L = (k \<in> nk ` set (linked_abs L), L') \<and> linked_inv nk L'
    \<and> linked_abs L' = filter (\<lambda>y. nk y \<noteq> k) (linked_abs L)"
proof (cases "umap_find (linked_index L) k")
  case None
  then have "k \<notin> nk ` set (linked_abs L)" using linked_inv_keys [OF assms] by simp
  moreover from this have "filter (\<lambda>y. nk y \<noteq> k) (linked_abs L) = linked_abs L"
    by (auto simp: filter_id_conv)
  ultimately show ?thesis using None assms by (simp add: linked_erase_def)
next
  case (Some n)
  obtain x where x: "(n, x) \<in> set (linked_list L)" "nk x = k"
    using linked_find_node [OF assms Some] .
  have "k \<in> nk ` set (linked_abs L)" using x by (force simp: linked_abs_def)
  moreover have "linked_inv nk (L\<lparr>linked_list := list_erase n (linked_list L),
      linked_index := umap_erase (linked_index L) k\<rparr>)"
    using linked_inv_erase [OF assms x(1)] x(2) by simp
  ultimately show ?thesis
    using Some x linked_inv_node(3) [OF assms x(1)] by (simp add: linked_erase_def linked_abs_def)
qed

lemma linked_erase_it_refines:
  assumes "linked_inv nk L" and "(n, x) \<in> set (linked_list L)"
  shows "\<exists>L'. linked_erase_it nk n L = (list_next n (linked_list L), L') \<and> linked_inv nk L'
    \<and> linked_list L' = list_erase n (linked_list L)
    \<and> linked_abs L' = filter (\<lambda>y. nk y \<noteq> nk x) (linked_abs L)"
proof -
  have "linked_inv nk (L\<lparr>linked_index := umap_erase (linked_index L) (nk x),
      linked_list := list_erase n (linked_list L)\<rparr>)"
    using linked_inv_erase [OF assms] by (simp add: linked_inv_def)
  then show ?thesis
    using linked_inv_node(1,3) [OF assms] by (simp add: linked_erase_it_def linked_abs_def)
qed

lemma linked_inv_permute:
  assumes "linked_inv nk L" and "mset l = mset (linked_list L)"
  shows "linked_inv nk (L\<lparr>linked_list := l\<rparr>)"
proof -
  have "set l = set (linked_list L)" using assms(2) by (rule mset_eq_setD)
  moreover have "distinct (map fst l) \<longleftrightarrow> distinct (map fst (linked_list L))"
    "distinct (map (nk \<circ> snd) l) \<longleftrightarrow> distinct (map (nk \<circ> snd) (linked_list L))"
    using assms(2) by (auto intro!: mset_eq_imp_distinct_iff)
  ultimately show ?thesis using assms(1) by (simp add: linked_inv_def)
qed

lemma mset_list_insert [simp]: "mset (list_insert pos x xs) = add_mset x (mset xs)"
  by (induction xs) auto

lemma mset_list_erase:
  "(n, x) \<in> set xs \<Longrightarrow> distinct (map fst xs) \<Longrightarrow> add_mset (n, x) (mset (list_erase n xs)) = mset xs"
  by (induction xs) (auto simp: rev_image_eqI)

lemma linked_move_to_back_refines:
  assumes "linked_inv nk L" and "(n, x) \<in> set (linked_list L)"
  shows "linked_inv nk (linked_move_to_back n L)"
    and "linked_abs (linked_move_to_back n L) = filter (\<lambda>y. nk y \<noteq> nk x) (linked_abs L) @ [x]"
proof -
  have d: "distinct (map fst (linked_list L))" using assms(1) by (simp add: linked_inv_def)
  show "linked_inv nk (linked_move_to_back n L)"
    using linked_inv_node(1) [OF assms] mset_list_erase [OF assms(2) d]
    by (auto simp: linked_move_to_back_def linked_move_to_def intro!: linked_inv_permute [OF assms(1)])
  show "linked_abs (linked_move_to_back n L) = filter (\<lambda>y. nk y \<noteq> nk x) (linked_abs L) @ [x]"
    using linked_inv_node(1,3) [OF assms]
    by (simp add: linked_move_to_back_def linked_move_to_def linked_abs_def)
qed

lemma linked_assign_refines:
  assumes "linked_inv nk L" and "(n, x) \<in> set (linked_list L)" and "nk (f x) = nk x"
  shows "linked_inv nk (linked_assign n f L)"
    and "(n, f x) \<in> set (linked_list (linked_assign n f L))"
    and "linked_abs (linked_assign n f L)
      = map (\<lambda>y. if nk y = nk x then f y else y) (linked_abs L)"
proof -
  have same: "m = n \<longleftrightarrow> nk y = nk x" "m = n \<Longrightarrow> y = x" if "(m, y) \<in> set (linked_list L)" for m y
    using linked_inv_same_node [OF assms(1) that assms(2)] by auto
  have key: "nk (if m = n then f y else y) = nk y" if "(m, y) \<in> set (linked_list L)" for m y
    using same [OF that] assms(3) by auto
  then have "map (nk \<circ> snd) (linked_list (linked_assign n f L)) = map (nk \<circ> snd) (linked_list L)"
    by (auto simp: linked_assign_def)
  moreover have "map fst (linked_list (linked_assign n f L)) = map fst (linked_list L)"
    by (auto simp: linked_assign_def)
  moreover have "(\<exists>y. (m, y) \<in> set (linked_list (linked_assign n f L)) \<and> nk y = k)
      \<longleftrightarrow> (\<exists>y. (m, y) \<in> set (linked_list L) \<and> nk y = k)" for m k
    using key by (force simp: linked_assign_def)
  moreover have "linked_index (linked_assign n f L) = linked_index L"
    "linked_fresh (linked_assign n f L) = linked_fresh L"
    by (simp_all add: linked_assign_def)
  moreover have "fst ` set (linked_list (linked_assign n f L)) = fst ` set (linked_list L)"
    by (force simp: linked_assign_def)
  ultimately show "linked_inv nk (linked_assign n f L)"
    using assms(1) unfolding linked_inv_def by metis
  show "(n, f x) \<in> set (linked_list (linked_assign n f L))"
    using assms(2) by (force simp: linked_assign_def)
  show "linked_abs (linked_assign n f L) = map (\<lambda>y. if nk y = nk x then f y else y) (linked_abs L)"
    using same(1) by (auto simp: linked_assign_def linked_abs_def)
qed

lemma linked_move_to_front_refines:
  assumes "linked_inv nk L" and "(n, x) \<in> set (linked_list L)"
  shows "linked_inv nk (linked_move_to_front n L)"
    and "linked_abs (linked_move_to_front n L) = x # filter (\<lambda>y. nk y \<noteq> nk x) (linked_abs L)"
proof -
  have d: "distinct (map fst (linked_list L))" using assms(1) by (simp add: linked_inv_def)
  obtain y ys where L: "linked_list L = y # ys" using assms(2) by (cases "linked_list L") auto
  have list': "linked_move_to_front n L
      = L\<lparr>linked_list := (n, x) # list_erase n (linked_list L)\<rparr>"
    using linked_inv_node(1) [OF assms] L
    by (cases y) (auto simp: linked_move_to_front_def linked_move_to_def linked_begin_def split: if_splits)
  show "linked_inv nk (linked_move_to_front n L)"
    unfolding list' using mset_list_erase [OF assms(2) d] by (intro linked_inv_permute [OF assms(1)]) simp
  show "linked_abs (linked_move_to_front n L) = x # filter (\<lambda>y. nk y \<noteq> nk x) (linked_abs L)"
    unfolding list' using linked_inv_node(3) [OF assms] by (simp add: linked_abs_def)
qed

lemma list_erase_last:
  "n \<notin> fst ` set xs \<Longrightarrow> list_erase n (xs @ [(n, x)]) = xs"
  by (induction xs) auto

section \<open>Sequences of operations\<close>

text \<open>
  The operations a client calls, with \<open>move_to_back(find(k))\<close> and \<open>move_to_front(find(k))\<close> as the
  clients of the container use them; \<open>None\<close> is the failed assertion of a pop on an empty container.
\<close>

datatype ('k, 'n) linked_op =
    Emplace_back 'n | Emplace_front 'n | Erase 'k | Pop_front | Pop_back
  | Move_back 'k | Move_front 'k | Clear

fun linked_exec ::
  "('n \<Rightarrow> 'k) \<Rightarrow> ('k, 'n) linked_op \<Rightarrow> ('k, 'n) LinkedBase \<Rightarrow> ('k, 'n) LinkedBase option" where
  "linked_exec nk (Emplace_back x) L = Some (snd (linked_emplace_back nk x L))"
| "linked_exec nk (Emplace_front x) L = Some (snd (linked_emplace_front nk x L))"
| "linked_exec nk (Erase k) L = Some (snd (linked_erase k L))"
| "linked_exec nk Pop_front L = linked_pop_front nk L"
| "linked_exec nk Pop_back L = linked_pop_back nk L"
| "linked_exec nk (Move_back k) L =
     Some (case linked_find L k of None \<Rightarrow> L | Some it \<Rightarrow> linked_move_to_back it L)"
| "linked_exec nk (Move_front k) L =
     Some (case linked_find L k of None \<Rightarrow> L | Some it \<Rightarrow> linked_move_to_front it L)"
| "linked_exec nk Clear L = Some (linked_clear L)"

text \<open>The same operations on a list without repeated keys.\<close>

fun dict_exec :: "('n \<Rightarrow> 'k) \<Rightarrow> ('k, 'n) linked_op \<Rightarrow> 'n list \<Rightarrow> 'n list option" where
  "dict_exec nk (Emplace_back x) xs = Some (if nk x \<in> nk ` set xs then xs else xs @ [x])"
| "dict_exec nk (Emplace_front x) xs = Some (if nk x \<in> nk ` set xs then xs else x # xs)"
| "dict_exec nk (Erase k) xs = Some (filter (\<lambda>y. nk y \<noteq> k) xs)"
| "dict_exec nk Pop_front xs = (if xs = [] then None else Some (tl xs))"
| "dict_exec nk Pop_back xs = (if xs = [] then None else Some (butlast xs))"
| "dict_exec nk (Move_back k) xs =
     Some (filter (\<lambda>y. nk y \<noteq> k) xs @ filter (\<lambda>y. nk y = k) xs)"
| "dict_exec nk (Move_front k) xs =
     Some (filter (\<lambda>y. nk y = k) xs @ filter (\<lambda>y. nk y \<noteq> k) xs)"
| "dict_exec nk Clear xs = Some []"

lemma filter_key_single:
  assumes "distinct (map nk xs)" and "x \<in> set xs"
  shows "filter (\<lambda>y. nk y = nk x) xs = [x]"
  using assms
proof (induction xs)
  case (Cons y ys)
  then show ?case by (auto simp: filter_empty_conv image_iff)
qed simp

lemma linked_pop_refines:
  assumes "linked_inv nk L"
  shows "rel_option (\<lambda>L' xs. linked_inv nk L' \<and> linked_abs L' = xs)
      (linked_pop_front nk L) (dict_exec nk Pop_front (linked_abs L))"
    and "rel_option (\<lambda>L' xs. linked_inv nk L' \<and> linked_abs L' = xs)
      (linked_pop_back nk L) (dict_exec nk Pop_back (linked_abs L))"
proof -
  show "rel_option (\<lambda>L' xs. linked_inv nk L' \<and> linked_abs L' = xs)
      (linked_pop_front nk L) (dict_exec nk Pop_front (linked_abs L))"
  proof (cases "linked_list L")
    case (Cons y ys)
    obtain n x where y: "y = (n, x)" by (cases y)
    have "(n, x) \<in> set (linked_list L)" using Cons y by simp
    from linked_erase_it_refines [OF assms this] obtain L' where
      "linked_erase_it nk n L = (list_next n (linked_list L), L')" "linked_inv nk L'"
      "linked_list L' = list_erase n (linked_list L)" by blast
    then show ?thesis
      using Cons y by (simp add: linked_pop_front_def linked_begin_def linked_abs_def)
  qed (simp add: linked_pop_front_def linked_begin_def linked_abs_def)
  show "rel_option (\<lambda>L' xs. linked_inv nk L' \<and> linked_abs L' = xs)
      (linked_pop_back nk L) (dict_exec nk Pop_back (linked_abs L))"
  proof (cases "linked_list L" rule: rev_cases)
    case (snoc ys y)
    obtain n x where y: "y = (n, x)" by (cases y)
    have "(n, x) \<in> set (linked_list L)" using snoc y by simp
    from linked_erase_it_refines [OF assms this] obtain L' where
      L': "linked_erase_it nk n L = (list_next n (linked_list L), L')" "linked_inv nk L'"
      "linked_list L' = list_erase n (linked_list L)" by blast
    have "n \<notin> fst ` set ys" using assms snoc y by (simp add: linked_inv_def)
    then have "linked_list L' = ys" using L'(3) snoc y by (simp add: list_erase_last)
    then show ?thesis
      using L' snoc y by (simp add: linked_pop_back_def linked_abs_def)
  qed (simp add: linked_pop_back_def linked_abs_def)
qed

lemma linked_move_refines:
  assumes "linked_inv nk L"
  shows "rel_option (\<lambda>L' xs. linked_inv nk L' \<and> linked_abs L' = xs)
      (linked_exec nk (Move_back k) L) (dict_exec nk (Move_back k) (linked_abs L))"
    and "rel_option (\<lambda>L' xs. linked_inv nk L' \<and> linked_abs L' = xs)
      (linked_exec nk (Move_front k) L) (dict_exec nk (Move_front k) (linked_abs L))"
proof (atomize (full), cases "umap_find (linked_index L) k")
  case None
  then have "k \<notin> nk ` set (linked_abs L)" using linked_inv_keys [OF assms] by simp
  then have "filter (\<lambda>y. nk y \<noteq> k) (linked_abs L) = linked_abs L"
    "filter (\<lambda>y. nk y = k) (linked_abs L) = []"
    by (auto simp: filter_id_conv filter_empty_conv)
  then show "rel_option (\<lambda>L' xs. linked_inv nk L' \<and> linked_abs L' = xs)
      (linked_exec nk (Move_back k) L) (dict_exec nk (Move_back k) (linked_abs L))
    \<and> rel_option (\<lambda>L' xs. linked_inv nk L' \<and> linked_abs L' = xs)
      (linked_exec nk (Move_front k) L) (dict_exec nk (Move_front k) (linked_abs L))"
    using None assms by (simp add: linked_find_def)
next
  case (Some n)
  obtain x where x: "(n, x) \<in> set (linked_list L)" "nk x = k"
    using linked_find_node [OF assms Some] .
  then have "x \<in> set (linked_abs L)" by (force simp: linked_abs_def)
  then have "filter (\<lambda>y. nk y = k) (linked_abs L) = [x]"
    using filter_key_single linked_inv_node(4) [OF assms x(1)] x(2) by metis
  then show "rel_option (\<lambda>L' xs. linked_inv nk L' \<and> linked_abs L' = xs)
      (linked_exec nk (Move_back k) L) (dict_exec nk (Move_back k) (linked_abs L))
    \<and> rel_option (\<lambda>L' xs. linked_inv nk L' \<and> linked_abs L' = xs)
      (linked_exec nk (Move_front k) L) (dict_exec nk (Move_front k) (linked_abs L))"
    using linked_move_to_back_refines [OF assms x(1)] linked_move_to_front_refines [OF assms x(1)] Some x(2)
    by (simp add: linked_find_def)
qed

lemma linked_emplace_refines:
  assumes "linked_inv nk L" and "list_insert pos (linked_fresh L, x) (linked_list L) = l'"
  shows "linked_inv nk (snd (linked_emplace nk pos x L))
    \<and> linked_abs (snd (linked_emplace nk pos x L))
        = (if nk x \<in> nk ` set (linked_abs L) then linked_abs L else map snd l')"
proof (cases "nk x \<in> nk ` set (linked_abs L)")
  case True
  then show ?thesis
    using linked_emplace_duplicate [OF assms(1) True, of pos] linked_inv_fresh [OF assms(1)]
    by (auto simp: linked_abs_def)
next
  case False
  then show ?thesis
    using linked_emplace_new [OF assms(1) False, of pos] assms(2) by (auto simp: linked_abs_def)
qed

lemma linked_exec_refines:
  assumes "linked_inv nk L"
  shows "rel_option (\<lambda>L' xs. linked_inv nk L' \<and> linked_abs L' = xs)
    (linked_exec nk opr L) (dict_exec nk opr (linked_abs L))"
proof (cases opr)
  case (Emplace_back x)
  then show ?thesis
    using linked_emplace_refines [OF assms refl, of None x]
    by (simp add: linked_emplace_back_def linked_abs_def)
next
  case (Emplace_front x)
  then show ?thesis
    using linked_emplace_refines [OF assms refl, of "linked_begin L" x]
    by (simp add: linked_emplace_front_def linked_begin_def linked_abs_def)
next
  case (Erase k)
  then show ?thesis using linked_erase_refines [OF assms, of k] by auto
next
  case Clear
  then show ?thesis by (simp add: linked_clear_def linked_inv_def linked_abs_def)
qed (use linked_pop_refines [OF assms] linked_move_refines [OF assms] in auto)

fun linked_run ::
  "('n \<Rightarrow> 'k) \<Rightarrow> ('k, 'n) linked_op list \<Rightarrow> ('k, 'n) LinkedBase \<Rightarrow> ('k, 'n) LinkedBase option" where
  "linked_run nk [] L = Some L"
| "linked_run nk (opr # ops) L =
     (case linked_exec nk opr L of None \<Rightarrow> None | Some L' \<Rightarrow> linked_run nk ops L')"

fun dict_run :: "('n \<Rightarrow> 'k) \<Rightarrow> ('k, 'n) linked_op list \<Rightarrow> 'n list \<Rightarrow> 'n list option" where
  "dict_run nk [] xs = Some xs"
| "dict_run nk (opr # ops) xs =
     (case dict_exec nk opr xs of None \<Rightarrow> None | Some xs' \<Rightarrow> dict_run nk ops xs')"

lemma linked_run_refines:
  assumes "linked_inv nk L"
  shows "rel_option (\<lambda>L' xs. linked_inv nk L' \<and> linked_abs L' = xs)
    (linked_run nk ops L) (dict_run nk ops (linked_abs L))"
  using assms
proof (induction ops arbitrary: L)
  case (Cons opr ops)
  show ?case
    using linked_exec_refines [OF Cons(2), of opr] Cons(1)
    by (cases "linked_exec nk opr L"; cases "dict_exec nk opr (linked_abs L)") auto
qed simp

section \<open>Properties\<close>

text \<open>
  C33. The linked map implements a list without repeated keys: after any sequence of operations on an
  empty container the index finds exactly the keys of the nodes in the list, no key occurs twice, and
  the nodes are those, in the same order, that the operations produce on a plain list; a pop fails
  its assertion exactly when that list is empty.
\<close>

theorem linked_refines_dict:
  "rel_option (\<lambda>L xs. linked_abs L = xs \<and> distinct (map nk xs)
      \<and> (\<forall>k. linked_contains L k \<longleftrightarrow> k \<in> nk ` set xs)
      \<and> (\<forall>k. (\<exists>n. linked_find L k = Some n) \<longleftrightarrow> k \<in> nk ` set xs))
    (linked_run nk ops linked_new) (dict_run nk ops [])"
proof -
  have "linked_abs L = xs \<and> distinct (map nk xs) \<and> (\<forall>k. linked_contains L k \<longleftrightarrow> k \<in> nk ` set xs)
      \<and> (\<forall>k. (\<exists>n. linked_find L k = Some n) \<longleftrightarrow> k \<in> nk ` set xs)"
    if "linked_inv nk L \<and> linked_abs L = xs" for L xs
  proof -
    have "distinct (map nk xs)" using that by (auto simp: linked_inv_def linked_abs_def)
    moreover have "linked_contains L k \<longleftrightarrow> k \<in> nk ` set xs" for k
      using that linked_contains_abs [of nk L k] by simp
    moreover have "(\<exists>n. linked_find L k = Some n) \<longleftrightarrow> linked_contains L k" for k
      by (auto simp: linked_find_def linked_contains_def split: option.splits)
    ultimately show ?thesis using that by simp
  qed
  moreover have "rel_option (\<lambda>L' xs. linked_inv nk L' \<and> linked_abs L' = xs)
      (linked_run nk ops linked_new) (dict_run nk ops [])"
    using linked_run_refines [of nk linked_new ops] by simp
  ultimately show ?thesis by (blast intro: option.rel_mono_strong)
qed

end
