(* ===== verification/TimeoutList.thy ===== *)
theory TimeoutList
  imports LinkedMap
begin

text \<open>
  \<open>src/util/timeout_list.h\<close>: items with the time they were last added, oldest first. The clock
  reading is an argument of the operations that take one; a \<open>steady_clock\<close> never goes back, which is
  how \<open>timeout_reach\<close> orders the calls. The theorem: because the list is ordered by time,
  \<open>ProcessExpired\<close> stops at the right place and hands exactly the expired items, oldest first and at
  most as many as the batch limit allows, to its callback.
\<close>

type_synonym clock = int
type_synonym 't TimeoutList = "('t, 't \<times> clock) LinkedBase"

definition TimeoutList_Empty :: "'t TimeoutList \<Rightarrow> bool" where
  "TimeoutList_Empty lmap \<longleftrightarrow> linked_list lmap = []"

definition TimeoutList_Size :: "'t TimeoutList \<Rightarrow> nat" where
  "TimeoutList_Size lmap = length (linked_list lmap)"

definition TimeoutList_Contains :: "'t TimeoutList \<Rightarrow> 't \<Rightarrow> bool" where
  "TimeoutList_Contains lmap t = linked_contains lmap t"

definition TimeoutList_Add :: "clock \<Rightarrow> 't \<Rightarrow> 't TimeoutList \<Rightarrow> 't TimeoutList" where
  "TimeoutList_Add now t lmap =
     (case linked_find lmap t of
        None \<Rightarrow> snd (linked_emplace_back fst (t, now) lmap)
      | Some it \<Rightarrow> linked_move_to_back it (linked_assign it (\<lambda>(k, _). (k, now)) lmap))"

definition TimeoutList_Erase :: "'t \<Rightarrow> 't TimeoutList \<Rightarrow> bool \<times> 't TimeoutList" where
  "TimeoutList_Erase t lmap = linked_erase t lmap"

definition TimeoutList_Clear :: "'t TimeoutList \<Rightarrow> 't TimeoutList" where
  "TimeoutList_Clear lmap = linked_clear lmap"

text \<open>
  The loop of \<open>ProcessExpired\<close>: it returns the items handed to the callback, in order. The condition
  \<open>batch_limit < 0 || batch_limit-- > 0\<close> counts down only when the limit is not negative. The case of
  an iterator that points nowhere does not arise.
\<close>

lemma length_list_erase: "map_of xs n \<noteq> None \<Longrightarrow> length (list_erase n xs) < length xs"
  by (induction xs) auto

function ProcessExpired_loop ::
  "clock \<Rightarrow> clock \<Rightarrow> int \<Rightarrow> iterator \<Rightarrow> 't TimeoutList \<Rightarrow> 't list \<times> 't TimeoutList" where
  "ProcessExpired_loop tm_now timeout batch_limit it lmap =
     (case it of
        None \<Rightarrow> ([], lmap)
      | Some n \<Rightarrow>
          if batch_limit < 0 \<or> batch_limit > 0
          then case map_of (linked_list lmap) n of
                 None \<Rightarrow> ([], lmap)
               | Some (t, tm) \<Rightarrow>
                   if tm_now - tm \<le> timeout then ([], lmap)
                   else let (it', lmap') = linked_erase_it fst n lmap;
                            limit' = (if batch_limit < 0 then batch_limit else batch_limit - 1);
                            (ts, lmap'') = ProcessExpired_loop tm_now timeout limit' it' lmap'
                        in (t # ts, lmap'')
          else ([], lmap))"
  by pat_completeness auto

termination
  by (relation "measure (\<lambda>(_, _, _, _, lmap). length (linked_list lmap))")
     (auto simp: linked_erase_it_def intro!: length_list_erase)

declare ProcessExpired_loop.simps [simp del]

definition TimeoutList_ProcessExpired ::
  "clock \<Rightarrow> clock \<Rightarrow> int \<Rightarrow> 't TimeoutList \<Rightarrow> 't list \<times> 't TimeoutList" where
  "TimeoutList_ProcessExpired tm_now timeout batch_limit lmap =
     ProcessExpired_loop tm_now timeout batch_limit (linked_begin lmap) lmap"

definition TimeoutList_GetExpired ::
  "clock \<Rightarrow> clock \<Rightarrow> int \<Rightarrow> 't TimeoutList \<Rightarrow> 't list \<times> 't TimeoutList" where
  "TimeoutList_GetExpired tm_now timeout batch_limit lmap =
     TimeoutList_ProcessExpired tm_now timeout batch_limit lmap"

section \<open>The operations on the abstract list\<close>

lemma Add_refines:
  assumes "linked_inv fst lmap"
  shows "linked_inv fst (TimeoutList_Add now t lmap)
    \<and> linked_abs (TimeoutList_Add now t lmap)
        = filter (\<lambda>e. fst e \<noteq> t) (linked_abs lmap) @ [(t, now)]"
proof (cases "umap_find (linked_index lmap) t")
  case None
  then have "t \<notin> fst ` set (linked_abs lmap)" using linked_inv_keys [OF assms] by simp
  moreover from this have "filter (\<lambda>e. fst e \<noteq> t) (linked_abs lmap) = linked_abs lmap"
    by (auto simp: filter_id_conv)
  ultimately show ?thesis
    using None linked_emplace_refines [OF assms refl, of None "(t, now)"]
    by (simp add: TimeoutList_Add_def linked_find_def linked_emplace_back_def linked_abs_def)
next
  case (Some n)
  obtain x where x: "(n, x) \<in> set (linked_list lmap)" "fst x = t"
    using linked_find_node [OF assms Some] .
  let ?f = "\<lambda>(k, _). (k, now)"
  have f: "?f x = (t, now)" "fst (?f x) = fst x" using x(2) by (simp_all add: split_beta)
  note assign = linked_assign_refines [where f = ?f, OF assms x(1) f(2)]
  have "filter (\<lambda>y. fst y \<noteq> t) (map (\<lambda>y. if fst y = t then ?f y else y) ys)
      = filter (\<lambda>y. fst y \<noteq> t) ys" for ys
    by (induction ys) auto
  then show ?thesis
    using Some linked_move_to_back_refines [OF assign(1,2)] assign(3) f x(2)
    by (simp add: TimeoutList_Add_def linked_find_def)
qed

fun expire :: "clock \<Rightarrow> clock \<Rightarrow> int \<Rightarrow> ('t \<times> clock) list \<Rightarrow> 't list \<times> ('t \<times> clock) list" where
  "expire now timeout limit [] = ([], [])"
| "expire now timeout limit ((t, tm) # xs) =
     (if (limit < 0 \<or> limit > 0) \<and> now - tm > timeout
      then let (ts, ys) = expire now timeout (if limit < 0 then limit else limit - 1) xs in (t # ts, ys)
      else ([], (t, tm) # xs))"

lemma ProcessExpired_refines:
  assumes "linked_inv fst lmap"
  shows "\<exists>lmap'. TimeoutList_ProcessExpired now timeout limit lmap
      = (fst (expire now timeout limit (linked_abs lmap)), lmap')
    \<and> linked_inv fst lmap' \<and> linked_abs lmap' = snd (expire now timeout limit (linked_abs lmap))"
  using assms
proof (induction "linked_list lmap" arbitrary: lmap limit)
  case Nil
  then show ?case
    by (auto simp: TimeoutList_ProcessExpired_def ProcessExpired_loop.simps linked_begin_def linked_abs_def)
next
  case (Cons e es)
  obtain n t tm where e: "e = (n, (t, tm))" by (metis surj_pair)
  have mem: "(n, (t, tm)) \<in> set (linked_list lmap)" using Cons(2) e by (metis list.set_intros(1))
  obtain lmap' where L': "linked_erase_it fst n lmap = (list_next n (linked_list lmap), lmap')"
    "linked_inv fst lmap'" "linked_list lmap' = list_erase n (linked_list lmap)"
    using linked_erase_it_refines [OF Cons(3) mem] by blast
  have es: "linked_list lmap' = es" "list_next n (linked_list lmap) = linked_begin lmap'"
    using L'(3) Cons(2) [symmetric] e by (auto simp: linked_begin_def)
  have start: "linked_begin lmap = Some n" "map_of (linked_list lmap) n = Some (t, tm)"
    "linked_abs lmap = (t, tm) # linked_abs lmap'"
    using Cons(2) [symmetric] e es by (auto simp: linked_begin_def linked_abs_def)
  have IH: "\<exists>lmap''. TimeoutList_ProcessExpired now timeout limit' lmap'
      = (fst (expire now timeout limit' (linked_abs lmap')), lmap'')
    \<and> linked_inv fst lmap'' \<and> linked_abs lmap'' = snd (expire now timeout limit' (linked_abs lmap'))" for limit'
    using Cons(1) [of lmap' limit'] es L'(2) by simp
  show ?case
  proof (cases "(limit < 0 \<or> limit > 0) \<and> now - tm > timeout")
    case True
    define limit' where "limit' = (if limit < 0 then limit else limit - 1)"
    obtain lmap'' where IH': "TimeoutList_ProcessExpired now timeout limit' lmap'
        = (fst (expire now timeout limit' (linked_abs lmap')), lmap'')"
      "linked_inv fst lmap''" "linked_abs lmap'' = snd (expire now timeout limit' (linked_abs lmap'))"
      using IH by blast
    have "TimeoutList_ProcessExpired now timeout limit lmap
        = (t # fst (expire now timeout limit' (linked_abs lmap')), lmap'')"
      unfolding TimeoutList_ProcessExpired_def
      using True start(1,2) L'(1) es(2) IH'(1) unfolding TimeoutList_ProcessExpired_def limit'_def
      by (subst ProcessExpired_loop.simps) (simp add: Let_def split_beta)
    then show ?thesis
      using True IH'(2,3) start(3) by (simp add: limit'_def split_beta)
  next
    case False
    have "TimeoutList_ProcessExpired now timeout limit lmap = ([], lmap)"
      unfolding TimeoutList_ProcessExpired_def
      using False start(1,2) by (subst ProcessExpired_loop.simps) auto
    then show ?thesis using False Cons(3) start(3) by auto
  qed
qed

section \<open>The list is ordered by time\<close>

text \<open>
  The states a list can reach: \<open>timeout_reach now lmap\<close> says that \<open>lmap\<close> results from operations
  performed at clock readings that never decrease and do not exceed \<open>now\<close>.
\<close>

inductive timeout_reach :: "clock \<Rightarrow> 't TimeoutList \<Rightarrow> bool" where
  new: "timeout_reach now linked_new"
| later: "timeout_reach now lmap \<Longrightarrow> now \<le> now' \<Longrightarrow> timeout_reach now' lmap"
| add: "timeout_reach now lmap \<Longrightarrow> timeout_reach now (TimeoutList_Add now t lmap)"
| erase: "timeout_reach now lmap \<Longrightarrow> timeout_reach now (snd (TimeoutList_Erase t lmap))"
| clear: "timeout_reach now lmap \<Longrightarrow> timeout_reach now (TimeoutList_Clear lmap)"
| expire: "timeout_reach now lmap \<Longrightarrow>
    timeout_reach now (snd (TimeoutList_ProcessExpired now timeout limit lmap))"

lemma expire_suffix: "\<exists>ys. xs = ys @ snd (expire now timeout limit xs)"
proof (induction now timeout limit xs rule: expire.induct)
  case (2 now timeout limit t tm xs)
  show ?case
  proof (cases "(limit < 0 \<or> limit > 0) \<and> now - tm > timeout")
    case True
    then obtain ys where "xs = ys @ snd (expire now timeout (if limit < 0 then limit else limit - 1) xs)"
      using 2 by blast
    then have "(t, tm) # xs = ((t, tm) # ys) @ snd (expire now timeout limit ((t, tm) # xs))"
      using True by (simp add: split_beta)
    then show ?thesis by blast
  qed auto
qed simp

lemma timeout_reach_sorted:
  assumes "timeout_reach now lmap"
  shows "linked_inv fst lmap \<and> sorted (map snd (linked_abs lmap))
    \<and> (\<forall>e \<in> set (linked_abs lmap). snd e \<le> now)"
  using assms
proof (induction rule: timeout_reach.induct)
  case (add now lmap t)
  then have "linked_inv fst (TimeoutList_Add now t lmap)"
    "linked_abs (TimeoutList_Add now t lmap) = filter (\<lambda>e. fst e \<noteq> t) (linked_abs lmap) @ [(t, now)]"
    using Add_refines [of lmap now t] by simp_all
  then show ?case using add by (auto simp: sorted_append sorted_filter)
next
  case (erase now lmap t)
  then obtain b lmap' where "linked_erase t lmap = (b, lmap')" "linked_inv fst lmap'"
    "linked_abs lmap' = filter (\<lambda>y. fst y \<noteq> t) (linked_abs lmap)"
    using linked_erase_refines [of fst lmap t] by blast
  then show ?case using erase by (auto simp: TimeoutList_Erase_def sorted_filter)
next
  case (clear now lmap)
  then show ?case by (simp add: TimeoutList_Clear_def linked_clear_def linked_inv_def linked_abs_def)
next
  case (expire now lmap timeout limit)
  obtain lmap' where L': "TimeoutList_ProcessExpired now timeout limit lmap
      = (fst (expire now timeout limit (linked_abs lmap)), lmap')"
    "linked_inv fst lmap'" "linked_abs lmap' = snd (expire now timeout limit (linked_abs lmap))"
    using ProcessExpired_refines expire.IH by blast
  obtain ys where "linked_abs lmap = ys @ linked_abs lmap'"
    using expire_suffix L'(3) by metis
  then have "sorted (map snd (ys @ linked_abs lmap'))" "\<forall>e \<in> set (ys @ linked_abs lmap'). snd e \<le> now"
    using expire.IH by simp_all
  then show ?case using L'(1,2) by (simp add: sorted_append)
qed auto

lemma expired_first:
  fixes now timeout :: clock
  assumes "sorted (map snd xs)"
  shows "filter (\<lambda>e. now - snd e > timeout) xs @ filter (\<lambda>e. now - snd e \<le> timeout) xs = xs"
  using assms
proof (induction xs)
  case (Cons e xs)
  show ?case
  proof (cases "now - snd e > timeout")
    case False
    then have "\<forall>e' \<in> set xs. now - snd e' \<le> timeout"
      using Cons(2) by force
    then have "filter (\<lambda>e. now - snd e > timeout) xs = []"
      "filter (\<lambda>e. now - snd e \<le> timeout) xs = xs"
      unfolding filter_empty_conv filter_id_conv by (simp_all add: linorder_not_less)
    then show ?thesis using False by simp
  qed (use Cons in auto)
qed simp

lemma expire_sorted:
  fixes now timeout :: clock
  assumes "sorted (map snd xs)"
  defines "E \<equiv> filter (\<lambda>e. now - snd e > timeout) xs"
  shows "expire now timeout limit xs
    = (map fst (if limit < 0 then E else take (nat limit) E),
       (if limit < 0 then [] else drop (nat limit) E) @ filter (\<lambda>e. now - snd e \<le> timeout) xs)"
  unfolding E_def using assms(1)
proof (induction now timeout limit xs rule: expire.induct)
  case (2 now timeout limit t tm xs)
  note first = expired_first [OF 2(2), of timeout now]
  show ?case
  proof (cases "(limit < 0 \<or> limit > 0) \<and> now - tm > timeout")
    case True
    then show ?thesis
      using 2 by (cases "limit < 0") (auto simp: Let_def take_Cons' drop_Cons' nat_diff_distrib)
  next
    case False
    then show ?thesis
    proof (cases "limit = 0")
      case nonzero: False
      then have "now - tm \<le> timeout" using False by auto
      then have "\<forall>e \<in> set ((t, tm) # xs). now - snd e \<le> timeout"
        using 2(2) by force
      then have none: "filter (\<lambda>e. now - snd e > timeout) ((t, tm) # xs) = []"
        unfolding filter_empty_conv by (simp only: linorder_not_less)
      have "expire now timeout limit ((t, tm) # xs) = ([], (t, tm) # xs)"
        using False by auto
      then show ?thesis
        unfolding none using first unfolding none by (simp only: append_Nil) simp
    next
      case True
      then have "expire now timeout limit ((t, tm) # xs) = ([], (t, tm) # xs)" by simp
      then show ?thesis using True first by (simp del: filter.simps)
    qed
  qed
qed simp

section \<open>Properties\<close>

text \<open>
  C34. In every reachable state, \<open>ProcessExpired\<close> hands over exactly the items whose last addition is
  more than \<open>timeout\<close> ago, oldest first, the first \<open>batch_limit\<close> of them when the limit is not
  negative; these leave the list and every other item stays with its time. An addition puts its item,
  with the current time, behind all others.
\<close>

theorem timeout_list_expires_exactly:
  fixes timeout :: clock
  assumes "timeout_reach now lmap"
  defines "E \<equiv> filter (\<lambda>e. now - snd e > timeout) (linked_abs lmap)"
  shows "\<exists>lmap'. TimeoutList_ProcessExpired now timeout limit lmap
      = (map fst (if limit < 0 then E else take (nat limit) E), lmap')
    \<and> linked_abs lmap' = (if limit < 0 then [] else drop (nat limit) E)
        @ filter (\<lambda>e. now - snd e \<le> timeout) (linked_abs lmap)
    \<and> linked_abs (TimeoutList_Add now t lmap)
        = filter (\<lambda>e. fst e \<noteq> t) (linked_abs lmap) @ [(t, now)]"
proof -
  have inv: "linked_inv fst lmap" "sorted (map snd (linked_abs lmap))"
    using timeout_reach_sorted [OF assms(1)] by auto
  show ?thesis
    using ProcessExpired_refines [OF inv(1), of now timeout limit] Add_refines [OF inv(1), of now t]
    unfolding expire_sorted [OF inv(2)] E_def by auto
qed

theorem timeout_list_expires_exactly_witness:
  "\<exists>lmap'. TimeoutList_ProcessExpired 20 10 (- 1)
      (TimeoutList_Add 15 ''red'' (TimeoutList_Add 2 ''green'' (TimeoutList_Add 1 ''red'' linked_new)))
    = ([''green''], lmap')"
proof -
  let ?L = "TimeoutList_Add 15 ''red'' (TimeoutList_Add 2 ''green'' (TimeoutList_Add 1 ''red'' linked_new))"
  have "timeout_reach 20 ?L"
    by (rule timeout_reach.later [of 15], intro timeout_reach.add,
        rule timeout_reach.later [of 2], intro timeout_reach.add,
        rule timeout_reach.later [of 1], intro timeout_reach.add timeout_reach.new) simp_all
  moreover have "linked_abs ?L = [(''green'', 2), (''red'', 15)]"
    by code_simp
  ultimately show ?thesis
    using timeout_list_expires_exactly [of 20 ?L 10 "- 1"] by auto
qed

end
