(* ===== verification/XxHash.thy ===== *)
theory XxHash
  imports Hash
begin

text \<open>
  \<open>src/util/xxhash.cc\<close>: the 32-bit and 64-bit xxHash functions, each as the one-shot routine and
  as the streaming \<open>reset\<close>/\<open>update\<close>/\<open>digest\<close> interface with its internal buffer. The machine's byte
  order is a parameter, since the code reads memory natively and swaps on big-endian machines.
  The theorems: the streaming interface computes the one-shot hash of the concatenated
  input however it is cut into pieces, and no result depends on the byte order. Lengths are those
  of objects in memory, so \<open>memsize + len\<close> does not wrap.
\<close>

unbundle bit_operations_syntax

section \<open>Reading memory\<close>

datatype XXH_endianess = XXH_bigEndian | XXH_littleEndian

definition XXH_rotl32 :: "u32 \<Rightarrow> nat \<Rightarrow> u32" where
  "XXH_rotl32 x r = push_bit r x OR drop_bit (32 - r) x"

definition XXH_rotl64 :: "u64 \<Rightarrow> nat \<Rightarrow> u64" where
  "XXH_rotl64 x r = push_bit r x OR drop_bit (64 - r) x"

definition XXH_swap32 :: "u32 \<Rightarrow> u32" where
  "XXH_swap32 x =
     (push_bit 24 x AND 0xff000000) OR (push_bit 8 x AND 0x00ff0000) OR
     (drop_bit 8 x AND 0x0000ff00) OR (drop_bit 24 x AND 0x000000ff)"

definition XXH_swap64 :: "u64 \<Rightarrow> u64" where
  "XXH_swap64 x =
     (push_bit 56 x AND 0xff00000000000000) OR (push_bit 40 x AND 0x00ff000000000000) OR
     (push_bit 24 x AND 0x0000ff0000000000) OR (push_bit 8 x AND 0x000000ff00000000) OR
     (drop_bit 8 x AND 0x00000000ff000000) OR (drop_bit 24 x AND 0x0000000000ff0000) OR
     (drop_bit 40 x AND 0x000000000000ff00) OR (drop_bit 56 x AND 0x00000000000000ff)"

text \<open>
  A native load: the bytes at the pointer, the least significant first on a little-endian machine
  and last on a big-endian one.
\<close>

definition A32 :: "XXH_endianess \<Rightarrow> bytes \<Rightarrow> u32" where
  "A32 cpu p = (case cpu of XXH_littleEndian \<Rightarrow> DecodeFixed32 (take 4 p)
                | XXH_bigEndian \<Rightarrow> DecodeFixed32 (rev (take 4 p)))"

definition A64 :: "XXH_endianess \<Rightarrow> bytes \<Rightarrow> u64" where
  "A64 cpu p = (case cpu of XXH_littleEndian \<Rightarrow> DecodeFixed64 (take 8 p)
                | XXH_bigEndian \<Rightarrow> DecodeFixed64 (rev (take 8 p)))"

definition XXH_readLE32 :: "XXH_endianess \<Rightarrow> bytes \<Rightarrow> u32" where
  "XXH_readLE32 endian p =
     (if endian = XXH_littleEndian then A32 endian p else XXH_swap32 (A32 endian p))"

definition XXH_readLE64 :: "XXH_endianess \<Rightarrow> bytes \<Rightarrow> u64" where
  "XXH_readLE64 endian p =
     (if endian = XXH_littleEndian then A64 endian p else XXH_swap64 (A64 endian p))"

text \<open>\<open>memcpy(dest + off, src, size)\<close> into a buffer.\<close>

definition XXH_memcpy :: "bytes \<Rightarrow> nat \<Rightarrow> bytes \<Rightarrow> bytes" where
  "XXH_memcpy dest off src = take off dest @ src @ drop (off + length src) dest"

section \<open>64 bits\<close>

definition PRIME64_1 :: u64 where "PRIME64_1 = 11400714785074694791"
definition PRIME64_2 :: u64 where "PRIME64_2 = 14029467366897019727"
definition PRIME64_3 :: u64 where "PRIME64_3 = 1609587929392839161"
definition PRIME64_4 :: u64 where "PRIME64_4 = 9650029242287828579"
definition PRIME64_5 :: u64 where "PRIME64_5 = 2870177450012600261"

type_synonym lanes64 = "u64 \<times> u64 \<times> u64 \<times> u64"

text \<open>The body of the loop over 32-byte stripes.\<close>

definition XXH64_stripe :: "XXH_endianess \<Rightarrow> lanes64 \<Rightarrow> bytes \<Rightarrow> lanes64" where
  "XXH64_stripe endian vs p =
     (case vs of (v1, v2, v3, v4) \<Rightarrow>
        (XXH_rotl64 (v1 + XXH_readLE64 endian p * PRIME64_2) 31 * PRIME64_1,
         XXH_rotl64 (v2 + XXH_readLE64 endian (drop 8 p) * PRIME64_2) 31 * PRIME64_1,
         XXH_rotl64 (v3 + XXH_readLE64 endian (drop 16 p) * PRIME64_2) 31 * PRIME64_1,
         XXH_rotl64 (v4 + XXH_readLE64 endian (drop 24 p) * PRIME64_2) 31 * PRIME64_1))"

text \<open>\<open>do { ... } while (p <= limit)\<close>: the rest of the input is what is left of \<open>p\<close>.\<close>

function XXH64_stripes :: "XXH_endianess \<Rightarrow> lanes64 \<Rightarrow> bytes \<Rightarrow> lanes64 \<times> bytes" where
  "XXH64_stripes endian vs p =
     (let vs = XXH64_stripe endian vs p; p = drop 32 p
      in if 32 \<le> length p then XXH64_stripes endian vs p else (vs, p))"
  by pat_completeness auto

termination
  by (relation "measure (\<lambda>(_, _, p). length p)") auto

declare XXH64_stripes.simps [simp del]

definition XXH64_lane :: "u64 \<Rightarrow> u64 \<Rightarrow> u64" where
  "XXH64_lane h64 v =
     (let v = v * PRIME64_2;
          v = XXH_rotl64 v 31;
          v = v * PRIME64_1;
          h64 = h64 XOR v
      in h64 * PRIME64_1 + PRIME64_4)"

definition XXH64_converge :: "lanes64 \<Rightarrow> u64" where
  "XXH64_converge vs =
     (case vs of (v1, v2, v3, v4) \<Rightarrow>
        let h64 = XXH_rotl64 v1 1 + XXH_rotl64 v2 7 + XXH_rotl64 v3 12 + XXH_rotl64 v4 18;
            h64 = XXH64_lane h64 v1;
            h64 = XXH64_lane h64 v2;
            h64 = XXH64_lane h64 v3
        in XXH64_lane h64 v4)"

text \<open>The remaining words and bytes (\<open>p\<close> up to \<open>bEnd\<close>), and the final mixing.\<close>

function XXH64_words :: "XXH_endianess \<Rightarrow> u64 \<Rightarrow> bytes \<Rightarrow> u64 \<times> bytes" where
  "XXH64_words endian h64 p =
     (if length p < 8 then (h64, p)
      else let k1 = XXH_readLE64 endian p;
               k1 = k1 * PRIME64_2;
               k1 = XXH_rotl64 k1 31;
               k1 = k1 * PRIME64_1;
               h64 = h64 XOR k1;
               h64 = XXH_rotl64 h64 27 * PRIME64_1 + PRIME64_4
           in XXH64_words endian h64 (drop 8 p))"
  by pat_completeness auto

termination
  by (relation "measure (\<lambda>(_, _, p). length p)") auto

declare XXH64_words.simps [simp del]

definition XXH64_half :: "XXH_endianess \<Rightarrow> u64 \<Rightarrow> bytes \<Rightarrow> u64 \<times> bytes" where
  "XXH64_half endian h64 p =
     (if 4 \<le> length p
      then let h64 = h64 XOR (ucast (XXH_readLE32 endian p) * PRIME64_1);
               h64 = XXH_rotl64 h64 23 * PRIME64_2 + PRIME64_3
           in (h64, drop 4 p)
      else (h64, p))"

fun XXH64_bytes :: "u64 \<Rightarrow> bytes \<Rightarrow> u64" where
  "XXH64_bytes h64 [] = h64"
| "XXH64_bytes h64 (b # p) =
     (let h64 = h64 XOR (ucast b * PRIME64_5);
          h64 = XXH_rotl64 h64 11 * PRIME64_1
      in XXH64_bytes h64 p)"

definition XXH64_avalanche :: "u64 \<Rightarrow> u64" where
  "XXH64_avalanche h64 =
     (let h64 = xorshift 33 h64;
          h64 = h64 * PRIME64_2;
          h64 = xorshift 29 h64;
          h64 = h64 * PRIME64_3
      in xorshift 32 h64)"

definition XXH64_finish :: "XXH_endianess \<Rightarrow> u64 \<Rightarrow> bytes \<Rightarrow> u64" where
  "XXH64_finish endian h64 p =
     (let (h64, p) = XXH64_words endian h64 p;
          (h64, p) = XXH64_half endian h64 p
      in XXH64_avalanche (XXH64_bytes h64 p))"

definition XXH64 :: "XXH_endianess \<Rightarrow> bytes \<Rightarrow> u64 \<Rightarrow> u64" where
  "XXH64 endian inp seed =
     (let len = length inp;
          (h64, p) =
            (if 32 \<le> len
             then let (vs, p) = XXH64_stripes endian
                        (seed + PRIME64_1 + PRIME64_2, seed + PRIME64_2, seed + 0, seed - PRIME64_1) inp
                  in (XXH64_converge vs, p)
             else (seed + PRIME64_5, inp));
          h64 = h64 + of_nat len
      in XXH64_finish endian h64 p)"

record XXH_istate64_t =
  total_len64 :: u64
  seed64_of :: u64
  v64 :: lanes64
  mem64 :: bytes
  memsize64 :: u32

text \<open>\<open>reset\<close> does not touch the buffer, so it starts from whatever \<open>mem64\<close> holds.\<close>

definition XXH64_reset :: "XXH_istate64_t \<Rightarrow> u64 \<Rightarrow> XXH_istate64_t" where
  "XXH64_reset state seed = state
     \<lparr> seed64_of := seed,
       v64 := (seed + PRIME64_1 + PRIME64_2, seed + PRIME64_2, seed + 0, seed - PRIME64_1),
       total_len64 := 0,
       memsize64 := 0 \<rparr>"

definition XXH64_update :: "XXH_endianess \<Rightarrow> XXH_istate64_t \<Rightarrow> bytes \<Rightarrow> XXH_istate64_t" where
  "XXH64_update endian state inp =
     (let len = length inp;
          state = state\<lparr> total_len64 := total_len64 state + of_nat len \<rparr>;
          memsize = unat (memsize64 state)
      in if memsize + len < 32
         then state\<lparr> mem64 := XXH_memcpy (mem64 state) memsize inp,
                     memsize64 := memsize64 state + of_nat len \<rparr>
         else let (state, p) =
                    (if memsize64 state \<noteq> 0
                     then let state = state\<lparr> mem64 := XXH_memcpy (mem64 state) memsize (take (32 - memsize) inp) \<rparr>;
                              state = state\<lparr> v64 := XXH64_stripe endian (v64 state) (mem64 state) \<rparr>
                          in (state\<lparr> memsize64 := 0 \<rparr>, drop (32 - memsize) inp)
                     else (state, inp));
                  (state, p) =
                    (if 32 \<le> length p
                     then let (vs, p) = XXH64_stripes endian (v64 state) p in (state\<lparr> v64 := vs \<rparr>, p)
                     else (state, p))
              in if p \<noteq> []
                 then state\<lparr> mem64 := XXH_memcpy (mem64 state) 0 p, memsize64 := of_nat (length p) \<rparr>
                 else state)"

definition XXH64_digest :: "XXH_endianess \<Rightarrow> XXH_istate64_t \<Rightarrow> u64" where
  "XXH64_digest endian state =
     (let p = take (unat (memsize64 state)) (mem64 state);
          h64 = (if 32 \<le> total_len64 state then XXH64_converge (v64 state)
                 else seed64_of state + PRIME64_5);
          h64 = h64 + total_len64 state
      in XXH64_finish endian h64 p)"

section \<open>32 bits\<close>

definition PRIME32_1 :: u32 where "PRIME32_1 = 2654435761"
definition PRIME32_2 :: u32 where "PRIME32_2 = 2246822519"
definition PRIME32_3 :: u32 where "PRIME32_3 = 3266489917"
definition PRIME32_4 :: u32 where "PRIME32_4 = 668265263"
definition PRIME32_5 :: u32 where "PRIME32_5 = 374761393"

type_synonym lanes32 = "u32 \<times> u32 \<times> u32 \<times> u32"

definition XXH32_stripe :: "XXH_endianess \<Rightarrow> lanes32 \<Rightarrow> bytes \<Rightarrow> lanes32" where
  "XXH32_stripe endian vs p =
     (case vs of (v1, v2, v3, v4) \<Rightarrow>
        (XXH_rotl32 (v1 + XXH_readLE32 endian p * PRIME32_2) 13 * PRIME32_1,
         XXH_rotl32 (v2 + XXH_readLE32 endian (drop 4 p) * PRIME32_2) 13 * PRIME32_1,
         XXH_rotl32 (v3 + XXH_readLE32 endian (drop 8 p) * PRIME32_2) 13 * PRIME32_1,
         XXH_rotl32 (v4 + XXH_readLE32 endian (drop 12 p) * PRIME32_2) 13 * PRIME32_1))"

function XXH32_stripes :: "XXH_endianess \<Rightarrow> lanes32 \<Rightarrow> bytes \<Rightarrow> lanes32 \<times> bytes" where
  "XXH32_stripes endian vs p =
     (let vs = XXH32_stripe endian vs p; p = drop 16 p
      in if 16 \<le> length p then XXH32_stripes endian vs p else (vs, p))"
  by pat_completeness auto

termination
  by (relation "measure (\<lambda>(_, _, p). length p)") auto

declare XXH32_stripes.simps [simp del]

definition XXH32_converge :: "lanes32 \<Rightarrow> u32" where
  "XXH32_converge vs =
     (case vs of (v1, v2, v3, v4) \<Rightarrow>
        XXH_rotl32 v1 1 + XXH_rotl32 v2 7 + XXH_rotl32 v3 12 + XXH_rotl32 v4 18)"

function XXH32_words :: "XXH_endianess \<Rightarrow> u32 \<Rightarrow> bytes \<Rightarrow> u32 \<times> bytes" where
  "XXH32_words endian h32 p =
     (if length p < 4 then (h32, p)
      else let h32 = h32 + XXH_readLE32 endian p * PRIME32_3;
               h32 = XXH_rotl32 h32 17 * PRIME32_4
           in XXH32_words endian h32 (drop 4 p))"
  by pat_completeness auto

termination
  by (relation "measure (\<lambda>(_, _, p). length p)") auto

declare XXH32_words.simps [simp del]

fun XXH32_bytes :: "u32 \<Rightarrow> bytes \<Rightarrow> u32" where
  "XXH32_bytes h32 [] = h32"
| "XXH32_bytes h32 (b # p) =
     (let h32 = h32 + ucast b * PRIME32_5;
          h32 = XXH_rotl32 h32 11 * PRIME32_1
      in XXH32_bytes h32 p)"

definition XXH32_avalanche :: "u32 \<Rightarrow> u32" where
  "XXH32_avalanche h32 =
     (let h32 = xorshift 15 h32;
          h32 = h32 * PRIME32_2;
          h32 = xorshift 13 h32;
          h32 = h32 * PRIME32_3
      in xorshift 16 h32)"

definition XXH32_finish :: "XXH_endianess \<Rightarrow> u32 \<Rightarrow> bytes \<Rightarrow> u32" where
  "XXH32_finish endian h32 p =
     (let (h32, p) = XXH32_words endian h32 p in XXH32_avalanche (XXH32_bytes h32 p))"

definition XXH32 :: "XXH_endianess \<Rightarrow> bytes \<Rightarrow> u32 \<Rightarrow> u32" where
  "XXH32 endian inp seed =
     (let len = length inp;
          (h32, p) =
            (if 16 \<le> len
             then let (vs, p) = XXH32_stripes endian
                        (seed + PRIME32_1 + PRIME32_2, seed + PRIME32_2, seed + 0, seed - PRIME32_1) inp
                  in (XXH32_converge vs, p)
             else (seed + PRIME32_5, inp));
          h32 = h32 + of_nat len
      in XXH32_finish endian h32 p)"

record XXH_istate32_t =
  total_len32 :: u64
  seed32_of :: u32
  v32 :: lanes32
  mem32 :: bytes
  memsize32 :: u32

definition XXH32_reset :: "XXH_istate32_t \<Rightarrow> u32 \<Rightarrow> XXH_istate32_t" where
  "XXH32_reset state seed = state
     \<lparr> seed32_of := seed,
       v32 := (seed + PRIME32_1 + PRIME32_2, seed + PRIME32_2, seed + 0, seed - PRIME32_1),
       total_len32 := 0,
       memsize32 := 0 \<rparr>"

definition XXH32_update :: "XXH_endianess \<Rightarrow> XXH_istate32_t \<Rightarrow> bytes \<Rightarrow> XXH_istate32_t" where
  "XXH32_update endian state inp =
     (let len = length inp;
          state = state\<lparr> total_len32 := total_len32 state + of_nat len \<rparr>;
          memsize = unat (memsize32 state)
      in if memsize + len < 16
         then state\<lparr> mem32 := XXH_memcpy (mem32 state) memsize inp,
                     memsize32 := memsize32 state + of_nat len \<rparr>
         else let (state, p) =
                    (if memsize32 state \<noteq> 0
                     then let state = state\<lparr> mem32 := XXH_memcpy (mem32 state) memsize (take (16 - memsize) inp) \<rparr>;
                              state = state\<lparr> v32 := XXH32_stripe endian (v32 state) (mem32 state) \<rparr>
                          in (state\<lparr> memsize32 := 0 \<rparr>, drop (16 - memsize) inp)
                     else (state, inp));
                  (state, p) =
                    (if 16 \<le> length p
                     then let (vs, p) = XXH32_stripes endian (v32 state) p in (state\<lparr> v32 := vs \<rparr>, p)
                     else (state, p))
              in if p \<noteq> []
                 then state\<lparr> mem32 := XXH_memcpy (mem32 state) 0 p, memsize32 := of_nat (length p) \<rparr>
                 else state)"

definition XXH32_digest :: "XXH_endianess \<Rightarrow> XXH_istate32_t \<Rightarrow> u32" where
  "XXH32_digest endian state =
     (let p = take (unat (memsize32 state)) (mem32 state);
          h32 = (if 16 \<le> total_len32 state then XXH32_converge (v32 state)
                 else seed32_of state + PRIME32_5);
          h32 = h32 + ucast (total_len32 state)
      in XXH32_finish endian h32 p)"

section \<open>Loads do not depend on the byte order\<close>

lemma swap_masks32:
  "(0xff000000 :: u32) = push_bit 24 (mask 8)" "(0x00ff0000 :: u32) = push_bit 16 (mask 8)"
  "(0x0000ff00 :: u32) = push_bit 8 (mask 8)" "(0x000000ff :: u32) = push_bit 0 (mask 8)"
  by (simp_all add: mask_eq_exp_minus_1 push_bit_eq_mult)

lemma swap_masks64:
  "(0xff00000000000000 :: u64) = push_bit 56 (mask 8)" "(0x00ff000000000000 :: u64) = push_bit 48 (mask 8)"
  "(0x0000ff0000000000 :: u64) = push_bit 40 (mask 8)" "(0x000000ff00000000 :: u64) = push_bit 32 (mask 8)"
  "(0x00000000ff000000 :: u64) = push_bit 24 (mask 8)" "(0x0000000000ff0000 :: u64) = push_bit 16 (mask 8)"
  "(0x000000000000ff00 :: u64) = push_bit 8 (mask 8)" "(0x00000000000000ff :: u64) = push_bit 0 (mask 8)"
  by (simp_all add: mask_eq_exp_minus_1 push_bit_eq_mult)

lemma byte_of_masked:
  assumes "8 dvd k" and "8 dvd m"
  shows "(ucast (drop_bit k (y AND push_bit m (mask 8))) :: u8)
     = (if k = m then ucast (drop_bit k (y :: 'a::len word)) else 0)"
proof (rule bit_word_eqI)
  fix n assume "n < LENGTH(8)"
  then have "m \<le> k + n \<and> k + n - m < 8 \<longleftrightarrow> k = m" using assms by (auto elim!: dvdE)
  then show "bit (ucast (drop_bit k (y AND push_bit m (mask 8))) :: u8) n
      = bit (if k = m then ucast (drop_bit k y) else 0 :: u8) n"
    using \<open>n < LENGTH(8)\<close> by (auto simp: bit_simps dest: bit_imp_le_length)
qed

lemma byte_of_pushed:
  assumes "a \<le> k" and "k + 8 \<le> LENGTH('a)"
  shows "(ucast (drop_bit k (push_bit a x)) :: u8) = ucast (drop_bit (k - a) (x :: 'a::len word))"
proof (rule bit_word_eqI)
  fix n assume "n < LENGTH(8)"
  moreover have "k + n - a = k - a + n" using assms by simp
  ultimately show "bit (ucast (drop_bit k (push_bit a x)) :: u8) n
      = bit (ucast (drop_bit (k - a) x) :: u8) n"
    using assms by (simp add: bit_simps)
qed

lemma swap32_byte:
  "k \<in> {0, 8, 16, 24} \<Longrightarrow> (ucast (drop_bit k (XXH_swap32 x)) :: u8) = ucast (drop_bit (24 - k) x)"
  unfolding XXH_swap32_def swap_masks32 drop_bit_or unsigned_or_eq
  by (elim insertE emptyE; simp add: byte_of_masked byte_of_pushed del: drop_bit_0 push_bit_0_id drop_bit_and)

lemma swap64_byte:
  "k \<in> {0, 8, 16, 24, 32, 40, 48, 56} \<Longrightarrow>
     (ucast (drop_bit k (XXH_swap64 x)) :: u8) = ucast (drop_bit (56 - k) x)"
  unfolding XXH_swap64_def swap_masks64 drop_bit_or unsigned_or_eq
  by (elim insertE emptyE; simp add: byte_of_masked byte_of_pushed del: drop_bit_0 push_bit_0_id drop_bit_and)

lemma encode_swap32: "EncodeFixed32 (XXH_swap32 x) = rev (EncodeFixed32 x)"
  by (simp add: EncodeFixed32_map swap32_byte del: drop_bit_0)

lemma encode_swap64: "EncodeFixed64 (XXH_swap64 x) = rev (EncodeFixed64 x)"
  by (simp add: EncodeFixed64_map swap64_byte del: drop_bit_0)

lemma readLE32: "4 \<le> length p \<Longrightarrow> XXH_readLE32 endian p = DecodeFixed32 (take 4 p)"
proof -
  assume "4 \<le> length p"
  then have "EncodeFixed32 (XXH_swap32 (DecodeFixed32 (rev (take 4 p)))) = take 4 p"
    by (simp add: encode_swap32 encode_decode32)
  from arg_cong [OF this, of DecodeFixed32]
  have "XXH_swap32 (DecodeFixed32 (rev (take 4 p))) = DecodeFixed32 (take 4 p)"
    using decode_encode32 [of "XXH_swap32 (DecodeFixed32 (rev (take 4 p)))" "[]"] by simp
  then show ?thesis
    by (cases endian) (simp_all add: XXH_readLE32_def A32_def)
qed

lemma readLE64: "8 \<le> length p \<Longrightarrow> XXH_readLE64 endian p = DecodeFixed64 (take 8 p)"
proof -
  assume "8 \<le> length p"
  then have "EncodeFixed64 (XXH_swap64 (DecodeFixed64 (rev (take 8 p)))) = take 8 p"
    by (simp add: encode_swap64 encode_decode64)
  from arg_cong [OF this, of DecodeFixed64]
  have "XXH_swap64 (DecodeFixed64 (rev (take 8 p))) = DecodeFixed64 (take 8 p)"
    using decode_encode64 [of "XXH_swap64 (DecodeFixed64 (rev (take 8 p)))" "[]"] by simp
  then show ?thesis
    by (cases endian) (simp_all add: XXH_readLE64_def A64_def)
qed

lemma XXH64_stripe_little:
  "32 \<le> length p \<Longrightarrow> XXH64_stripe endian vs p = XXH64_stripe XXH_littleEndian vs p"
  by (simp add: XXH64_stripe_def readLE64)

lemma XXH32_stripe_little:
  "16 \<le> length p \<Longrightarrow> XXH32_stripe endian vs p = XXH32_stripe XXH_littleEndian vs p"
  by (simp add: XXH32_stripe_def readLE32)

lemma XXH64_words_little: "XXH64_words endian h p = XXH64_words XXH_littleEndian h p"
proof (induction endian h p rule: XXH64_words.induct)
  case (1 endian h p)
  then show ?case
    by (simp add: XXH64_words.simps [of _ h p] readLE64 Let_def)
qed

lemma XXH32_words_little: "XXH32_words endian h p = XXH32_words XXH_littleEndian h p"
proof (induction endian h p rule: XXH32_words.induct)
  case (1 endian h p)
  then show ?case
    by (simp add: XXH32_words.simps [of _ h p] readLE32 Let_def)
qed

lemma XXH64_finish_little: "XXH64_finish endian h p = XXH64_finish XXH_littleEndian h p"
  unfolding XXH64_finish_def XXH64_half_def
  by (subst XXH64_words_little) (simp add: readLE32 split_beta Let_def)

lemma XXH32_finish_little: "XXH32_finish endian h p = XXH32_finish XXH_littleEndian h p"
  unfolding XXH32_finish_def by (subst XXH32_words_little) simp

section \<open>Absorbing input stripe by stripe\<close>

text \<open>
  The reference for both loops: feed a step function whole stripes of \<open>B\<close> bytes and keep the rest.
\<close>

function absorb :: "nat \<Rightarrow> ('v \<Rightarrow> bytes \<Rightarrow> 'v) \<Rightarrow> 'v \<Rightarrow> bytes \<Rightarrow> 'v \<times> bytes" where
  "absorb B f v p = (if B = 0 \<or> length p < B then (v, p) else absorb B f (f v p) (drop B p))"
  by pat_completeness auto

termination
  by (relation "measure (\<lambda>(_, _, _, p). length p)") auto

declare absorb.simps [simp del]

lemma absorb_short [simp]: "length p < B \<Longrightarrow> absorb B f v p = (v, p)"
  by (subst absorb.simps) simp

lemma absorb_cong:
  assumes "\<And>v p. B \<le> length p \<Longrightarrow> f v p = g v p"
  shows "absorb B f v p = absorb B g v p"
proof (induction p arbitrary: v rule: length_induct)
  case (1 p)
  show ?case
  proof (cases "B = 0 \<or> length p < B")
    case False
    then have "length (drop B p) < length p" by (cases p) auto
    then show ?thesis
      using 1 False assms [of p v] by (simp add: absorb.simps [of B _ v p])
  qed (simp add: absorb.simps [of B _ v p])
qed

locale stripe_step =
  fixes B :: nat and step :: "'v \<Rightarrow> bytes \<Rightarrow> 'v" and loop :: "'v \<Rightarrow> bytes \<Rightarrow> 'v \<times> bytes"
  assumes B_pos: "0 < B"
    and step_prefix: "B \<le> length p \<Longrightarrow> step v (p @ q) = step v p"
    and loop_unfold: "loop v p = (if B \<le> length (drop B p) then loop (step v p) (drop B p)
                                  else (step v p, drop B p))"
begin

lemma absorb_step: "B \<le> length p \<Longrightarrow> absorb B step v p = absorb B step (step v p) (drop B p)"
  using B_pos by (subst absorb.simps) simp

lemma loop_absorb: "B \<le> length p \<Longrightarrow> loop v p = absorb B step v p"
proof (induction p arbitrary: v rule: length_induct)
  case (1 p)
  have "length (drop B p) < length p" using B_pos 1(2) by (cases p) auto
  then show ?case
    using 1 by (subst loop_unfold) (auto simp: absorb_step)
qed

lemma absorb_append:
  "absorb B step v (a @ b) = (let (v', r) = absorb B step v a in absorb B step v' (r @ b))"
proof (induction a arbitrary: v rule: length_induct)
  case (1 a)
  show ?case
  proof (cases "B \<le> length a")
    case True
    then have "length (drop B a) < length a" using B_pos by (cases a) auto
    then show ?thesis
      using 1 True by (simp add: absorb_step [of "a @ b"] absorb_step [of a] step_prefix)
  qed simp
qed

lemma absorb_rest: "length (snd (absorb B step v p)) < B"
proof (induction p arbitrary: v rule: length_induct)
  case (1 p)
  show ?case
  proof (cases "B \<le> length p")
    case True
    then have "length (drop B p) < length p" using B_pos by (cases p) auto
    then show ?thesis using 1 True by (simp add: absorb_step)
  qed simp
qed

text \<open>One more piece of input, given what was absorbed and what is still buffered.\<close>

lemma absorb_more:
  assumes "absorb B step v0 data = (v, buf)"
  shows "absorb B step v0 (data @ inp) =
     (if length buf + length inp < B then (v, buf @ inp)
      else if buf \<noteq> [] then absorb B step (step v (buf @ take (B - length buf) inp)) (drop (B - length buf) inp)
      else absorb B step v inp)"
proof -
  have all: "absorb B step v0 (data @ inp) = absorb B step v (buf @ inp)"
    using assms by (simp add: absorb_append [of v0 data inp])
  have buf: "length buf < B" using absorb_rest [of v0 data] assms by simp
  show ?thesis
  proof (cases "length buf + length inp < B")
    case False
    let ?s = "buf @ take (B - length buf) inp"
    have "length ?s = B" using buf False by simp
    then have "step v (?s @ drop (B - length buf) inp) = step v ?s"
      by (intro step_prefix) simp
    then have "step v (buf @ inp) = step v ?s" by simp
    moreover have "drop B (buf @ inp) = drop (B - length buf) inp" using buf by simp
    ultimately show ?thesis
      using False absorb_step [of "buf @ inp" v] by (cases "buf = []") (simp_all add: all)
  qed (simp add: all)
qed

end

lemma take_memcpy:
  "off \<le> length dest \<Longrightarrow> take (off + length src) (XXH_memcpy dest off src) = take off dest @ src"
  by (simp add: XXH_memcpy_def)

lemma length_memcpy [simp]:
  "off + length src \<le> length dest \<Longrightarrow> length (XXH_memcpy dest off src) = length dest"
  by (simp add: XXH_memcpy_def)

lemma readLE64_prefix: "8 \<le> length p \<Longrightarrow> XXH_readLE64 endian (p @ q) = XXH_readLE64 endian p"
  by (simp add: readLE64)

lemma readLE32_prefix: "4 \<le> length p \<Longrightarrow> XXH_readLE32 endian (p @ q) = XXH_readLE32 endian p"
  by (simp add: readLE32)

interpretation xxh64: stripe_step 32 "XXH64_stripe endian" "XXH64_stripes endian" for endian
proof
  show "XXH64_stripe endian v (p @ q) = XXH64_stripe endian v p" if "32 \<le> length p" for v p q
    using that by (simp add: XXH64_stripe_def readLE64_prefix)
  show "XXH64_stripes endian v p = (if 32 \<le> length (drop 32 p)
      then XXH64_stripes endian (XXH64_stripe endian v p) (drop 32 p)
      else (XXH64_stripe endian v p, drop 32 p))" for v p
    by (subst XXH64_stripes.simps) (simp add: Let_def)
qed simp

interpretation xxh32: stripe_step 16 "XXH32_stripe endian" "XXH32_stripes endian" for endian
proof
  show "XXH32_stripe endian v (p @ q) = XXH32_stripe endian v p" if "16 \<le> length p" for v p q
    using that by (simp add: XXH32_stripe_def readLE32_prefix)
  show "XXH32_stripes endian v p = (if 16 \<le> length (drop 16 p)
      then XXH32_stripes endian (XXH32_stripe endian v p) (drop 16 p)
      else (XXH32_stripe endian v p, drop 16 p))" for v p
    by (subst XXH32_stripes.simps) (simp add: Let_def)
qed simp

section \<open>The 64-bit stream\<close>

definition XXH64_lanes :: "u64 \<Rightarrow> lanes64" where
  "XXH64_lanes seed = (seed + PRIME64_1 + PRIME64_2, seed + PRIME64_2, seed + 0, seed - PRIME64_1)"

text \<open>What the state records after the bytes \<open>data\<close> were fed to it.\<close>

definition XXH64_fed :: "XXH_endianess \<Rightarrow> u64 \<Rightarrow> bytes \<Rightarrow> XXH_istate64_t \<Rightarrow> bool" where
  "XXH64_fed endian seed data st \<longleftrightarrow>
     length (mem64 st) = 32 \<and> seed64_of st = seed \<and> total_len64 st = of_nat (length data) \<and>
     unat (memsize64 st) < 32 \<and>
     absorb 32 (XXH64_stripe endian) (XXH64_lanes seed) data
       = (v64 st, take (unat (memsize64 st)) (mem64 st))"

lemma XXH64_fed_reset: "length (mem64 st) = 32 \<Longrightarrow> XXH64_fed endian seed [] (XXH64_reset st seed)"
  by (simp add: XXH64_fed_def XXH64_reset_def XXH64_lanes_def)

lemma XXH64_run:
  assumes "absorb 32 (XXH64_stripe endian) (v64 s) p = (v', p')"
  shows "(if 32 \<le> length p then (case XXH64_stripes endian (v64 s) p of (vs, p) \<Rightarrow> (s\<lparr> v64 := vs \<rparr>, p))
          else (s, p)) = (s\<lparr> v64 := v' \<rparr>, p')"
  using assms by (cases s) (auto simp: xxh64.loop_absorb)

lemma XXH64_fed_update:
  assumes "XXH64_fed endian seed data st"
  shows "XXH64_fed endian seed (data @ inp) (XXH64_update endian st inp)"
proof -
  define m where "m = unat (memsize64 st)"
  define buf where "buf = take m (mem64 st)"
  have st: "length (mem64 st) = 32" "seed64_of st = seed" "total_len64 st = of_nat (length data)" "m < 32"
      "absorb 32 (XXH64_stripe endian) (XXH64_lanes seed) data = (v64 st, buf)"
    using assms by (simp_all add: XXH64_fed_def m_def buf_def)
  have buf: "length buf = m" using st by (simp add: buf_def)
  note more = xxh64.absorb_more [OF st(5), of inp]
  show ?thesis
  proof (cases "m + length inp < 32")
    case True
    then have "unat (memsize64 st + of_nat (length inp)) = m + length inp"
      by (simp add: m_def unat_word_ariths unat_of_nat)
    then show ?thesis
      using True st buf more take_memcpy [of m "mem64 st" inp]
      by (simp add: XXH64_fed_def XXH64_update_def buf_def Let_def flip: m_def)
  next
    case False
    have zero: "memsize64 st = 0 \<longleftrightarrow> m = 0" by (simp add: m_def unat_eq_zero)
    define p where "p = drop (if m = 0 then 0 else 32 - m) inp"
    define v where "v = (if m = 0 then v64 st
      else XXH64_stripe endian (v64 st) (buf @ take (32 - m) inp))"
    have full: "XXH_memcpy (mem64 st) m (take (32 - m) inp) = buf @ take (32 - m) inp"
      using False st(1,4) by (simp add: XXH_memcpy_def buf_def)
    have step: "absorb 32 (XXH64_stripe endian) (XXH64_lanes seed) (data @ inp)
        = absorb 32 (XXH64_stripe endian) v p"
      using False more buf by (cases "buf = []") (auto simp: v_def p_def)
    obtain v' p' where absorb: "absorb 32 (XXH64_stripe endian) v p = (v', p')" by fastforce
    have p': "length p' < 32" using xxh64.absorb_rest [of endian v p] absorb by simp
    define s where "s = (if m = 0 then st\<lparr> total_len64 := total_len64 st + of_nat (length inp) \<rparr>
      else st\<lparr> total_len64 := total_len64 st + of_nat (length inp),
               mem64 := buf @ take (32 - m) inp, v64 := v, memsize64 := 0 \<rparr>)"
    have s: "v64 s = v" "length (mem64 s) = 32" "memsize64 s = 0" "seed64_of s = seed"
        "total_len64 s = of_nat (length (data @ inp))"
      using False st buf zero by (auto simp: s_def v_def)
    have upd: "XXH64_update endian st inp =
       (if p' \<noteq> [] then s\<lparr> v64 := v', mem64 := XXH_memcpy (mem64 s) 0 p', memsize64 := of_nat (length p') \<rparr>
        else s\<lparr> v64 := v' \<rparr>)"
    proof (cases "m = 0")
      case True
      then show ?thesis
        using False XXH64_run [of endian s p v' p'] absorb zero
        by (simp add: XXH64_update_def Let_def s_def v_def p_def flip: m_def cong: if_cong)
    next
      case mem: False
      have "XXH64_stripe endian (v64 st) (buf @ take (32 - m) inp) = v" "drop (32 - m) inp = p"
        using mem by (simp_all add: v_def p_def)
      then show ?thesis
        using False mem XXH64_run [of endian s p v' p'] absorb zero full
        by (simp add: XXH64_update_def Let_def s_def flip: m_def cong: if_cong)
    qed
    have "unat (of_nat (length p') :: u32) = length p'" using p' by (simp add: unat_of_nat)
    then show ?thesis
      using s p' step absorb take_memcpy [of 0 "mem64 s" p']
      by (cases "p' = []") (simp_all add: XXH64_fed_def upd)
  qed
qed

lemma XXH64_absorb:
  "XXH64 endian inp seed =
     (let (vs, p) = absorb 32 (XXH64_stripe endian) (XXH64_lanes seed) inp
      in XXH64_finish endian ((if 32 \<le> length inp then XXH64_converge vs else seed + PRIME64_5)
           + of_nat (length inp)) p)"
  by (simp add: XXH64_def Let_def xxh64.loop_absorb XXH64_lanes_def split_beta)

lemma XXH64_little: "XXH64 endian inp seed = XXH64 XXH_littleEndian inp seed"
  unfolding XXH64_absorb
  using absorb_cong [of 32 "XXH64_stripe endian" "XXH64_stripe XXH_littleEndian" "XXH64_lanes seed" inp]
  by (simp add: XXH64_stripe_little [of _ endian] XXH64_finish_little [of endian] split_beta)

lemma XXH64_fed_digest:
  assumes "XXH64_fed endian seed data st" and "length data < 2 ^ 64"
  shows "XXH64_digest endian st = XXH64 endian data seed"
proof -
  have "32 \<le> total_len64 st \<longleftrightarrow> 32 \<le> length data"
    using assms by (simp add: XXH64_fed_def word_le_nat_alt unat_of_nat)
  then show ?thesis
    using assms by (simp add: XXH64_fed_def XXH64_absorb XXH64_digest_def Let_def)
qed

lemma XXH64_fed_updates:
  "XXH64_fed endian seed data st \<Longrightarrow>
     XXH64_fed endian seed (data @ concat ps) (foldl (XXH64_update endian) st ps)"
proof (induction ps arbitrary: data st)
  case (Cons p ps)
  then show ?case
    using Cons.IH [OF XXH64_fed_update [OF Cons.prems]] by simp
qed simp

section \<open>The 32-bit stream\<close>

definition XXH32_lanes :: "u32 \<Rightarrow> lanes32" where
  "XXH32_lanes seed = (seed + PRIME32_1 + PRIME32_2, seed + PRIME32_2, seed + 0, seed - PRIME32_1)"

text \<open>What the state records after the bytes \<open>data\<close> were fed to it.\<close>

definition XXH32_fed :: "XXH_endianess \<Rightarrow> u32 \<Rightarrow> bytes \<Rightarrow> XXH_istate32_t \<Rightarrow> bool" where
  "XXH32_fed endian seed data st \<longleftrightarrow>
     length (mem32 st) = 16 \<and> seed32_of st = seed \<and> total_len32 st = of_nat (length data) \<and>
     unat (memsize32 st) < 16 \<and>
     absorb 16 (XXH32_stripe endian) (XXH32_lanes seed) data
       = (v32 st, take (unat (memsize32 st)) (mem32 st))"

lemma XXH32_fed_reset: "length (mem32 st) = 16 \<Longrightarrow> XXH32_fed endian seed [] (XXH32_reset st seed)"
  by (simp add: XXH32_fed_def XXH32_reset_def XXH32_lanes_def)

lemma XXH32_run:
  assumes "absorb 16 (XXH32_stripe endian) (v32 s) p = (v', p')"
  shows "(if 16 \<le> length p then (case XXH32_stripes endian (v32 s) p of (vs, p) \<Rightarrow> (s\<lparr> v32 := vs \<rparr>, p))
          else (s, p)) = (s\<lparr> v32 := v' \<rparr>, p')"
  using assms by (cases s) (auto simp: xxh32.loop_absorb)

lemma XXH32_fed_update:
  assumes "XXH32_fed endian seed data st"
  shows "XXH32_fed endian seed (data @ inp) (XXH32_update endian st inp)"
proof -
  define m where "m = unat (memsize32 st)"
  define buf where "buf = take m (mem32 st)"
  have st: "length (mem32 st) = 16" "seed32_of st = seed" "total_len32 st = of_nat (length data)" "m < 16"
      "absorb 16 (XXH32_stripe endian) (XXH32_lanes seed) data = (v32 st, buf)"
    using assms by (simp_all add: XXH32_fed_def m_def buf_def)
  have buf: "length buf = m" using st by (simp add: buf_def)
  note more = xxh32.absorb_more [OF st(5), of inp]
  show ?thesis
  proof (cases "m + length inp < 16")
    case True
    then have "unat (memsize32 st + of_nat (length inp)) = m + length inp"
      by (simp add: m_def unat_word_ariths unat_of_nat)
    then show ?thesis
      using True st buf more take_memcpy [of m "mem32 st" inp]
      by (simp add: XXH32_fed_def XXH32_update_def buf_def Let_def flip: m_def)
  next
    case False
    have zero: "memsize32 st = 0 \<longleftrightarrow> m = 0" by (simp add: m_def unat_eq_zero)
    define p where "p = drop (if m = 0 then 0 else 16 - m) inp"
    define v where "v = (if m = 0 then v32 st
      else XXH32_stripe endian (v32 st) (buf @ take (16 - m) inp))"
    have full: "XXH_memcpy (mem32 st) m (take (16 - m) inp) = buf @ take (16 - m) inp"
      using False st(1,4) by (simp add: XXH_memcpy_def buf_def)
    have step: "absorb 16 (XXH32_stripe endian) (XXH32_lanes seed) (data @ inp)
        = absorb 16 (XXH32_stripe endian) v p"
      using False more buf by (cases "buf = []") (auto simp: v_def p_def)
    obtain v' p' where absorb: "absorb 16 (XXH32_stripe endian) v p = (v', p')" by fastforce
    have p': "length p' < 16" using xxh32.absorb_rest [of endian v p] absorb by simp
    define s where "s = (if m = 0 then st\<lparr> total_len32 := total_len32 st + of_nat (length inp) \<rparr>
      else st\<lparr> total_len32 := total_len32 st + of_nat (length inp),
               mem32 := buf @ take (16 - m) inp, v32 := v, memsize32 := 0 \<rparr>)"
    have s: "v32 s = v" "length (mem32 s) = 16" "memsize32 s = 0" "seed32_of s = seed"
        "total_len32 s = of_nat (length (data @ inp))"
      using False st buf zero by (auto simp: s_def v_def)
    have upd: "XXH32_update endian st inp =
       (if p' \<noteq> [] then s\<lparr> v32 := v', mem32 := XXH_memcpy (mem32 s) 0 p', memsize32 := of_nat (length p') \<rparr>
        else s\<lparr> v32 := v' \<rparr>)"
    proof (cases "m = 0")
      case True
      then show ?thesis
        using False XXH32_run [of endian s p v' p'] absorb zero
        by (simp add: XXH32_update_def Let_def s_def v_def p_def flip: m_def cong: if_cong)
    next
      case mem: False
      have "XXH32_stripe endian (v32 st) (buf @ take (16 - m) inp) = v" "drop (16 - m) inp = p"
        using mem by (simp_all add: v_def p_def)
      then show ?thesis
        using False mem XXH32_run [of endian s p v' p'] absorb zero full
        by (simp add: XXH32_update_def Let_def s_def flip: m_def cong: if_cong)
    qed
    have "unat (of_nat (length p') :: u32) = length p'" using p' by (simp add: unat_of_nat)
    then show ?thesis
      using s p' step absorb take_memcpy [of 0 "mem32 s" p']
      by (cases "p' = []") (simp_all add: XXH32_fed_def upd)
  qed
qed

lemma XXH32_absorb:
  "XXH32 endian inp seed =
     (let (vs, p) = absorb 16 (XXH32_stripe endian) (XXH32_lanes seed) inp
      in XXH32_finish endian ((if 16 \<le> length inp then XXH32_converge vs else seed + PRIME32_5)
           + of_nat (length inp)) p)"
  by (simp add: XXH32_def Let_def xxh32.loop_absorb XXH32_lanes_def split_beta)

lemma XXH32_little: "XXH32 endian inp seed = XXH32 XXH_littleEndian inp seed"
  unfolding XXH32_absorb
  using absorb_cong [of 16 "XXH32_stripe endian" "XXH32_stripe XXH_littleEndian" "XXH32_lanes seed" inp]
  by (simp add: XXH32_stripe_little [of _ endian] XXH32_finish_little [of endian] split_beta)

lemma XXH32_fed_digest:
  assumes "XXH32_fed endian seed data st" and "length data < 2 ^ 64"
  shows "XXH32_digest endian st = XXH32 endian data seed"
proof -
  have "16 \<le> total_len32 st \<longleftrightarrow> 16 \<le> length data"
    using assms by (simp add: XXH32_fed_def word_le_nat_alt unat_of_nat)
  then show ?thesis
    using assms by (simp add: XXH32_fed_def XXH32_absorb XXH32_digest_def Let_def ucast_of_nat_unat unat_of_nat)
qed

lemma XXH32_fed_updates:
  "XXH32_fed endian seed data st \<Longrightarrow>
     XXH32_fed endian seed (data @ concat ps) (foldl (XXH32_update endian) st ps)"
proof (induction ps arbitrary: data st)
  case (Cons p ps)
  then show ?case
    using Cons.IH [OF XXH32_fed_update [OF Cons.prems]] by simp
qed simp

section \<open>Properties\<close>

text \<open>
  C9. Streaming computes the one-shot hash: however the input is cut into pieces, feeding them to
  \<open>XXH64_update\<close> (or \<open>XXH32_update\<close>) after a reset and taking the digest gives the hash of the whole
  input, from any initial buffer contents, and the result is the same on machines of either byte order.
\<close>

theorem xxhash_streaming:
  assumes "length (concat ps) < 2 ^ 64" and "length (mem64 s) = 32" and "length (mem32 t) = 16"
  shows "XXH64_digest cpu (foldl (XXH64_update cpu) (XXH64_reset s seed) ps) = XXH64 cpu' (concat ps) seed
   \<and> XXH32_digest cpu (foldl (XXH32_update cpu) (XXH32_reset t sd) ps) = XXH32 cpu' (concat ps) sd"
proof
  show "XXH64_digest cpu (foldl (XXH64_update cpu) (XXH64_reset s seed) ps) = XXH64 cpu' (concat ps) seed"
    using XXH64_fed_digest [OF XXH64_fed_updates [OF XXH64_fed_reset [OF assms(2)], of cpu seed ps]]
      assms(1) XXH64_little [of cpu] XXH64_little [of cpu'] by simp
  show "XXH32_digest cpu (foldl (XXH32_update cpu) (XXH32_reset t sd) ps) = XXH32 cpu' (concat ps) sd"
    using XXH32_fed_digest [OF XXH32_fed_updates [OF XXH32_fed_reset [OF assms(3)], of cpu sd ps]]
      assms(1) XXH32_little [of cpu] XXH32_little [of cpu'] by simp
qed

theorem xxhash_streaming_witness:
  "let s = \<lparr> total_len64 = 7, seed64_of = 1, v64 = (0, 0, 0, 0), mem64 = replicate 32 9, memsize64 = 5 \<rparr>;
       t = \<lparr> total_len32 = 7, seed32_of = 1, v32 = (0, 0, 0, 0), mem32 = replicate 16 9, memsize32 = 5 \<rparr>;
       ps = [[1, 2, 3], [], replicate 40 7]
   in XXH64_digest XXH_bigEndian (foldl (XXH64_update XXH_bigEndian) (XXH64_reset s 11) ps)
        = XXH64 XXH_littleEndian (concat ps) 11
    \<and> XXH32_digest XXH_bigEndian (foldl (XXH32_update XXH_bigEndian) (XXH32_reset t 11) ps)
        = XXH32 XXH_littleEndian (concat ps) 11"
  unfolding Let_def by (intro xxhash_streaming) simp_all

end
