(* ===== verification/TopicUuid.thy ===== *)
theory TopicUuid
  imports XxHash
begin

text \<open>
  \<open>src/util/topic_uuid.{h,cc}\<close>: the identifier of a namespace and topic, with the routing hash that
  places the topic on a log and a control tower. The byte order of the machine and the contents of
  the uninitialised hash state on the stack are arguments; the theorems show that neither matters.
  \<open>operator==\<close> compares \<open>uuid_\<close> only, so the other components key their tables by that member.
\<close>

section \<open>Definitions\<close>

type_synonym topic_uuid = bytes

record TopicUUID =
  uuid :: topic_uuid
  routing_hash :: u64

definition routing_seed :: u64 where "routing_seed = 0x9ee8fcef51dbffe8"

definition RoutingHash :: "XXH_endianess \<Rightarrow> XXH_istate64_t \<Rightarrow> slice \<Rightarrow> slice \<Rightarrow> u64" where
  "RoutingHash cpu state namespace_id topic_name =
     (let state = XXH64_reset state routing_seed;
          state = XXH64_update cpu state namespace_id;
          state = XXH64_update cpu state topic_name
      in XXH64_digest cpu state)"

definition TopicUUID_default :: TopicUUID where
  "TopicUUID_default = \<lparr> uuid = [], routing_hash = 0 \<rparr>"

definition TopicUUID_new :: "XXH_endianess \<Rightarrow> XXH_istate64_t \<Rightarrow> slice \<Rightarrow> slice \<Rightarrow> TopicUUID" where
  "TopicUUID_new cpu state namespace_id topic =
     \<lparr> uuid = PutTopicID [] namespace_id topic, routing_hash = RoutingHash cpu state namespace_id topic \<rparr>"

definition TopicUUID_Hash :: "TopicUUID \<Rightarrow> u64" where
  "TopicUUID_Hash u = routing_hash u"

definition TopicUUID_RoutingHash :: "TopicUUID \<Rightarrow> u64" where
  "TopicUUID_RoutingHash u = routing_hash u"

definition TopicUUID_eq :: "TopicUUID \<Rightarrow> TopicUUID \<Rightarrow> bool" where
  "TopicUUID_eq l r = (uuid l = uuid r)"

definition TopicUUID_GetTopicID :: "TopicUUID \<Rightarrow> failure + NamespaceID \<times> Topic" where
  "TopicUUID_GetTopicID u =
     (case fst (GetTopicID (uuid u)) of None \<Rightarrow> Inl Assert_failed | Some topic_id \<Rightarrow> Inr topic_id)"

definition TopicUUID_eq_pair :: "TopicUUID \<Rightarrow> slice \<times> slice \<Rightarrow> failure + bool" where
  "TopicUUID_eq_pair u namespace_topic =
     (case TopicUUID_GetTopicID u of
        Inl e \<Rightarrow> Inl e
      | Inr (namespace_id, topic_name) \<Rightarrow>
          Inr (topic_name = snd namespace_topic \<and> namespace_id = fst namespace_topic))"

definition ascii :: "string \<Rightarrow> bytes" where
  "ascii s = map of_char s"

definition TopicUUID_ToString :: "TopicUUID \<Rightarrow> failure + bytes" where
  "TopicUUID_ToString u =
     (case TopicUUID_GetTopicID u of
        Inl e \<Rightarrow> Inl e
      | Inr (namespace_id, topic_name) \<Rightarrow>
          Inr (ascii ''Topic('' @ namespace_id @ ascii '','' @ topic_name @ ascii '')''))"

section \<open>Lemmas\<close>

lemma RoutingHash_one_shot:
  assumes "length (ns @ t) < 2 ^ 64" and "length (mem64 st) = 32"
  shows "RoutingHash cpu st ns t = XXH64 cpu' (ns @ t) routing_seed"
  using XXH64_fed_digest [OF XXH64_fed_updates [OF XXH64_fed_reset [OF assms(2)], of cpu routing_seed "[ns, t]"]]
    assms(1) XXH64_little [of cpu] XXH64_little [of cpu']
  by (simp add: RoutingHash_def Let_def)

lemma GetTopicID_PutTopicID:
  assumes "length ns < 2 ^ 32" and "length t < 2 ^ 32"
  shows "GetTopicID (PutTopicID [] ns t @ rest) = (Some (ns, t), rest)"
  using topicid.get_put [of "(ns, t)" rest] assms by (simp add: put_simps)

lemma PutTopicID_inject:
  assumes "length ns < 2 ^ 32" and "length t < 2 ^ 32" and "length ns' < 2 ^ 32" and "length t' < 2 ^ 32"
  shows "PutTopicID [] ns t = PutTopicID [] ns' t' \<longleftrightarrow> ns = ns' \<and> t = t'"
proof
  assume "PutTopicID [] ns t = PutTopicID [] ns' t'"
  from arg_cong [OF this, of GetTopicID] show "ns = ns' \<and> t = t'"
    using GetTopicID_PutTopicID [OF assms(1,2), of "[]"] GetTopicID_PutTopicID [OF assms(3,4), of "[]"]
    by simp
qed simp

section \<open>Properties\<close>

text \<open>
  C10. A topic identifier determines its namespace and topic: both can be read back from it, two
  identifiers are equal exactly when both parts are (so a separator cannot be forged), comparing with
  a pair decides the same thing, and equal identifiers have equal routing hashes on every machine.
\<close>

theorem topic_uuid_identifies:
  assumes "length ns < 2 ^ 32" and "length t < 2 ^ 32" and "length ns' < 2 ^ 32" and "length t' < 2 ^ 32"
    and "length (mem64 st) = 32" and "length (mem64 st') = 32"
  shows "TopicUUID_GetTopicID (TopicUUID_new cpu st ns t) = Inr (ns, t)
   \<and> TopicUUID_eq_pair (TopicUUID_new cpu st ns t) (ns', t')
       = Inr (TopicUUID_eq (TopicUUID_new cpu st ns t) (TopicUUID_new cpu' st' ns' t'))
   \<and> TopicUUID_eq (TopicUUID_new cpu st ns t) (TopicUUID_new cpu' st' ns' t') = (ns = ns' \<and> t = t')
   \<and> (TopicUUID_eq (TopicUUID_new cpu st ns t) (TopicUUID_new cpu' st' ns' t') \<longrightarrow>
      TopicUUID_RoutingHash (TopicUUID_new cpu st ns t) = TopicUUID_RoutingHash (TopicUUID_new cpu' st' ns' t'))"
proof -
  have get: "TopicUUID_GetTopicID (TopicUUID_new cpu st ns t) = Inr (ns, t)"
    using GetTopicID_PutTopicID [OF assms(1,2), of "[]"]
    by (simp add: TopicUUID_GetTopicID_def TopicUUID_new_def)
  have eq: "TopicUUID_eq (TopicUUID_new cpu st ns t) (TopicUUID_new cpu' st' ns' t') = (ns = ns' \<and> t = t')"
    using PutTopicID_inject [OF assms(1-4)] by (simp add: TopicUUID_eq_def TopicUUID_new_def)
  have "length (ns @ t) < 2 ^ 64" using assms(1,2) by simp
  note RoutingHash_one_shot [OF this assms(5), of cpu XXH_littleEndian]
    RoutingHash_one_shot [OF this assms(6), of cpu' XXH_littleEndian]
  then show ?thesis
    using get eq by (auto simp: TopicUUID_eq_pair_def TopicUUID_RoutingHash_def TopicUUID_new_def)
qed

theorem topic_uuid_identifies_witness:
  "let st = \<lparr> total_len64 = 0, seed64_of = 0, v64 = (0, 0, 0, 0), mem64 = replicate 32 0, memsize64 = 0 \<rparr>
   in \<not> TopicUUID_eq (TopicUUID_new XXH_littleEndian st [97] [98, 99])
          (TopicUUID_new XXH_littleEndian st [97, 98] [99])"
  unfolding Let_def
  by (subst topic_uuid_identifies [THEN conjunct2, THEN conjunct2, THEN conjunct1]) simp_all

end
