(* ===== verification/TopicManager.thy ===== *)
theory TopicManager
  imports SubscriptionId Maps TopicUuid
begin

text \<open>
  The subscription tables of the control tower: \<open>TopicManager\<close> (\<open>src/controltower/topic.{h,cc}\<close>), which
  keeps for each topic the list of its subscribers with the next sequence number each of them
  expects, and \<open>SubscriptionMap\<close> (\<open>src/util/subscription_map.h\<close>), which finds a value by stream and
  subscription. Both are shown to implement finite maps: from topic and subscriber to
  sequence number, and from stream and subscription to value. A topic is represented by the
  \<open>uuid_\<close> of its \<open>TopicUUID\<close>, which is all that \<open>operator==\<close> compares.
\<close>

section \<open>Subscribers of one topic\<close>

record CopilotSub =
  cs_stream_id :: StreamID
  cs_sub_id :: SubscriptionID

definition CopilotSub_default :: CopilotSub where
  "CopilotSub_default = \<lparr> cs_stream_id = 0, cs_sub_id = 0 \<rparr>"

definition CopilotSub_eq :: "CopilotSub \<Rightarrow> CopilotSub \<Rightarrow> bool" where
  "CopilotSub_eq l r = (cs_stream_id r = cs_stream_id l \<and> cs_sub_id r = cs_sub_id l)"

definition CopilotSub_Hash :: "CopilotSub \<Rightarrow> u64" where
  "CopilotSub_Hash s = MurmurHash2_pair MurmurHash2_size_t MurmurHash2_size_t (cs_stream_id s) (cs_sub_id s)"

record TopicSubscription =
  ts_id :: CopilotSub
  ts_seqno :: SequenceNumber

type_synonym TopicList = "TopicSubscription list"

definition SetSequenceNumber :: "SequenceNumber \<Rightarrow> TopicSubscription \<Rightarrow> TopicSubscription" where
  "SetSequenceNumber seqno sub = sub\<lparr> ts_seqno := seqno \<rparr>"

fun UpdateSubscription :: "TopicList \<Rightarrow> CopilotSub \<Rightarrow> SequenceNumber \<Rightarrow> bool \<times> TopicList" where
  "UpdateSubscription [] sid seqno = (True, [\<lparr> ts_id = sid, ts_seqno = seqno \<rparr>])"
| "UpdateSubscription (sub # subs) sid seqno =
     (if CopilotSub_eq (ts_id sub) sid then (False, SetSequenceNumber seqno sub # subs)
      else let (inserted, subs) = UpdateSubscription subs sid seqno in (inserted, sub # subs))"

fun erase_subscription :: "TopicList \<Rightarrow> CopilotSub \<Rightarrow> TopicList" where
  "erase_subscription [] sid = []"
| "erase_subscription (sub # subs) sid =
     (if CopilotSub_eq (ts_id sub) sid then subs else sub # erase_subscription subs sid)"

definition RemoveSubscription :: "TopicList \<Rightarrow> CopilotSub \<Rightarrow> bool \<times> TopicList" where
  "RemoveSubscription subs sid =
     (let subs = erase_subscription subs sid in (subs = [], subs))"

section \<open>The topic manager\<close>

type_synonym TopicManager = "(topic_uuid, TopicList) umap"

text \<open>\<open>topic_map_[topic]\<close> inserts an empty list when there is none.\<close>

definition TopicManager_AddSubscriber ::
  "TopicManager \<Rightarrow> topic_uuid \<Rightarrow> SequenceNumber \<Rightarrow> CopilotSub \<Rightarrow> bool \<times> TopicManager" where
  "TopicManager_AddSubscriber tm topic start subscriber =
     (let subs = (case umap_find tm topic of None \<Rightarrow> [] | Some subs \<Rightarrow> subs);
          (inserted, subs) = UpdateSubscription subs subscriber start
      in (inserted, umap_set tm topic subs))"

definition TopicManager_RemoveSubscriber ::
  "TopicManager \<Rightarrow> topic_uuid \<Rightarrow> CopilotSub \<Rightarrow> bool \<times> TopicManager" where
  "TopicManager_RemoveSubscriber tm topic subscriber =
     (case umap_find tm topic of
        None \<Rightarrow> (True, tm)
      | Some subs \<Rightarrow>
          let (all_removed, subs) = RemoveSubscription subs subscriber
          in (all_removed, if all_removed then umap_erase tm topic else umap_set tm topic subs))"

text \<open>A visitor may change the subscription it is given and a state of its own.\<close>

fun visit_list ::
  "SequenceNumber \<Rightarrow> SequenceNumber \<Rightarrow> (TopicSubscription \<Rightarrow> 's \<Rightarrow> TopicSubscription \<times> 's)
   \<Rightarrow> TopicList \<Rightarrow> 's \<Rightarrow> TopicList \<times> 's" where
  "visit_list from to visitor [] s = ([], s)"
| "visit_list from to visitor (sub # subs) s =
     (let (sub, s) = (if from \<le> ts_seqno sub \<and> ts_seqno sub \<le> to then visitor sub s else (sub, s));
          (subs, s) = visit_list from to visitor subs s
      in (sub # subs, s))"

definition VisitSubscribers ::
  "TopicManager \<Rightarrow> topic_uuid \<Rightarrow> SequenceNumber \<Rightarrow> SequenceNumber
   \<Rightarrow> (TopicSubscription \<Rightarrow> 's \<Rightarrow> TopicSubscription \<times> 's) \<Rightarrow> 's \<Rightarrow> TopicManager \<times> 's" where
  "VisitSubscribers tm topic from to visitor s =
     (case umap_find tm topic of
        None \<Rightarrow> (tm, s)
      | Some subs \<Rightarrow>
          let (subs, s) = visit_list from to visitor subs s in (umap_set tm topic subs, s))"

text \<open>
  The traversal takes the successor of the current entry before calling the visitor, which may
  remove the entry of the topic it is given; the topics visited are those of the table at the start.
\<close>

fun visit_topics :: "(topic_uuid \<Rightarrow> 's \<Rightarrow> bool \<times> 's) \<Rightarrow> topic_uuid list \<Rightarrow> 's \<Rightarrow> 's" where
  "visit_topics visitor [] s = s"
| "visit_topics visitor (topic # topics) s =
     (let (continue, s) = visitor topic s in if continue then visit_topics visitor topics s else s)"

definition VisitTopics :: "TopicManager \<Rightarrow> (topic_uuid \<Rightarrow> 's \<Rightarrow> bool \<times> 's) \<Rightarrow> 's \<Rightarrow> 's" where
  "VisitTopics tm visitor s = visit_topics visitor (map fst tm) s"

section \<open>The subscription map\<close>

type_synonym 'a SubscriptionMap = "(StreamID, (SubscriptionID, 'a) umap) umap"

definition SubscriptionMap_Find :: "'a SubscriptionMap \<Rightarrow> StreamID \<Rightarrow> SubscriptionID \<Rightarrow> 'a option" where
  "SubscriptionMap_Find m stream_id sub_id =
     (case umap_find m stream_id of
        None \<Rightarrow> None
      | Some inner \<Rightarrow> (case umap_find inner sub_id of None \<Rightarrow> None | Some v \<Rightarrow> Some v))"

definition SubscriptionMap_MoveOut ::
  "'a SubscriptionMap \<Rightarrow> StreamID \<Rightarrow> SubscriptionID \<Rightarrow> 'a option \<times> 'a SubscriptionMap" where
  "SubscriptionMap_MoveOut m stream_id sub_id =
     (case umap_find m stream_id of
        None \<Rightarrow> (None, m)
      | Some inner \<Rightarrow>
          (case umap_find inner sub_id of
             None \<Rightarrow> (None, m)
           | Some v \<Rightarrow> (Some v, umap_set m stream_id (umap_erase inner sub_id))))"

definition SubscriptionMap_Insert ::
  "'a SubscriptionMap \<Rightarrow> StreamID \<Rightarrow> SubscriptionID \<Rightarrow> 'a \<Rightarrow> 'a SubscriptionMap" where
  "SubscriptionMap_Insert m stream_id sub_id value =
     (let inner = (case umap_find m stream_id of None \<Rightarrow> [] | Some inner \<Rightarrow> inner)
      in umap_set m stream_id (umap_emplace inner sub_id value))"

definition SubscriptionMap_RemoveStream :: "'a SubscriptionMap \<Rightarrow> StreamID \<Rightarrow> 'a SubscriptionMap" where
  "SubscriptionMap_RemoveStream m stream_id = umap_erase m stream_id"

definition SubscriptionMap_Remove ::
  "'a SubscriptionMap \<Rightarrow> StreamID \<Rightarrow> SubscriptionID \<Rightarrow> 'a SubscriptionMap" where
  "SubscriptionMap_Remove m stream_id sub_id =
     (case umap_find m stream_id of
        None \<Rightarrow> m
      | Some inner \<Rightarrow> umap_set m stream_id (umap_erase inner sub_id))"

fun visit_entries :: "('k \<Rightarrow> 'a \<Rightarrow> 's \<Rightarrow> 'a \<times> 's) \<Rightarrow> ('k, 'a) umap \<Rightarrow> 's \<Rightarrow> ('k, 'a) umap \<times> 's" where
  "visit_entries visitor [] s = ([], s)"
| "visit_entries visitor ((k, v) # m) s =
     (let (v, s) = visitor k v s; (m, s) = visit_entries visitor m s in ((k, v) # m, s))"

definition VisitSubscriptions ::
  "'a SubscriptionMap \<Rightarrow> StreamID \<Rightarrow> (SubscriptionID \<Rightarrow> 'a \<Rightarrow> 's \<Rightarrow> 'a \<times> 's) \<Rightarrow> 's \<Rightarrow> 'a SubscriptionMap \<times> 's" where
  "VisitSubscriptions m stream_id visitor s =
     (case umap_find m stream_id of
        None \<Rightarrow> (m, s)
      | Some inner \<Rightarrow> let (inner, s) = visit_entries visitor inner s in (umap_set m stream_id inner, s))"

section \<open>The topic manager as a finite map\<close>

definition list_seqno :: "TopicList \<Rightarrow> CopilotSub \<Rightarrow> SequenceNumber option" where
  "list_seqno l sid = map_of (map (\<lambda>sub. (ts_id sub, ts_seqno sub)) l) sid"

definition tm_seqno :: "TopicManager \<Rightarrow> topic_uuid \<Rightarrow> CopilotSub \<Rightarrow> SequenceNumber option" where
  "tm_seqno tm topic sid = (case umap_find tm topic of None \<Rightarrow> None | Some l \<Rightarrow> list_seqno l sid)"

definition list_inv :: "TopicList \<Rightarrow> bool" where
  "list_inv l \<longleftrightarrow> l \<noteq> [] \<and> distinct (map ts_id l)"

definition tm_inv :: "TopicManager \<Rightarrow> bool" where
  "tm_inv tm \<longleftrightarrow> umap_wf tm \<and> (\<forall>t l. umap_find tm t = Some l \<longrightarrow> list_inv l)"

lemma CopilotSub_eq_iff [simp]: "CopilotSub_eq l r \<longleftrightarrow> l = r"
  by (auto simp: CopilotSub_eq_def)

lemma list_seqno_Nil [simp]: "list_seqno [] sid = None"
  by (simp add: list_seqno_def)

lemma list_seqno_Cons [simp]:
  "list_seqno (sub # l) sid = (if sid = ts_id sub then Some (ts_seqno sub) else list_seqno l sid)"
  by (auto simp: list_seqno_def)

lemma list_seqno_None: "list_seqno l sid = None \<longleftrightarrow> sid \<notin> ts_id ` set l"
  by (induction l) auto

lemma list_seqno_Some:
  "distinct (map ts_id l) \<Longrightarrow> list_seqno l sid = Some n \<longleftrightarrow> (\<exists>sub \<in> set l. ts_id sub = sid \<and> ts_seqno sub = n)"
  by (induction l) (auto simp: list_seqno_None image_iff)

lemma UpdateSubscription_spec:
  "fst (UpdateSubscription l sid n) = (list_seqno l sid = None)
   \<and> list_seqno (snd (UpdateSubscription l sid n)) = (list_seqno l)(sid \<mapsto> n)
   \<and> ts_id ` set (snd (UpdateSubscription l sid n)) = insert sid (ts_id ` set l)
   \<and> (distinct (map ts_id l) \<longrightarrow> list_inv (snd (UpdateSubscription l sid n)))"
  by (induction l) (auto simp: SetSequenceNumber_def list_inv_def split_beta Let_def fun_eq_iff)

lemma erase_subscription_spec:
  "distinct (map ts_id l) \<Longrightarrow>
   list_seqno (erase_subscription l sid) = (list_seqno l)(sid := None)
   \<and> distinct (map ts_id (erase_subscription l sid))
   \<and> set (erase_subscription l sid) = {sub \<in> set l. ts_id sub \<noteq> sid}"
proof (induction l)
  case (Cons sub l)
  then have "sub \<notin> set l" "ts_id sub \<notin> ts_id ` set l" by auto
  then show ?case using Cons by (auto simp: fun_eq_iff list_seqno_None image_iff)
qed (simp add: fun_eq_iff)

lemma tm_inv_list: "tm_inv tm \<Longrightarrow> umap_find tm t = Some l \<Longrightarrow> l \<noteq> [] \<and> distinct (map ts_id l)"
  by (auto simp: tm_inv_def list_inv_def)

lemma AddSubscriber_spec:
  assumes "tm_inv tm"
  shows "fst (TopicManager_AddSubscriber tm t n sid) = (tm_seqno tm t sid = None)"
    and "tm_seqno (snd (TopicManager_AddSubscriber tm t n sid)) = (tm_seqno tm)(t := (tm_seqno tm t)(sid \<mapsto> n))"
    and "tm_inv (snd (TopicManager_AddSubscriber tm t n sid))"
proof -
  define l where "l = (case umap_find tm t of None \<Rightarrow> [] | Some l \<Rightarrow> l)"
  have l: "tm_seqno tm t = list_seqno l" "distinct (map ts_id l)"
    using tm_inv_list [OF assms, of t] by (auto simp: l_def tm_seqno_def fun_eq_iff split: option.splits)
  have add: "TopicManager_AddSubscriber tm t n sid
      = (fst (UpdateSubscription l sid n), umap_set tm t (snd (UpdateSubscription l sid n)))"
    by (simp add: TopicManager_AddSubscriber_def l_def split_beta Let_def)
  note upd = UpdateSubscription_spec [of l sid n]
  show "fst (TopicManager_AddSubscriber tm t n sid) = (tm_seqno tm t sid = None)"
    using upd l by (simp add: add)
  show "tm_seqno (snd (TopicManager_AddSubscriber tm t n sid)) = (tm_seqno tm)(t := (tm_seqno tm t)(sid \<mapsto> n))"
    using upd by (simp add: add l(1) fun_eq_iff) (simp add: tm_seqno_def)
  show "tm_inv (snd (TopicManager_AddSubscriber tm t n sid))"
    using upd l assms by (simp add: add tm_inv_def)
qed

lemma RemoveSubscriber_spec:
  assumes "tm_inv tm"
  shows "fst (TopicManager_RemoveSubscriber tm t sid) = (\<forall>sid'. sid' \<noteq> sid \<longrightarrow> tm_seqno tm t sid' = None)"
    and "tm_seqno (snd (TopicManager_RemoveSubscriber tm t sid)) = (tm_seqno tm)(t := (tm_seqno tm t)(sid := None))"
    and "tm_inv (snd (TopicManager_RemoveSubscriber tm t sid))"
proof -
  consider (no) "umap_find tm t = None" | (one) l where "umap_find tm t = Some l" by blast
  then have "fst (TopicManager_RemoveSubscriber tm t sid) = (\<forall>sid'. sid' \<noteq> sid \<longrightarrow> tm_seqno tm t sid' = None)
    \<and> tm_seqno (snd (TopicManager_RemoveSubscriber tm t sid)) = (tm_seqno tm)(t := (tm_seqno tm t)(sid := None))
    \<and> tm_inv (snd (TopicManager_RemoveSubscriber tm t sid))"
  proof cases
    case no
    then show ?thesis using assms by (auto simp: TopicManager_RemoveSubscriber_def tm_seqno_def fun_eq_iff)
  next
    case one
    have d: "distinct (map ts_id l)" using tm_inv_list [OF assms one] by blast
    note er = erase_subscription_spec [OF d, of sid]
    have empty: "erase_subscription l sid = [] \<longleftrightarrow> (\<forall>sid'. sid' \<noteq> sid \<longrightarrow> list_seqno l sid' = None)"
      using er by (auto simp: list_seqno_None simp flip: set_empty)
    show ?thesis
      using assms one er empty
      by (auto simp: TopicManager_RemoveSubscriber_def RemoveSubscription_def tm_seqno_def tm_inv_def
          list_inv_def fun_eq_iff Let_def)
  qed
  then show "fst (TopicManager_RemoveSubscriber tm t sid) = (\<forall>sid'. sid' \<noteq> sid \<longrightarrow> tm_seqno tm t sid' = None)"
    and "tm_seqno (snd (TopicManager_RemoveSubscriber tm t sid)) = (tm_seqno tm)(t := (tm_seqno tm t)(sid := None))"
    and "tm_inv (snd (TopicManager_RemoveSubscriber tm t sid))" by blast+
qed

lemma visit_list_ids:
  assumes "\<And>sub s. ts_id (fst (visitor sub s)) = ts_id sub"
  shows "map ts_id (fst (visit_list from to visitor l s)) = map ts_id l"
proof (induction l arbitrary: s)
  case (Cons sub l)
  show ?case using assms [of sub s] Cons by (simp add: split_beta Let_def)
qed simp

lemma VisitSubscribers_inv:
  assumes "tm_inv tm" and "\<And>sub s. ts_id (fst (visitor sub s)) = ts_id sub"
  shows "tm_inv (fst (VisitSubscribers tm t from to visitor s))"
proof (cases "umap_find tm t")
  case (Some l)
  have "list_inv (fst (visit_list from to visitor l s))"
    using visit_list_ids [of visitor "from" to l s, OF assms(2)] tm_inv_list [OF assms(1) Some]
    by (auto simp: list_inv_def)
  then show ?thesis using assms(1) Some by (simp add: VisitSubscribers_def tm_inv_def split_beta Let_def)
qed (use assms in \<open>simp add: VisitSubscribers_def\<close>)

text \<open>
  The visitor every caller passes: note the subscriber and move it to a new sequence number.
\<close>

definition in_range :: "SequenceNumber \<Rightarrow> SequenceNumber \<Rightarrow> SequenceNumber option \<Rightarrow> bool" where
  "in_range from to n = (case n of None \<Rightarrow> False | Some m \<Rightarrow> from \<le> m \<and> m \<le> to)"

lemma in_range_iff: "in_range from to n \<longleftrightarrow> (\<exists>m. n = Some m \<and> from \<le> m \<and> m \<le> to)"
  by (cases n) (auto simp: in_range_def)

lemma visit_list_advance:
  "visit_list from to (\<lambda>sub out. (SetSequenceNumber n sub, out @ [f sub])) l out =
     (map (\<lambda>sub. if from \<le> ts_seqno sub \<and> ts_seqno sub \<le> to then SetSequenceNumber n sub else sub) l,
      out @ map f (filter (\<lambda>sub. from \<le> ts_seqno sub \<and> ts_seqno sub \<le> to) l))"
  by (induction l arbitrary: out) auto

lemma list_seqno_advance:
  "list_seqno (map (\<lambda>sub. if from \<le> ts_seqno sub \<and> ts_seqno sub \<le> to then SetSequenceNumber n sub else sub) l) sid
     = (if in_range from to (list_seqno l sid) then Some n else list_seqno l sid)"
  by (induction l) (auto simp: SetSequenceNumber_def in_range_def)

lemma set_visited:
  assumes "distinct (map ts_id l)"
  shows "ts_id ` {sub \<in> set l. from \<le> ts_seqno sub \<and> ts_seqno sub \<le> to} = {sid. in_range from to (list_seqno l sid)}"
proof -
  have "in_range from to (list_seqno l sid) \<longleftrightarrow>
      (\<exists>sub \<in> set l. ts_id sub = sid \<and> from \<le> ts_seqno sub \<and> ts_seqno sub \<le> to)" for sid
    using assms by (auto simp: in_range_iff list_seqno_Some)
  then show ?thesis by auto
qed

lemma VisitSubscribers_advance:
  fixes t :: topic_uuid and "from" to n :: SequenceNumber
  assumes "tm_inv tm"
  defines "r \<equiv> VisitSubscribers tm t from to (\<lambda>sub out. (SetSequenceNumber n sub, out @ [ts_id sub])) []"
  shows "tm_seqno (fst r) = (tm_seqno tm)(t := (\<lambda>sid. if in_range from to (tm_seqno tm t sid) then Some n else tm_seqno tm t sid))"
    and "set (snd r) = {sid. in_range from to (tm_seqno tm t sid)}"
    and "distinct (snd r)"
    and "tm_inv (fst r)"
proof -
  show "tm_inv (fst r)"
    unfolding r_def using assms(1) by (rule VisitSubscribers_inv) (simp add: SetSequenceNumber_def)
  show "tm_seqno (fst r) = (tm_seqno tm)(t := (\<lambda>sid. if in_range from to (tm_seqno tm t sid) then Some n else tm_seqno tm t sid))"
    by (auto simp: r_def VisitSubscribers_def visit_list_advance list_seqno_advance tm_seqno_def
        in_range_def fun_eq_iff split: option.splits)
  show "set (snd r) = {sid. in_range from to (tm_seqno tm t sid)}"
    using tm_inv_list [OF assms(1), of t] set_visited [of _ "from" to]
    by (cases "umap_find tm t")
      (auto simp: r_def VisitSubscribers_def visit_list_advance tm_seqno_def in_range_def)
  show "distinct (snd r)"
    using tm_inv_list [OF assms(1), of t]
    by (cases "umap_find tm t")
      (auto simp: r_def VisitSubscribers_def visit_list_advance distinct_map inj_on_def)
qed

section \<open>Properties\<close>

text \<open>
  C17. The topic manager implements a finite map from topic and subscriber to the next expected sequence
  number. Adding a subscriber sets its entry and reports whether it is new; removing one clears
  its entry and reports whether no other subscriber is left; a visit that delivers to the
  subscribers expecting a number in a range reaches each of them exactly once and nobody else, and
  moves exactly them. No operation leaves a topic without subscribers in the table or a
  subscriber twice on a topic.
\<close>

theorem topic_manager_refines_map:
  assumes "tm_inv tm"
  shows "(let (new, tm') = TopicManager_AddSubscriber tm t n sid in
            tm_inv tm' \<and> new = (tm_seqno tm t sid = None) \<and>
            tm_seqno tm' = (tm_seqno tm)(t := (tm_seqno tm t)(sid \<mapsto> n)))
   \<and> (let (last, tm') = TopicManager_RemoveSubscriber tm t sid in
            tm_inv tm' \<and> last = (\<forall>sid'. sid' \<noteq> sid \<longrightarrow> tm_seqno tm t sid' = None) \<and>
            tm_seqno tm' = (tm_seqno tm)(t := (tm_seqno tm t)(sid := None)))
   \<and> (let (tm', reached) = VisitSubscribers tm t from to
              (\<lambda>sub out. (SetSequenceNumber n sub, out @ [ts_id sub])) [] in
            tm_inv tm' \<and> distinct reached \<and> set reached = {sid. in_range from to (tm_seqno tm t sid)} \<and>
            tm_seqno tm' = (tm_seqno tm)(t := (\<lambda>sid. if sid \<in> set reached then Some n else tm_seqno tm t sid)))"
  using AddSubscriber_spec [OF assms(1), of t n sid] RemoveSubscriber_spec [OF assms(1), of t sid]
    VisitSubscribers_advance [OF assms(1), of t "from" to n]
  by (simp add: split_beta Let_def)

theorem topic_manager_refines_map_witness:
  "let a = \<lparr> cs_stream_id = 1, cs_sub_id = 2 \<rparr>; b = \<lparr> cs_stream_id = 3, cs_sub_id = 4 \<rparr>;
       tm = snd (TopicManager_AddSubscriber (snd (TopicManager_AddSubscriber [] [7] 5 a)) [7] 9 b)
   in tm_inv tm \<and> fst (TopicManager_RemoveSubscriber tm [7] a) = False
      \<and> snd (VisitSubscribers tm [7] 3 6 (\<lambda>sub out. (SetSequenceNumber 8 sub, out @ [ts_id sub])) []) = [a]"
proof -
  define a where "a = \<lparr> cs_stream_id = 1, cs_sub_id = 2 \<rparr>"
  define b where "b = \<lparr> cs_stream_id = 3, cs_sub_id = 4 \<rparr>"
  have "tm_inv []" by (simp add: tm_inv_def)
  from topic_manager_refines_map [OF this, of "[7]" 5 a]
  have one: "tm_inv (snd (TopicManager_AddSubscriber [] [7] 5 a))" by (simp add: split_beta Let_def)
  from topic_manager_refines_map [OF one, of "[7]" 9 b]
  have two: "tm_inv (snd (TopicManager_AddSubscriber (snd (TopicManager_AddSubscriber [] [7] 5 a)) [7] 9 b))"
    by (simp add: split_beta Let_def)
  then show ?thesis
    unfolding Let_def a_def [symmetric] b_def [symmetric]
    by (simp add: TopicManager_AddSubscriber_def TopicManager_RemoveSubscriber_def RemoveSubscription_def
        VisitSubscribers_def SetSequenceNumber_def umap_set_def a_def b_def)
qed

text \<open>
  C26. The subscription map implements a finite map from stream and subscription to value: a value
  inserted under a free key is found, an insertion under a key in use keeps the old value, removal of
  a subscription, of a whole stream or by moving the value out clears exactly the keys concerned,
  and moving out returns what a lookup finds.
\<close>

theorem subscription_map_refines_map:
  "SubscriptionMap_Find (SubscriptionMap_Insert m s i v) s' i' =
     (if s' = s \<and> i' = i \<and> SubscriptionMap_Find m s i = None then Some v else SubscriptionMap_Find m s' i')
   \<and> SubscriptionMap_Find (SubscriptionMap_Remove m s i) s' i' =
     (if s' = s \<and> i' = i then None else SubscriptionMap_Find m s' i')
   \<and> SubscriptionMap_Find (SubscriptionMap_RemoveStream m s) s' i' =
     (if s' = s then None else SubscriptionMap_Find m s' i')
   \<and> fst (SubscriptionMap_MoveOut m s i) = SubscriptionMap_Find m s i
   \<and> SubscriptionMap_Find (snd (SubscriptionMap_MoveOut m s i)) s' i' =
     (if s' = s \<and> i' = i then None else SubscriptionMap_Find m s' i')"
  by (auto simp: SubscriptionMap_Find_def SubscriptionMap_Insert_def SubscriptionMap_Remove_def
      SubscriptionMap_RemoveStream_def SubscriptionMap_MoveOut_def Let_def split: option.splits)

end
