(* ===== verification/OrderedDict.thy ===== *)
theory OrderedDict
  imports LinkedMap
begin

text \<open>
  What the clients of \<open>LinkedMap\<close> rely on: a dictionary that remembers an order of its entries. The
  operations below work on the plain list of entries; \<open>linked_implements_odict\<close> shows that the linked
  list with its hash index (\<open>LinkedMap.thy\<close>) implements each of them, so the components that use the
  container are modelled on top of this interface. An iterator obtained from \<open>find(k)\<close> is named by \<open>k\<close>.
\<close>

type_synonym ('k, 'v) odict = "('k \<times> 'v) list"

abbreviation od_find :: "('k, 'v) odict \<Rightarrow> 'k \<Rightarrow> 'v option" where
  "od_find m k \<equiv> map_of m k"

definition od_wf :: "('k, 'v) odict \<Rightarrow> bool" where
  "od_wf m \<longleftrightarrow> distinct (map fst m)"

definition od_emplace_front :: "'k \<Rightarrow> 'v \<Rightarrow> ('k, 'v) odict \<Rightarrow> ('k, 'v) odict" where
  "od_emplace_front k v m = (case od_find m k of None \<Rightarrow> (k, v) # m | Some _ \<Rightarrow> m)"

definition od_emplace_back :: "'k \<Rightarrow> 'v \<Rightarrow> ('k, 'v) odict \<Rightarrow> ('k, 'v) odict" where
  "od_emplace_back k v m = (case od_find m k of None \<Rightarrow> m @ [(k, v)] | Some _ \<Rightarrow> m)"

definition od_erase :: "'k \<Rightarrow> ('k, 'v) odict \<Rightarrow> ('k, 'v) odict" where
  "od_erase k m = filter (\<lambda>e. fst e \<noteq> k) m"

definition od_move_to_back :: "'k \<Rightarrow> ('k, 'v) odict \<Rightarrow> ('k, 'v) odict" where
  "od_move_to_back k m = filter (\<lambda>e. fst e \<noteq> k) m @ filter (\<lambda>e. fst e = k) m"

definition od_move_to_front :: "'k \<Rightarrow> ('k, 'v) odict \<Rightarrow> ('k, 'v) odict" where
  "od_move_to_front k m = filter (\<lambda>e. fst e = k) m @ filter (\<lambda>e. fst e \<noteq> k) m"

text \<open>\<open>find(k)->second = v\<close>; nothing happens when there is no such entry.\<close>

definition od_assign :: "'k \<Rightarrow> 'v \<Rightarrow> ('k, 'v) odict \<Rightarrow> ('k, 'v) odict" where
  "od_assign k v m = map (\<lambda>e. if fst e = k then (k, v) else e) m"

section \<open>Lookups\<close>

lemma od_wf_Nil [simp]: "od_wf []"
  by (simp add: od_wf_def)

lemma od_find_emplace_front [simp]:
  "od_find (od_emplace_front k v m) k' = (if k' = k \<and> od_find m k = None then Some v else od_find m k')"
  by (auto simp: od_emplace_front_def split: option.splits)

lemma od_find_emplace_back [simp]:
  "od_find (od_emplace_back k v m) k' = (if k' = k \<and> od_find m k = None then Some v else od_find m k')"
  by (auto simp: od_emplace_back_def map_add_def split: option.splits)

lemma od_find_erase [simp]: "od_find (od_erase k m) k' = (if k' = k then None else od_find m k')"
  unfolding od_erase_def by (induction m) auto

lemma od_find_filter_same: "od_find (filter (\<lambda>e. fst e = k) m) k' = (if k' = k then od_find m k else None)"
  by (induction m) auto

lemma od_find_filter_other: "od_find (filter (\<lambda>e. fst e \<noteq> k) m) k' = (if k' = k then None else od_find m k')"
  by (induction m) auto

lemma od_find_move_to_back [simp]: "od_find (od_move_to_back k m) k' = od_find m k'"
  by (auto simp: od_move_to_back_def od_find_filter_same od_find_filter_other map_add_def split: option.splits)

lemma od_find_move_to_front [simp]: "od_find (od_move_to_front k m) k' = od_find m k'"
  by (auto simp: od_move_to_front_def od_find_filter_same od_find_filter_other map_add_def split: option.splits)

lemma od_find_assign [simp]:
  "od_find (od_assign k v m) k' = (if k' = k \<and> od_find m k \<noteq> None then Some v else od_find m k')"
  unfolding od_assign_def by (induction m) auto

lemma od_wf_emplace [simp]:
  "od_wf m \<Longrightarrow> od_wf (od_emplace_front k v m)" "od_wf m \<Longrightarrow> od_wf (od_emplace_back k v m)"
  by (auto simp: od_wf_def od_emplace_front_def od_emplace_back_def map_of_eq_None_iff split: option.splits)

lemma od_wf_erase [simp]: "od_wf m \<Longrightarrow> od_wf (od_erase k m)"
  by (simp add: od_wf_def od_erase_def distinct_map_filter)

lemma od_wf_move [simp]:
  "od_wf m \<Longrightarrow> od_wf (od_move_to_back k m)" "od_wf m \<Longrightarrow> od_wf (od_move_to_front k m)"
  by (auto simp: od_wf_def od_move_to_back_def od_move_to_front_def distinct_map_filter)

lemma od_wf_assign [simp]: "od_wf m \<Longrightarrow> od_wf (od_assign k v m)"
proof -
  have "map fst (od_assign k v m) = map fst m" by (auto simp: od_assign_def)
  then show "od_wf m \<Longrightarrow> od_wf (od_assign k v m)" by (simp add: od_wf_def)
qed

lemma od_in_set: "od_wf m \<Longrightarrow> (k, v) \<in> set m \<longleftrightarrow> od_find m k = Some v"
  by (simp add: od_wf_def)

lemma od_empty_iff: "m = [] \<longleftrightarrow> (\<forall>k. od_find m k = None)"
  by (auto simp: map_of_eq_None_iff)

lemma od_length [simp]:
  "length (od_move_to_back k m) = length m" "length (od_move_to_front k m) = length m"
  "length (od_assign k v m) = length m"
  by (auto simp: od_move_to_back_def od_move_to_front_def od_assign_def add.commute
      intro: sum_length_filter_compl [of "\<lambda>e. fst e = k", simplified add.commute])

lemma od_move_empty [simp]:
  "od_move_to_back k m = [] \<longleftrightarrow> m = []" "od_move_to_front k m = [] \<longleftrightarrow> m = []" "od_assign k v m = [] \<longleftrightarrow> m = []"
  using od_length by (metis length_0_conv)+

lemma od_emplace_nonempty [simp]: "od_emplace_front k v m \<noteq> []" "od_emplace_back k v m \<noteq> []"
  by (auto simp: od_emplace_front_def od_emplace_back_def split: option.splits)

section \<open>The linked container implements the dictionary\<close>

lemma odict_dict_exec:
  "dict_exec fst (Emplace_front (k, v)) m = Some (od_emplace_front k v m)"
  "dict_exec fst (Emplace_back (k, v)) m = Some (od_emplace_back k v m)"
  "dict_exec fst (Erase k) m = Some (od_erase k m)"
  "dict_exec fst (Move_back k) m = Some (od_move_to_back k m)"
  "dict_exec fst (Move_front k) m = Some (od_move_to_front k m)"
  by (auto simp: od_emplace_front_def od_emplace_back_def od_erase_def od_move_to_back_def
      od_move_to_front_def map_of_eq_None_iff split: option.splits dest!: map_of_SomeD intro: rev_image_eqI)

lemma linked_implements_odict:
  assumes "linked_inv fst L"
  shows "rel_option (\<lambda>L' m. linked_inv fst L' \<and> linked_abs L' = m)
      (linked_exec fst (Emplace_front (k, v)) L) (Some (od_emplace_front k v (linked_abs L)))"
    and "rel_option (\<lambda>L' m. linked_inv fst L' \<and> linked_abs L' = m)
      (linked_exec fst (Emplace_back (k, v)) L) (Some (od_emplace_back k v (linked_abs L)))"
    and "rel_option (\<lambda>L' m. linked_inv fst L' \<and> linked_abs L' = m)
      (linked_exec fst (Erase k) L) (Some (od_erase k (linked_abs L)))"
    and "rel_option (\<lambda>L' m. linked_inv fst L' \<and> linked_abs L' = m)
      (linked_exec fst (Move_back k) L) (Some (od_move_to_back k (linked_abs L)))"
    and "rel_option (\<lambda>L' m. linked_inv fst L' \<and> linked_abs L' = m)
      (linked_exec fst (Move_front k) L) (Some (od_move_to_front k (linked_abs L)))"
  using linked_exec_refines [OF assms] unfolding odict_dict_exec [symmetric] by blast+

lemma linked_assign_implements_odict:
  assumes "linked_inv fst L" and "linked_find L k = Some n"
  shows "linked_inv fst (linked_assign n (\<lambda>e. (fst e, v)) L)"
    and "linked_abs (linked_assign n (\<lambda>e. (fst e, v)) L) = od_assign k v (linked_abs L)"
proof -
  have "umap_find (linked_index L) k = Some n"
    using assms(2) by (simp add: linked_find_def split: option.splits)
  then obtain x where x: "(n, x) \<in> set (linked_list L)" "fst x = k"
    using linked_find_node [OF assms(1)] by metis
  show "linked_inv fst (linked_assign n (\<lambda>e. (fst e, v)) L)"
    using linked_assign_refines(1) [OF assms(1) x(1)] by simp
  show "linked_abs (linked_assign n (\<lambda>e. (fst e, v)) L) = od_assign k v (linked_abs L)"
    using linked_assign_refines(3) [OF assms(1) x(1), of "\<lambda>e. (fst e, v)"] x(2)
    by (auto simp: od_assign_def)
qed

end
