(* ===== verification/LogReader.thy ===== *)
theory LogReader
  imports OrderedDict TopicUuid MessageTypes
begin

text \<open>
  \<open>LogReader\<close> of \<open>src/controltower/topic_tailer.cc\<close>: the bookkeeping of one reader of the logs. For each
  open log it keeps the last sequence number read and, for each subscribed topic, the sequence
  number from which on the reader has seen no record of the topic. The calls it makes on the log
  tailer are returned as a list; where the code looks at the status such a call returns, that
  status is an argument. Logging is left out.
\<close>

section \<open>State\<close>

type_synonym LogID = u64

text \<open>\<open>TopicState\<close> has the single member \<open>next_seqno\<close>.\<close>

type_synonym TopicState = SequenceNumber

record LogState =
  topics :: "(topic_uuid, TopicState) odict"
  last_read :: SequenceNumber
  is_reading :: bool

text \<open>A reader without a tailer is virtual. The lag is an \<open>int64_t\<close>, used in unsigned arithmetic.\<close>

record LogReader =
  is_virtual :: bool
  reader_id :: u64
  log_state :: "(LogID, LogState) umap"
  max_subscription_lag :: u64

datatype tailer_call =
    Tailer_StartReading LogID SequenceNumber u64
  | Tailer_StopReading LogID u64

definition LogReader_new :: "bool \<Rightarrow> u64 \<Rightarrow> u64 \<Rightarrow> LogReader" where
  "LogReader_new virtual rid lag =
     \<lparr> is_virtual = virtual, reader_id = rid, log_state = [], max_subscription_lag = lag \<rparr>"

definition set_log :: "LogID \<Rightarrow> LogState \<Rightarrow> LogReader \<Rightarrow> LogReader" where
  "set_log log_id ls r = r\<lparr> log_state := umap_set (log_state r) log_id ls \<rparr>"

definition IsLogOpen :: "LogReader \<Rightarrow> LogID \<Rightarrow> bool" where
  "IsLogOpen r log_id \<longleftrightarrow> umap_find (log_state r) log_id \<noteq> None"

definition GetNextSequenceNumber :: "LogReader \<Rightarrow> LogID \<Rightarrow> SequenceNumber" where
  "GetNextSequenceNumber r log_id =
     (case umap_find (log_state r) log_id of Some ls \<Rightarrow> last_read ls + 1 | None \<Rightarrow> 0)"

section \<open>Starting and stopping the tailer\<close>

definition StartLogReader ::
  "LogReader \<Rightarrow> LogID \<Rightarrow> LogState \<Rightarrow> SequenceNumber \<Rightarrow> LogState \<times> tailer_call list" where
  "StartLogReader r log_id ls seqno =
     (if last_read ls \<noteq> seqno - 1 \<or> \<not> is_reading ls
      then (ls\<lparr> last_read := seqno - 1, is_reading := True \<rparr>,
            if \<not> is_virtual r then [Tailer_StartReading log_id seqno (reader_id r)] else [])
      else (ls, []))"

definition StopLogReader :: "LogReader \<Rightarrow> LogID \<Rightarrow> LogState \<Rightarrow> LogState \<times> tailer_call list" where
  "StopLogReader r log_id ls =
     (if is_reading ls
      then (ls\<lparr> is_reading := False \<rparr>,
            if \<not> is_virtual r then [Tailer_StopReading log_id (reader_id r)] else [])
      else (ls, []))"

definition RestartLogReader :: "LogReader \<Rightarrow> LogID \<Rightarrow> LogState \<Rightarrow> LogState \<times> tailer_call list" where
  "RestartLogReader r log_id ls =
     (ls\<lparr> is_reading := True \<rparr>,
      if \<not> is_virtual r then [Tailer_StartReading log_id (last_read ls + 1) (reader_id r)] else [])"

section \<open>Records and gaps\<close>

definition ProcessRecord ::
  "LogReader \<Rightarrow> LogID \<Rightarrow> SequenceNumber \<Rightarrow> topic_uuid \<Rightarrow> failure + SequenceNumber \<times> LogReader" where
  "ProcessRecord r log_id seqno topic =
     (case umap_find (log_state r) log_id of
        None \<Rightarrow> Inl Assert_failed
      | Some ls \<Rightarrow>
          let ls = ls\<lparr> last_read := seqno \<rparr>
          in case od_find (topics ls) topic of
               Some prev_seqno \<Rightarrow>
                 Inr (prev_seqno, set_log log_id
                   (ls\<lparr> topics := od_move_to_back topic (od_assign topic (seqno + 1) (topics ls)) \<rparr>) r)
             | None \<Rightarrow> Inr (0, set_log log_id ls r))"

definition ProcessGap ::
  "LogReader \<Rightarrow> LogID \<Rightarrow> topic_uuid \<Rightarrow> GapType \<Rightarrow> SequenceNumber \<Rightarrow> SequenceNumber
   \<Rightarrow> failure + SequenceNumber \<times> LogReader" where
  "ProcessGap r log_id topic type from to =
     (case umap_find (log_state r) log_id of
        None \<Rightarrow> Inl Assert_failed
      | Some ls \<Rightarrow>
          if from \<noteq> last_read ls + 1 then Inl Assert_failed
          else case od_find (topics ls) topic of
                 Some prev_seqno \<Rightarrow>
                   if prev_seqno = 0 then Inl Assert_failed
                   else Inr (prev_seqno, set_log log_id
                     (ls\<lparr> topics := od_move_to_back topic (od_assign topic (to + 1) (topics ls)) \<rparr>) r)
               | None \<Rightarrow> Inr (0, r))"

definition FlushHistory :: "LogReader \<Rightarrow> LogID \<Rightarrow> SequenceNumber \<Rightarrow> LogReader" where
  "FlushHistory r log_id seqno =
     (case umap_find (log_state r) log_id of
        None \<Rightarrow> r
      | Some ls \<Rightarrow> set_log log_id (ls\<lparr> last_read := seqno - 1 \<rparr>) r)"

definition ProcessBenignGap :: "LogReader \<Rightarrow> LogID \<Rightarrow> SequenceNumber \<Rightarrow> SequenceNumber \<Rightarrow> LogReader" where
  "ProcessBenignGap r log_id from to =
     (case umap_find (log_state r) log_id of
        None \<Rightarrow> r
      | Some ls \<Rightarrow> set_log log_id (ls\<lparr> last_read := to \<rparr>) r)"

text \<open>
  The loop of \<open>BumpLaggingSubscriptions\<close>. It calls \<open>on_bump\<close> for the topics at the front of the list that
  lag behind; the model returns the topics with the sequence numbers they were bumped from, in order.
  \<open>None\<close> is a loop that never ends.
\<close>

partial_function (option) bump_loop ::
  "u64 \<Rightarrow> SequenceNumber \<Rightarrow> (topic_uuid, TopicState) odict \<Rightarrow> (topic_uuid \<times> SequenceNumber) list
   \<Rightarrow> ((topic_uuid, TopicState) odict \<times> (topic_uuid \<times> SequenceNumber) list) option" where
  "bump_loop lag seqno ts bumped =
     (case ts of
        [] \<Rightarrow> Some (ts, bumped)
      | (topic, tseqno) # _ \<Rightarrow>
          if tseqno + lag < seqno
          then bump_loop lag seqno (od_assign topic (seqno + 1) (od_move_to_back topic ts))
                 (bumped @ [(topic, tseqno)])
          else Some (ts, bumped))"

declare bump_loop.simps [code]

definition BumpLaggingSubscriptions ::
  "LogReader \<Rightarrow> LogID \<Rightarrow> SequenceNumber \<Rightarrow> (LogReader \<times> (topic_uuid \<times> SequenceNumber) list) option" where
  "BumpLaggingSubscriptions r log_id seqno =
     (case umap_find (log_state r) log_id of
        None \<Rightarrow> Some (r, [])
      | Some ls \<Rightarrow>
          (case bump_loop (max_subscription_lag r) seqno (topics ls) [] of
             None \<Rightarrow> None
           | Some (ts, bumped) \<Rightarrow> Some (set_log log_id (ls\<lparr> topics := ts \<rparr>) r, bumped)))"

section \<open>Subscriptions\<close>

definition LogReader_StartReading ::
  "LogReader \<Rightarrow> topic_uuid \<Rightarrow> LogID \<Rightarrow> SequenceNumber \<Rightarrow> LogReader \<times> tailer_call list" where
  "LogReader_StartReading r topic log_id seqno =
     (let (first_open, ls) =
            (case umap_find (log_state r) log_id of
               None \<Rightarrow> (True, \<lparr> topics = [], last_read = seqno - 1, is_reading = False \<rparr>)
             | Some ls \<Rightarrow> (False, ls));
          (reseek, ls) =
            (case od_find (topics ls) topic of
               None \<Rightarrow> (True, ls\<lparr> topics := od_emplace_front topic seqno (topics ls) \<rparr>)
             | Some next_seqno \<Rightarrow>
                 (seqno < next_seqno,
                  ls\<lparr> topics := od_move_to_front topic
                        (od_assign topic (min next_seqno seqno) (topics ls)) \<rparr>));
          reseek = (if \<not> first_open \<and> reseek then seqno \<le> last_read ls else reseek);
          (ls, calls) = (if reseek then StartLogReader r log_id ls seqno else (ls, []))
      in (set_log log_id ls r, calls))"

definition LogReader_StopReading ::
  "LogReader \<Rightarrow> topic_uuid \<Rightarrow> LogID \<Rightarrow> LogReader \<times> tailer_call list" where
  "LogReader_StopReading r topic log_id =
     (case umap_find (log_state r) log_id of
        None \<Rightarrow> (r, [])
      | Some ls \<Rightarrow>
          (case od_find (topics ls) topic of
             None \<Rightarrow> (r, [])
           | Some _ \<Rightarrow>
               let ls = ls\<lparr> topics := od_erase topic (topics ls) \<rparr>
               in if topics ls = []
                  then (r\<lparr> log_state := umap_erase (log_state r) log_id \<rparr>, snd (StopLogReader r log_id ls))
                  else (set_log log_id ls r, [])))"

definition PauseReading :: "LogReader \<Rightarrow> LogID \<Rightarrow> failure + LogReader \<times> tailer_call list" where
  "PauseReading r log_id =
     (if is_virtual r then Inl Assert_failed
      else case umap_find (log_state r) log_id of
             None \<Rightarrow> Inl Assert_failed
           | Some ls \<Rightarrow> let (ls, calls) = StopLogReader r log_id ls in Inr (set_log log_id ls r, calls))"

definition RestartReading :: "LogReader \<Rightarrow> LogID \<Rightarrow> failure + LogReader \<times> tailer_call list" where
  "RestartReading r log_id =
     (if is_virtual r then Inl Assert_failed
      else case umap_find (log_state r) log_id of
             None \<Rightarrow> Inl Assert_failed
           | Some ls \<Rightarrow> let (ls, calls) = RestartLogReader r log_id ls in Inr (set_log log_id ls r, calls))"

definition kSubscriptionCostRewind :: u64 where "kSubscriptionCostRewind = - 1"
definition kSubscriptionCostStart :: u64 where "kSubscriptionCostStart = 1000"

definition SubscriptionCost :: "LogReader \<Rightarrow> topic_uuid \<Rightarrow> LogID \<Rightarrow> SequenceNumber \<Rightarrow> u64" where
  "SubscriptionCost r topic log_id seqno =
     (case umap_find (log_state r) log_id of
        None \<Rightarrow> kSubscriptionCostStart
      | Some ls \<Rightarrow>
          if last_read ls < seqno then seqno - last_read ls
          else case od_find (topics ls) topic of
                 None \<Rightarrow> kSubscriptionCostRewind
               | Some next_seqno \<Rightarrow> if seqno < next_seqno then kSubscriptionCostRewind else 0)"

section \<open>Merging readers\<close>

definition CanMergeInto :: "LogReader \<Rightarrow> LogReader \<Rightarrow> LogID \<Rightarrow> failure + bool" where
  "CanMergeInto src dest log_id =
     (if is_virtual src \<or> is_virtual dest then Inl Assert_failed
      else Inr (case (umap_find (log_state src) log_id, umap_find (log_state dest) log_id) of
                  (Some s, Some d) \<Rightarrow> last_read d = last_read s
                | _ \<Rightarrow> False))"

definition merge_topic ::
  "topic_uuid \<times> TopicState \<Rightarrow> (topic_uuid, TopicState) odict \<Rightarrow> (topic_uuid, TopicState) odict" where
  "merge_topic e dest =
     (case od_find dest (fst e) of
        Some dest_topic \<Rightarrow> od_assign (fst e) (min dest_topic (snd e)) dest
      | None \<Rightarrow> od_emplace_back (fst e) (snd e) dest)"

definition MergeInto ::
  "LogReader \<Rightarrow> LogReader \<Rightarrow> LogID \<Rightarrow> failure + LogReader \<times> LogReader \<times> tailer_call list" where
  "MergeInto src dest log_id =
     (case CanMergeInto src dest log_id of
        Inl e \<Rightarrow> Inl e
      | Inr False \<Rightarrow> Inl Assert_failed
      | Inr True \<Rightarrow>
          (case (umap_find (log_state src) log_id, umap_find (log_state dest) log_id) of
             (Some s, Some d) \<Rightarrow>
               Inr (src\<lparr> log_state := umap_erase (log_state src) log_id \<rparr>,
                    set_log log_id (d\<lparr> topics := fold merge_topic (topics s) (topics d) \<rparr>) dest,
                    [Tailer_StopReading log_id (reader_id src)])
           | _ \<Rightarrow> Inl Assert_failed))"

definition ComputeStartSeqno :: "LogState \<Rightarrow> failure + SequenceNumber" where
  "ComputeStartSeqno ls =
     (if topics ls = [] then Inl Assert_failed
      else Inr (fold (\<lambda>e min_seqno. min min_seqno (snd e)) (topics ls) (- 1)))"

text \<open>\<open>st\<close> is the status the tailer returns for the call.\<close>

definition StealLogSubscriptions ::
  "Status \<Rightarrow> LogReader \<Rightarrow> LogReader \<Rightarrow> LogID \<Rightarrow> failure + LogReader \<times> LogReader \<times> tailer_call list" where
  "StealLogSubscriptions st r pending log_id =
     (if \<not> is_virtual pending \<or> \<not> IsLogOpen pending log_id \<or> is_virtual r \<or> IsLogOpen r log_id
      then Inl Assert_failed
      else case umap_find (log_state pending) log_id of
             None \<Rightarrow> Inl Assert_failed
           | Some ls \<Rightarrow>
               (case ComputeStartSeqno ls of
                  Inl e \<Rightarrow> Inl e
                | Inr start_seqno \<Rightarrow>
                    let calls = [Tailer_StartReading log_id start_seqno (reader_id r)]
                    in if status_ok st
                       then Inr (r\<lparr> log_state := umap_emplace (log_state r) log_id ls \<rparr>,
                                 pending\<lparr> log_state := umap_erase (log_state pending) log_id \<rparr>, calls)
                       else Inr (r, pending, calls)))"

section \<open>The shape of the state\<close>

definition log_wf :: "LogState \<Rightarrow> bool" where
  "log_wf ls \<longleftrightarrow> od_wf (topics ls) \<and> topics ls \<noteq> []"

definition reader_wf :: "LogReader \<Rightarrow> bool" where
  "reader_wf r \<longleftrightarrow> umap_wf (log_state r) \<and> (\<forall>l ls. umap_find (log_state r) l = Some ls \<longrightarrow> log_wf ls)"

text \<open>The sequence number the reader keeps for a topic of a log.\<close>

definition next_of :: "LogReader \<Rightarrow> LogID \<Rightarrow> topic_uuid \<Rightarrow> SequenceNumber option" where
  "next_of r l t = (case umap_find (log_state r) l of None \<Rightarrow> None | Some ls \<Rightarrow> od_find (topics ls) t)"

definition position :: "LogReader \<Rightarrow> LogID \<Rightarrow> SequenceNumber option" where
  "position r l = map_option last_read (umap_find (log_state r) l)"

lemma reader_wf_new [simp]: "reader_wf (LogReader_new v i lag)"
  by (simp add: reader_wf_def LogReader_new_def)

lemma reader_wf_log: "reader_wf r \<Longrightarrow> umap_find (log_state r) l = Some ls \<Longrightarrow> log_wf ls"
  by (simp add: reader_wf_def)

lemma reader_wf_set_log [simp]: "reader_wf r \<Longrightarrow> log_wf ls \<Longrightarrow> reader_wf (set_log l ls r)"
  by (simp add: reader_wf_def set_log_def)

lemma reader_wf_erase [simp]:
  "reader_wf r \<Longrightarrow> reader_wf (r\<lparr> log_state := umap_erase (log_state r) l \<rparr>)"
  by (simp add: reader_wf_def)

lemma set_log_simps [simp]:
  "is_virtual (set_log l ls r) = is_virtual r" "reader_id (set_log l ls r) = reader_id r"
  "max_subscription_lag (set_log l ls r) = max_subscription_lag r"
  "umap_find (log_state (set_log l ls r)) l' = (if l' = l then Some ls else umap_find (log_state r) l')"
  by (simp_all add: set_log_def)

lemma next_of_set_log [simp]:
  "next_of (set_log l ls r) l' t = (if l' = l then od_find (topics ls) t else next_of r l' t)"
  by (simp add: next_of_def)

lemma position_set_log [simp]:
  "position (set_log l ls r) l' = (if l' = l then Some (last_read ls) else position r l')"
  by (simp add: position_def)

lemma next_of_erase [simp]:
  "next_of (r\<lparr> log_state := umap_erase (log_state r) l \<rparr>) l' t = (if l' = l then None else next_of r l' t)"
  by (simp add: next_of_def)

lemma position_erase [simp]:
  "position (r\<lparr> log_state := umap_erase (log_state r) l \<rparr>) l' = (if l' = l then None else position r l')"
  by (simp add: position_def)

lemma next_of_position: "next_of r l t = Some p \<Longrightarrow> \<exists>n. position r l = Some n"
  by (auto simp: next_of_def position_def split: option.splits)

section \<open>What the operations do\<close>

lemma ProcessRecord_spec:
  assumes "reader_wf r" and "ProcessRecord r l n t = Inr (prev, r')"
  shows "reader_wf r'"
    and "position r' = (position r)(l := Some n)"
    and "next_of r' = (next_of r)(l := (\<lambda>t'. if t' = t \<and> next_of r l t \<noteq> None then Some (n + 1) else next_of r l t'))"
    and "prev = (case next_of r l t of None \<Rightarrow> 0 | Some p \<Rightarrow> p)"
    and "is_virtual r' = is_virtual r" "reader_id r' = reader_id r"
    and "max_subscription_lag r' = max_subscription_lag r"
proof -
  obtain ls where ls: "umap_find (log_state r) l = Some ls"
    using assms(2) by (cases "umap_find (log_state r) l") (auto simp: ProcessRecord_def)
  have wf: "log_wf ls" using reader_wf_log [OF assms(1) ls] .
  have r': "r' = set_log l (case od_find (topics ls) t of
        Some p \<Rightarrow> ls\<lparr> last_read := n, topics := od_move_to_back t (od_assign t (n + 1) (topics ls)) \<rparr>
      | None \<Rightarrow> ls\<lparr> last_read := n \<rparr>) r"
    and prev: "prev = (case od_find (topics ls) t of None \<Rightarrow> 0 | Some p \<Rightarrow> p)"
    using assms(2) ls by (auto simp: ProcessRecord_def Let_def split: option.splits)
  show "reader_wf r'" unfolding r' using assms(1) wf by (auto simp: log_wf_def split: option.splits)
  show "position r' = (position r)(l := Some n)"
    unfolding r' by (auto simp: fun_eq_iff split: option.splits)
  show "next_of r' = (next_of r)(l := (\<lambda>t'. if t' = t \<and> next_of r l t \<noteq> None then Some (n + 1) else next_of r l t'))"
    unfolding r' using ls by (auto simp: fun_eq_iff next_of_def split: option.splits)
  show "prev = (case next_of r l t of None \<Rightarrow> 0 | Some p \<Rightarrow> p)"
    using prev ls by (simp add: next_of_def)
  show "is_virtual r' = is_virtual r" "reader_id r' = reader_id r"
    "max_subscription_lag r' = max_subscription_lag r" unfolding r' by simp_all
qed

lemma ProcessRecord_fails: "ProcessRecord r l n t = Inl e \<longleftrightarrow> position r l = None \<and> e = Assert_failed"
  by (auto simp: ProcessRecord_def position_def Let_def split: option.splits)

lemma IsLogOpen_position: "IsLogOpen r l \<longleftrightarrow> position r l \<noteq> None"
  by (simp add: IsLogOpen_def position_def)

lemma GetNext_position:
  "GetNextSequenceNumber r l = (case position r l of None \<Rightarrow> 0 | Some n \<Rightarrow> n + 1)"
  by (simp add: GetNextSequenceNumber_def position_def split: option.splits)

lemma ProcessGap_spec:
  assumes "reader_wf r" and "ProcessGap r l t type from to = Inr (prev, r')"
  shows "reader_wf r'" and "position r' = position r" and "position r l = Some (from - 1)"
    and "next_of r' = (next_of r)(l := (\<lambda>t'. if t' = t \<and> next_of r l t \<noteq> None then Some (to + 1) else next_of r l t'))"
    and "prev = (case next_of r l t of None \<Rightarrow> 0 | Some p \<Rightarrow> p)"
    and "is_virtual r' = is_virtual r" "reader_id r' = reader_id r"
proof -
  obtain ls where ls: "umap_find (log_state r) l = Some ls"
    using assms(2) by (cases "umap_find (log_state r) l") (auto simp: ProcessGap_def)
  have wf: "log_wf ls" using reader_wf_log [OF assms(1) ls] .
  have pos: "position r l = Some (last_read ls)" and next': "next_of r l = od_find (topics ls)"
    using ls by (auto simp: position_def next_of_def fun_eq_iff)
  have "from = last_read ls + 1" using assms(2) ls by (auto simp: ProcessGap_def split: if_splits)
  then show "position r l = Some (from - 1)" using pos by simp
  show "prev = (case next_of r l t of None \<Rightarrow> 0 | Some p \<Rightarrow> p)"
    using assms(2) ls next' by (auto simp: ProcessGap_def split: option.splits if_splits)
  have r': "r' = (case od_find (topics ls) t of None \<Rightarrow> r
      | Some _ \<Rightarrow> set_log l (ls\<lparr> topics := od_move_to_back t (od_assign t (to + 1) (topics ls)) \<rparr>) r)"
    using assms(2) ls by (auto simp: ProcessGap_def split: option.splits if_splits)
  show "reader_wf r'" unfolding r' using assms(1) wf by (auto simp: log_wf_def split: option.splits)
  show "position r' = position r" unfolding r' using pos by (auto simp: fun_eq_iff split: option.splits)
  show "next_of r' = (next_of r)(l := (\<lambda>t'. if t' = t \<and> next_of r l t \<noteq> None then Some (to + 1) else next_of r l t'))"
    unfolding r' using next' by (auto simp: fun_eq_iff split: option.splits)
  show "is_virtual r' = is_virtual r" "reader_id r' = reader_id r"
    unfolding r' by (simp_all split: option.splits)
qed

lemma ProcessGap_succeeds:
  "position r l = Some (from - 1) \<Longrightarrow> next_of r l t \<noteq> Some 0 \<Longrightarrow> \<exists>x. ProcessGap r l t type from to = Inr x"
  by (auto simp: ProcessGap_def position_def next_of_def split: option.splits)

lemma set_position_spec:
  assumes "reader_wf r"
  shows "reader_wf (ProcessBenignGap r l from to)" "reader_wf (FlushHistory r l n)"
    and "next_of (ProcessBenignGap r l from to) = next_of r" "next_of (FlushHistory r l n) = next_of r"
    and "position (ProcessBenignGap r l from to) = (position r)(l := map_option (\<lambda>_. to) (position r l))"
    and "position (FlushHistory r l n) = (position r)(l := map_option (\<lambda>_. n - 1) (position r l))"
    and "is_virtual (ProcessBenignGap r l from to) = is_virtual r" "is_virtual (FlushHistory r l n) = is_virtual r"
    and "reader_id (ProcessBenignGap r l from to) = reader_id r" "reader_id (FlushHistory r l n) = reader_id r"
proof -
  have wf: "log_wf ls" if "umap_find (log_state r) l = Some ls" for ls
    using reader_wf_log [OF assms that] .
  show "reader_wf (ProcessBenignGap r l from to)" "reader_wf (FlushHistory r l n)"
    using assms wf by (auto simp: ProcessBenignGap_def FlushHistory_def log_wf_def split: option.splits)
  show "next_of (ProcessBenignGap r l from to) = next_of r" "next_of (FlushHistory r l n) = next_of r"
    by (auto simp: ProcessBenignGap_def FlushHistory_def next_of_def fun_eq_iff split: option.splits)
  show "position (ProcessBenignGap r l from to) = (position r)(l := map_option (\<lambda>_. to) (position r l))"
    "position (FlushHistory r l n) = (position r)(l := map_option (\<lambda>_. n - 1) (position r l))"
    by (auto simp: ProcessBenignGap_def FlushHistory_def position_def fun_eq_iff split: option.splits)
  show "is_virtual (ProcessBenignGap r l from to) = is_virtual r" "is_virtual (FlushHistory r l n) = is_virtual r"
    "reader_id (ProcessBenignGap r l from to) = reader_id r" "reader_id (FlushHistory r l n) = reader_id r"
    by (auto simp: ProcessBenignGap_def FlushHistory_def split: option.splits)
qed

definition opt_min :: "SequenceNumber option \<Rightarrow> SequenceNumber option \<Rightarrow> SequenceNumber option" where
  "opt_min a b = (case (a, b) of (None, _) \<Rightarrow> b | (_, None) \<Rightarrow> a | (Some x, Some y) \<Rightarrow> Some (min x y))"

definition start_position :: "LogReader \<Rightarrow> LogID \<Rightarrow> topic_uuid \<Rightarrow> SequenceNumber \<Rightarrow> SequenceNumber" where
  "start_position r l t n = (case position r l of
      None \<Rightarrow> n - 1
    | Some q \<Rightarrow> if (case next_of r l t of None \<Rightarrow> True | Some p \<Rightarrow> n < p) \<and> n \<le> q then n - 1 else q)"

lemma StartLogReader_log:
  "topics (fst (StartLogReader r l ls n)) = topics ls" "last_read (fst (StartLogReader r l ls n)) = n - 1"
  by (simp_all add: StartLogReader_def)

lemma StartReading_spec:
  assumes "reader_wf r" and "LogReader_StartReading r t l n = (r', calls)"
  shows "reader_wf r'"
    and "position r' = (position r)(l := Some (start_position r l t n))"
    and "next_of r' = (next_of r)(l := (next_of r l)(t := opt_min (next_of r l t) (Some n)))"
    and "is_virtual r' = is_virtual r" "reader_id r' = reader_id r"
    and "max_subscription_lag r' = max_subscription_lag r"
proof -
  define ls where "ls = (case umap_find (log_state r) l of
      None \<Rightarrow> \<lparr> topics = [], last_read = n - 1, is_reading = False \<rparr> | Some ls \<Rightarrow> ls)"
  define ts where "ts = (case od_find (topics ls) t of None \<Rightarrow> od_emplace_front t n (topics ls)
      | Some p \<Rightarrow> od_move_to_front t (od_assign t (min p n) (topics ls)))"
  have wf: "od_wf (topics ls)"
    using reader_wf_log [OF assms(1), of l] by (auto simp: ls_def log_wf_def split: option.splits)
  have "od_wf ts" "ts \<noteq> []" using wf by (auto simp: ts_def split: option.splits)
  obtain ls' where r': "r' = set_log l ls' r" and ls': "topics ls' = ts" "last_read ls' = start_position r l t n"
  proof -
    have "\<exists>ls'. r' = set_log l ls' r \<and> topics ls' = ts \<and> last_read ls' = start_position r l t n"
      using assms(2)
      by (auto simp: LogReader_StartReading_def ls_def ts_def start_position_def position_def next_of_def
          Let_def split_beta StartLogReader_log split: option.splits if_splits)
    then show ?thesis using that by blast
  qed
  have old: "next_of r l t' = od_find (topics ls) t'" for t'
    by (simp add: next_of_def ls_def split: option.splits)
  show "reader_wf r'" unfolding r' using assms(1) \<open>od_wf ts\<close> \<open>ts \<noteq> []\<close> ls'(1) by (simp add: log_wf_def)
  show "position r' = (position r)(l := Some (start_position r l t n))"
    unfolding r' using ls'(2) by (simp add: fun_eq_iff)
  show "next_of r' = (next_of r)(l := (next_of r l)(t := opt_min (next_of r l t) (Some n)))"
    unfolding r' using ls'(1) old by (auto simp: fun_eq_iff ts_def opt_min_def split: option.splits)
  show "is_virtual r' = is_virtual r" "reader_id r' = reader_id r"
    "max_subscription_lag r' = max_subscription_lag r" unfolding r' by simp_all
qed

lemma StopReading_spec:
  assumes "reader_wf r" and "LogReader_StopReading r t l = (r', calls)"
  shows "reader_wf r'"
    and "next_of r' = (next_of r)(l := (next_of r l)(t := None))"
    and "position r' = (position r)(l :=
      (if next_of r l t \<noteq> None \<and> (\<forall>t'. t' \<noteq> t \<longrightarrow> next_of r l t' = None) then None else position r l))"
    and "is_virtual r' = is_virtual r" "reader_id r' = reader_id r"
    and "max_subscription_lag r' = max_subscription_lag r"
proof -
  consider (none) "next_of r l t = None" "r' = r"
    | (some) ls where "umap_find (log_state r) l = Some ls" "od_find (topics ls) t \<noteq> None"
      "r' = (if od_erase t (topics ls) = [] then r\<lparr> log_state := umap_erase (log_state r) l \<rparr>
             else set_log l (ls\<lparr> topics := od_erase t (topics ls) \<rparr>) r)"
    using assms(2)
    by (auto simp: LogReader_StopReading_def next_of_def Let_def split: option.splits if_splits)
  then have "reader_wf r' \<and> next_of r' = (next_of r)(l := (next_of r l)(t := None))
    \<and> position r' = (position r)(l :=
      (if next_of r l t \<noteq> None \<and> (\<forall>t'. t' \<noteq> t \<longrightarrow> next_of r l t' = None) then None else position r l))
    \<and> is_virtual r' = is_virtual r \<and> reader_id r' = reader_id r
    \<and> max_subscription_lag r' = max_subscription_lag r"
  proof cases
    case none
    then show ?thesis using assms(1) by (auto simp: fun_eq_iff)
  next
    case some
    have old: "next_of r l t' = od_find (topics ls) t'" for t' using some(1) by (simp add: next_of_def)
    have empty: "od_erase t (topics ls) = [] \<longleftrightarrow> (\<forall>t'. t' \<noteq> t \<longrightarrow> next_of r l t' = None)"
      by (subst od_empty_iff) (auto simp: old)
    have gone: "od_find (topics ls) t' = None" if "od_erase t (topics ls) = []" "t' \<noteq> t" for t'
      using that empty old by simp
    have wf: "log_wf ls" using reader_wf_log [OF assms(1) some(1)] .
    show ?thesis
    proof (cases "od_erase t (topics ls) = []")
      case True
      then show ?thesis
        using assms(1) some gone empty by (auto simp: fun_eq_iff old)
    next
      case False
      then show ?thesis
        using assms(1) some wf empty by (auto simp: fun_eq_iff old log_wf_def position_def)
    qed
  qed
  then show "reader_wf r'" "next_of r' = (next_of r)(l := (next_of r l)(t := None))"
    "position r' = (position r)(l :=
      (if next_of r l t \<noteq> None \<and> (\<forall>t'. t' \<noteq> t \<longrightarrow> next_of r l t' = None) then None else position r l))"
    "is_virtual r' = is_virtual r" "reader_id r' = reader_id r"
    "max_subscription_lag r' = max_subscription_lag r" by blast+
qed

lemma Pause_Restart_spec:
  assumes "reader_wf r" and "PauseReading r l = Inr (r', calls) \<or> RestartReading r l = Inr (r', calls)"
  shows "reader_wf r'" "next_of r' = next_of r" "position r' = position r"
    and "is_virtual r' = is_virtual r" "reader_id r' = reader_id r"
    and "max_subscription_lag r' = max_subscription_lag r"
proof -
  obtain ls ls' where ls: "umap_find (log_state r) l = Some ls" and r': "r' = set_log l ls' r"
    and ls': "topics ls' = topics ls" "last_read ls' = last_read ls"
    using assms(2)
    by (auto simp: PauseReading_def RestartReading_def StopLogReader_def RestartLogReader_def
        split: if_splits option.splits)
  have wf: "log_wf ls" using reader_wf_log [OF assms(1) ls] .
  show "reader_wf r'" unfolding r' using assms(1) wf ls' by (simp add: log_wf_def)
  show "next_of r' = next_of r" unfolding r' using ls ls' by (auto simp: fun_eq_iff next_of_def)
  show "position r' = position r" unfolding r' using ls ls' by (auto simp: fun_eq_iff position_def)
  show "is_virtual r' = is_virtual r" "reader_id r' = reader_id r"
    "max_subscription_lag r' = max_subscription_lag r" unfolding r' by simp_all
qed

lemma fold_merge_topic:
  assumes "od_wf s" and "od_wf d"
  shows "od_wf (fold merge_topic s d)"
    and "od_find (fold merge_topic s d) t = opt_min (od_find d t) (od_find s t)"
    and "d \<noteq> [] \<Longrightarrow> fold merge_topic s d \<noteq> []"
  using assms
proof (atomize (full), induction s arbitrary: d)
  case Nil
  then show ?case by (simp add: opt_min_def split: option.splits)
next
  case (Cons e s)
  have d': "od_wf (merge_topic e d)"
    "od_find (merge_topic e d) t = (if t = fst e then opt_min (od_find d t) (Some (snd e)) else od_find d t)" for t
    using Cons(3) by (auto simp: merge_topic_def opt_min_def split: option.splits)
  have ne: "merge_topic e d \<noteq> []"
    using od_emplace_nonempty by (auto simp: merge_topic_def od_assign_def split: option.splits)
  have s: "od_wf s" "od_find s (fst e) = None"
    using Cons(2) by (auto simp: od_wf_def map_of_eq_None_iff)
  have es: "od_find (e # s) t = (if t = fst e then Some (snd e) else od_find s t)" by (cases e) simp
  note IH = Cons(1) [OF s(1) d'(1)]
  have "od_find (fold merge_topic (e # s) d) t = opt_min (od_find (merge_topic e d) t) (od_find s t)"
    using IH by simp
  also have "\<dots> = opt_min (od_find d t) (od_find (e # s) t)"
    unfolding d'(2) es using s(2) by (cases "t = fst e") (auto simp: opt_min_def split: option.splits)
  finally show ?case using IH ne by simp
qed

lemma MergeInto_spec:
  assumes "reader_wf src" and "reader_wf dest" and "MergeInto src dest l = Inr (src', dest', calls)"
  shows "reader_wf src'" "reader_wf dest'" "position src l = position dest l" "position src l \<noteq> None"
    and "position src' = (position src)(l := None)" "position dest' = position dest"
    and "next_of src' = (next_of src)(l := (\<lambda>_. None))"
    and "next_of dest' = (next_of dest)(l := (\<lambda>t. opt_min (next_of dest l t) (next_of src l t)))"
    and "is_virtual src' = is_virtual src" "reader_id src' = reader_id src"
    and "is_virtual dest' = is_virtual dest" "reader_id dest' = reader_id dest"
    and "max_subscription_lag src' = max_subscription_lag src" "max_subscription_lag dest' = max_subscription_lag dest"
proof -
  obtain s d where s: "umap_find (log_state src) l = Some s" and d: "umap_find (log_state dest) l = Some d"
    and same: "last_read d = last_read s"
    and src': "src' = src\<lparr> log_state := umap_erase (log_state src) l \<rparr>"
    and dest': "dest' = set_log l (d\<lparr> topics := fold merge_topic (topics s) (topics d) \<rparr>) dest"
    using assms(3)
    by (auto simp: MergeInto_def CanMergeInto_def split: option.splits sum.splits bool.splits if_splits)
  have wf: "od_wf (topics s)" "od_wf (topics d)" "topics d \<noteq> []"
    using reader_wf_log [OF assms(1) s] reader_wf_log [OF assms(2) d] by (auto simp: log_wf_def)
  note merged = fold_merge_topic [OF wf(1,2)]
  show "reader_wf src'" "reader_wf dest'"
    unfolding src' dest' using assms(1,2) merged wf(3) by (simp_all add: log_wf_def)
  show "position src l = position dest l" "position src l \<noteq> None"
    using s d same by (simp_all add: position_def)
  show "position src' = (position src)(l := None)" unfolding src' by (simp add: fun_eq_iff)
  show "position dest' = position dest" unfolding dest' using d by (simp add: fun_eq_iff position_def)
  show "next_of src' = (next_of src)(l := (\<lambda>_. None))" unfolding src' by (simp add: fun_eq_iff)
  show "next_of dest' = (next_of dest)(l := (\<lambda>t. opt_min (next_of dest l t) (next_of src l t)))"
    unfolding dest' using merged(2) s d by (simp add: fun_eq_iff next_of_def)
  show "is_virtual src' = is_virtual src" "reader_id src' = reader_id src"
    "max_subscription_lag src' = max_subscription_lag src"
    unfolding src' by simp_all
  show "is_virtual dest' = is_virtual dest" "reader_id dest' = reader_id dest"
    "max_subscription_lag dest' = max_subscription_lag dest"
    unfolding dest' by simp_all
qed

lemma MergeInto_succeeds:
  "CanMergeInto src dest l = Inr True \<Longrightarrow> \<exists>x. MergeInto src dest l = Inr x"
  by (auto simp: MergeInto_def CanMergeInto_def split: option.splits if_splits)

lemma fold_min_seqno:
  "fold (\<lambda>e m. min m (snd e)) ts (m :: SequenceNumber) = Min (insert m (snd ` set ts))"
proof (induction ts arbitrary: m)
  case (Cons e ts)
  have "Min (insert (min m (snd e)) (snd ` set ts)) = min m (Min (insert (snd e) (snd ` set ts)))"
    by (cases "ts = []") (simp_all add: min.assoc)
  then show ?case using Cons by (simp add: insert_commute)
qed simp

lemma ComputeStartSeqno_least:
  assumes "log_wf ls" and "ComputeStartSeqno ls = Inr m"
  shows "od_find (topics ls) t = Some p \<Longrightarrow> m \<le> p" and "\<exists>t. od_find (topics ls) t = Some m"
proof -
  have wf: "od_wf (topics ls)" "topics ls \<noteq> []" using assms(1) by (simp_all add: log_wf_def)
  have m: "m = Min (insert (- 1) (snd ` set (topics ls)))"
    using assms(2) by (simp add: ComputeStartSeqno_def fold_min_seqno split: if_splits)
  then show "m \<le> p" if "od_find (topics ls) t = Some p" for t p
    using map_of_SomeD [OF that] by (auto intro!: Min_le rev_image_eqI)
  have "Min (snd ` set (topics ls)) \<in> snd ` set (topics ls)" using wf(2) by (intro Min_in) auto
  moreover have "m = Min (snd ` set (topics ls))"
    unfolding m using wf(2) by (subst Min_insert) auto
  ultimately show "\<exists>t. od_find (topics ls) t = Some m"
    using wf(1) od_in_set by fastforce
qed

lemma StealLogSubscriptions_spec:
  assumes "reader_wf r" and "reader_wf p" and "StealLogSubscriptions st r p l = Inr (r', p', calls)"
  shows "reader_wf r'" "reader_wf p'" "position p l \<noteq> None" "position r l = None"
    and "position r' = (if status_ok st then (position r)(l := position p l) else position r)"
    and "next_of r' = (if status_ok st then (next_of r)(l := next_of p l) else next_of r)"
    and "position p' = (if status_ok st then (position p)(l := None) else position p)"
    and "next_of p' = (if status_ok st then (next_of p)(l := (\<lambda>_. None)) else next_of p)"
    and "is_virtual r' = is_virtual r" "reader_id r' = reader_id r"
    and "is_virtual p' = is_virtual p" "reader_id p' = reader_id p"
    and "max_subscription_lag r' = max_subscription_lag r" "max_subscription_lag p' = max_subscription_lag p"
proof -
  obtain ls where ls: "umap_find (log_state p) l = Some ls" and no: "umap_find (log_state r) l = None"
    and r': "r' = (if status_ok st then r\<lparr> log_state := umap_emplace (log_state r) l ls \<rparr> else r)"
    and p': "p' = (if status_ok st then p\<lparr> log_state := umap_erase (log_state p) l \<rparr> else p)"
    using assms(3)
    by (auto simp: StealLogSubscriptions_def IsLogOpen_def Let_def split: if_splits option.splits sum.splits)
  have wf: "log_wf ls" using reader_wf_log [OF assms(2) ls] .
  show "reader_wf r'" "reader_wf p'"
    unfolding r' p' using assms(1,2) wf by (auto simp: reader_wf_def)
  show "position p l \<noteq> None" "position r l = None" using ls no by (simp_all add: position_def)
  show "position r' = (if status_ok st then (position r)(l := position p l) else position r)"
    unfolding r' using ls no by (auto simp: position_def fun_eq_iff)
  show "next_of r' = (if status_ok st then (next_of r)(l := next_of p l) else next_of r)"
    unfolding r' using ls no by (auto simp: next_of_def fun_eq_iff)
  show "position p' = (if status_ok st then (position p)(l := None) else position p)"
    "next_of p' = (if status_ok st then (next_of p)(l := (\<lambda>_. None)) else next_of p)"
    unfolding p' by (auto simp: fun_eq_iff)
  show "is_virtual r' = is_virtual r" "reader_id r' = reader_id r"
    "is_virtual p' = is_virtual p" "reader_id p' = reader_id p"
    "max_subscription_lag r' = max_subscription_lag r" "max_subscription_lag p' = max_subscription_lag p"
    unfolding r' p' by simp_all
qed

lemma StealLogSubscriptions_succeeds:
  assumes "reader_wf p" and "is_virtual p" and "\<not> is_virtual r" and "position p l \<noteq> None" and "position r l = None"
  shows "\<exists>x. StealLogSubscriptions st r p l = Inr x"
proof -
  obtain ls where ls: "umap_find (log_state p) l = Some ls" using assms(4) by (auto simp: position_def)
  then have "topics ls \<noteq> []" using reader_wf_log [OF assms(1)] by (simp add: log_wf_def)
  then show ?thesis
    using assms ls by (auto simp: StealLogSubscriptions_def IsLogOpen_def position_def ComputeStartSeqno_def Let_def)
qed

section \<open>Bumping lagging subscriptions\<close>

definition lags :: "u64 \<Rightarrow> SequenceNumber \<Rightarrow> topic_uuid \<times> TopicState \<Rightarrow> bool" where
  "lags lag seqno e \<longleftrightarrow> snd e + lag < seqno"

definition bumped_to :: "SequenceNumber \<Rightarrow> (topic_uuid \<times> TopicState) list \<Rightarrow> (topic_uuid \<times> TopicState) list" where
  "bumped_to seqno es = map (\<lambda>e. (fst e, seqno + 1)) es"

lemma od_front_to_back:
  assumes "od_wf ((t, p) # ts)"
  shows "od_assign t v (od_move_to_back t ((t, p) # ts)) = ts @ [(t, v)]"
proof -
  have "\<forall>e \<in> set ts. fst e \<noteq> t" using assms by (auto simp: od_wf_def image_iff)
  then have "filter (\<lambda>e. fst e \<noteq> t) ts = ts" "filter (\<lambda>e. fst e = t) ts = []"
    by (auto simp: filter_id_conv filter_empty_conv)
  moreover have "map (\<lambda>e. if fst e = t then (t, v) else e) ts = ts"
    using \<open>\<forall>e \<in> set ts. fst e \<noteq> t\<close> by (intro map_idI) simp
  ultimately show ?thesis by (simp add: od_move_to_back_def od_assign_def)
qed

lemma bump_loop_result:
  assumes "\<not> seqno + 1 + lag < seqno" and "od_wf (us @ bumped_to seqno done')"
  shows "bump_loop lag seqno (us @ bumped_to seqno done') acc =
     Some (dropWhile (lags lag seqno) us @ bumped_to seqno (done' @ takeWhile (lags lag seqno) us),
           acc @ takeWhile (lags lag seqno) us)"
  using assms(2)
proof (induction us arbitrary: done' acc)
  case Nil
  then show ?case
    using assms(1)
    by (subst bump_loop.simps) (auto simp: bumped_to_def add.commute add.left_commute split: list.splits)
next
  case (Cons e us)
  obtain t p where e: "e = (t, p)" by (cases e)
  show ?case
  proof (cases "p + lag < seqno")
    case True
    have wf: "od_wf ((t, p) # us @ bumped_to seqno done')" using Cons(2) e by simp
    then have "od_wf (us @ bumped_to seqno (done' @ [e]))"
      using e by (auto simp: od_wf_def bumped_to_def)
    moreover have "lags lag seqno (t, p)" using True by (simp add: lags_def)
    ultimately show ?thesis
      using True e od_front_to_back [OF wf, of "seqno + 1"] Cons(1) [of "done' @ [e]" "acc @ [e]"]
      by (subst bump_loop.simps) (simp add: bumped_to_def)
  next
    case False
    then show ?thesis using e by (subst bump_loop.simps) (simp add: lags_def)
  qed
qed

lemma Bump_spec:
  assumes "reader_wf r" and "\<not> n + 1 + max_subscription_lag r < n"
  obtains r' bumped where "BumpLaggingSubscriptions r l n = Some (r', bumped)"
    and "reader_wf r'" and "position r' = position r" and "distinct (map fst bumped)"
    and "\<And>t p. (t, p) \<in> set bumped \<Longrightarrow> next_of r l t = Some p \<and> p + max_subscription_lag r < n"
    and "next_of r' = (next_of r)(l := (\<lambda>t. if t \<in> fst ` set bumped then Some (n + 1) else next_of r l t))"
    and "is_virtual r' = is_virtual r" and "reader_id r' = reader_id r"
    and "max_subscription_lag r' = max_subscription_lag r"
proof (cases "umap_find (log_state r) l")
  case None
  show ?thesis
    by (rule that [of r "[]"]) (use assms None in \<open>auto simp: BumpLaggingSubscriptions_def\<close>)
next
  case (Some ls)
  have wf: "od_wf (topics ls)" "topics ls \<noteq> []" using reader_wf_log [OF assms(1) Some] by (auto simp: log_wf_def)
  define pre where "pre = takeWhile (lags (max_subscription_lag r) n) (topics ls)"
  define post where "post = dropWhile (lags (max_subscription_lag r) n) (topics ls)"
  have split: "topics ls = pre @ post" by (simp add: pre_def post_def)
  have run: "BumpLaggingSubscriptions r l n
      = Some (set_log l (ls\<lparr> topics := post @ bumped_to n pre \<rparr>) r, pre)"
    using bump_loop_result [OF assms(2), of "topics ls" "[]" "[]"] wf(1) Some
    by (simp add: BumpLaggingSubscriptions_def bumped_to_def pre_def post_def)
  have wf': "od_wf (post @ bumped_to n pre)"
    using wf(1) unfolding split by (auto simp: od_wf_def bumped_to_def comp_def)
  have find_pre: "od_find (bumped_to n pre) t = (if t \<in> fst ` set pre then Some (n + 1) else None)" for t
    unfolding bumped_to_def by (induction pre) auto
  have find_post: "od_find post t = (if t \<in> fst ` set pre then None else od_find (topics ls) t)" for t
  proof -
    have "od_find post t = None" if "t \<in> fst ` set pre"
      using wf(1) that unfolding split by (auto simp: od_wf_def map_of_eq_None_iff)
    moreover have "od_find pre t = None" if "t \<notin> fst ` set pre"
      using that by (simp add: map_of_eq_None_iff)
    ultimately show ?thesis unfolding split by (simp add: map_add_def split: option.splits)
  qed
  show ?thesis
  proof (rule that [OF run])
    show "reader_wf (set_log l (ls\<lparr> topics := post @ bumped_to n pre \<rparr>) r)"
      using assms(1) wf' wf(2) unfolding split by (auto simp: log_wf_def bumped_to_def)
    show "position (set_log l (ls\<lparr> topics := post @ bumped_to n pre \<rparr>) r) = position r"
      using Some by (auto simp: fun_eq_iff position_def)
    show "distinct (map fst pre)" using wf(1) unfolding split by (simp add: od_wf_def)
    show "next_of r l t = Some p \<and> p + max_subscription_lag r < n" if "(t, p) \<in> set pre" for t p
      using that set_takeWhileD [of "(t, p)"] Some od_in_set [OF wf(1), of t p]
      by (fastforce simp: pre_def next_of_def lags_def)
    show "next_of (set_log l (ls\<lparr> topics := post @ bumped_to n pre \<rparr>) r)
        = (next_of r)(l := (\<lambda>t. if t \<in> fst ` set pre then Some (n + 1) else next_of r l t))"
      using Some by (auto simp: fun_eq_iff next_of_def map_add_def find_pre find_post split: option.splits)
  qed simp_all
qed

text \<open>
  When a bumped topic still counts as lagging, which a lag below -1 brings about, the loop never ends.
\<close>

lemma bump_loop_diverges:
  assumes "n + 1 + lag < n" and "od_wf ts" and "ts \<noteq> []" and "\<forall>e \<in> set ts. lags lag n e"
  shows "bump_loop lag n ts acc = None"
proof (rule ccontr)
  assume "bump_loop lag n ts acc \<noteq> None"
  then obtain y where "bump_loop lag n ts acc = Some y" by blast
  then have "\<not> (n + 1 + lag < n \<and> od_wf ts \<and> ts \<noteq> [] \<and> (\<forall>e \<in> set ts. lags lag n e))"
  proof (rule bump_loop.raw_induct [of "\<lambda>lag n ts acc y.
      \<not> (n + 1 + lag < n \<and> od_wf ts \<and> ts \<noteq> [] \<and> (\<forall>e \<in> set ts. lags lag n e))", rotated])
    fix loop lag n ts acc y
    assume IH: "\<And>lag n ts acc y. loop lag n ts acc = Some y \<Longrightarrow>
        \<not> (n + 1 + lag < n \<and> od_wf ts \<and> ts \<noteq> [] \<and> (\<forall>e \<in> set ts. lags lag n e))"
      and run: "(case ts of [] \<Rightarrow> Some (ts, acc)
        | (topic, tseqno) # _ \<Rightarrow> if tseqno + lag < n
            then loop lag n (od_assign topic (n + 1) (od_move_to_back topic ts)) (acc @ [(topic, tseqno)])
            else Some (ts, acc)) = Some y"
    show "\<not> (n + 1 + lag < n \<and> od_wf ts \<and> ts \<noteq> [] \<and> (\<forall>e \<in> set ts. lags lag n e))"
    proof
      assume *: "n + 1 + lag < n \<and> od_wf ts \<and> ts \<noteq> [] \<and> (\<forall>e \<in> set ts. lags lag n e)"
      then obtain t p ts' where ts: "ts = (t, p) # ts'" by (cases ts) auto
      have moved: "od_assign t (n + 1) (od_move_to_back t ts) = ts' @ [(t, n + 1)]"
        using * od_front_to_back [of t p ts' "n + 1"] ts by simp
      have "loop lag n (ts' @ [(t, n + 1)]) (acc @ [(t, p)]) = Some y"
        using run * ts moved by (simp add: lags_def)
      moreover have "od_wf (ts' @ [(t, n + 1)])" using * ts by (auto simp: od_wf_def)
      moreover have "\<forall>e \<in> set (ts' @ [(t, n + 1)]). lags lag n e"
        using * ts by (auto simp: lags_def add.commute add.left_commute)
      ultimately show False using IH * by blast
    qed
  qed
  then show False using assms by blast
qed

section \<open>Nothing of a subscribed topic lies behind a reader\<close>

text \<open>
  The content of a log: the topic of the record stored at a sequence number, if any. A reader is
  caught up when for every topic it serves there is no record from the sequence number it keeps
  for the topic up to the last one it read.
\<close>

type_synonym log_content = "LogID \<Rightarrow> SequenceNumber \<Rightarrow> topic_uuid option"

definition no_record :: "log_content \<Rightarrow> LogID \<Rightarrow> topic_uuid \<Rightarrow> SequenceNumber \<Rightarrow> SequenceNumber \<Rightarrow> bool" where
  "no_record c l t from to \<longleftrightarrow> (\<forall>n. from \<le> n \<and> n \<le> to \<longrightarrow> c l n \<noteq> Some t)"

definition caught_up :: "log_content \<Rightarrow> LogReader \<Rightarrow> bool" where
  "caught_up c r \<longleftrightarrow>
     (\<forall>l t p q. next_of r l t = Some p \<longrightarrow> position r l = Some q \<longrightarrow> no_record c l t p q)"

lemma caught_upD: "caught_up c r \<Longrightarrow> next_of r l t = Some p \<Longrightarrow> position r l = Some q \<Longrightarrow> no_record c l t p q"
  by (auto simp: caught_up_def)

lemma no_record_empty: "q < p \<Longrightarrow> no_record c l t p q"
  by (auto simp: no_record_def)

lemma no_record_mono: "no_record c l t p q \<Longrightarrow> p \<le> p' \<Longrightarrow> q' \<le> q \<Longrightarrow> no_record c l t p' q'"
  by (meson no_record_def order_trans)

lemma caught_up_new [simp]: "caught_up c (LogReader_new v i lag)"
  by (simp add: caught_up_def next_of_def LogReader_new_def)

lemma word_less_plus1: "n \<noteq> - 1 \<Longrightarrow> n < n + (1 :: u64)"
proof -
  assume "n \<noteq> - 1"
  then have "1 + n \<noteq> 0" by (metis add.commute eq_neg_iff_add_eq_0)
  then show ?thesis using unatSuc [of n] by (simp add: word_less_nat_alt add.commute)
qed

lemma word_minus1_less: "n \<noteq> 0 \<Longrightarrow> n - 1 < (n :: u64)"
  by (metis measure_unat unat_mono word_less_nat_alt)

text \<open>
  The records a reader did not look at between its position and a new one (a gap of the log, or a block
  of the cache skipped by its filter) are of none of its topics.
\<close>

definition skips :: "log_content \<Rightarrow> LogReader \<Rightarrow> LogID \<Rightarrow> SequenceNumber \<Rightarrow> bool" where
  "skips c r l n \<longleftrightarrow> (\<forall>q t m. position r l = Some q \<longrightarrow> next_of r l t \<noteq> None \<longrightarrow> q < m \<and> m < n \<longrightarrow> c l m \<noteq> Some t)"

lemma skips_next: "position r l = Some q \<Longrightarrow> skips c r l (q + 1)"
  by (auto simp: skips_def) (meson inc_le leD)

lemma no_record_extend:
  assumes "caught_up c r" and "position r l = Some q" and "next_of r l t = Some p"
    and "skips c r l n" and "c l n \<noteq> Some t"
  shows "no_record c l t p n"
proof -
  have "no_record c l t p q" using caught_upD [OF assms(1,3,2)] .
  moreover have "c l m \<noteq> Some t" if "q < m" "m < n" for m
    using assms(2-4) that by (auto simp: skips_def)
  ultimately show ?thesis
    using assms(5) by (auto simp: no_record_def) (metis linorder_le_less_linear order_le_less)
qed

lemma caught_up_ProcessRecord:
  assumes "reader_wf r" and "caught_up c r" and "ProcessRecord r l n t = Inr (prev, r')"
    and "c l n = Some t" and "skips c r l n" and "n \<noteq> - 1"
  shows "caught_up c r'"
proof -
  note spec = ProcessRecord_spec [OF assms(1,3)]
  obtain q where q: "position r l = Some q"
    using assms(3) ProcessRecord_fails [of r l n t] by (cases "position r l") auto
  show ?thesis
    unfolding caught_up_def
  proof (intro allI impI)
    fix l' t' p q'
    assume next': "next_of r' l' t' = Some p" and pos': "position r' l' = Some q'"
    show "no_record c l' t' p q'"
    proof (cases "l' = l")
      case True
      then have q': "q' = n" using pos' spec(2) by simp
      show ?thesis
      proof (cases "t' = t")
        case True
        then show ?thesis
          using next' \<open>l' = l\<close> q' word_less_plus1 [OF assms(6)]
          by (intro no_record_empty) (auto simp: spec(3) split: if_splits)
      next
        case False
        then have "next_of r l t' = Some p" using next' True by (simp add: spec(3))
        then show ?thesis
          using no_record_extend [OF assms(2) q _ assms(5)] assms(4) False True q' by simp
      qed
    next
      case False
      then show ?thesis using caught_upD [OF assms(2)] next' pos' spec by simp
    qed
  qed
qed

lemma caught_up_gap:
  assumes "reader_wf r" and "caught_up c r" and "skips c r l to"
    and "\<And>t. next_of r l t \<noteq> None \<Longrightarrow> c l to \<noteq> Some t"
  shows "caught_up c (ProcessBenignGap r l from to)"
proof -
  note spec = set_position_spec [OF assms(1)]
  show ?thesis
    unfolding caught_up_def
  proof (intro allI impI)
    fix l' t' p q'
    assume next': "next_of (ProcessBenignGap r l from to) l' t' = Some p"
      and pos': "position (ProcessBenignGap r l from to) l' = Some q'"
    show "no_record c l' t' p q'"
    proof (cases "l' = l")
      case True
      obtain q where "position r l = Some q" "q' = to" using pos' True by (auto simp: spec)
      then show ?thesis
        using no_record_extend [OF assms(2) _ _ assms(3)] assms(4) next' True by (simp add: spec)
    next
      case False
      then show ?thesis using caught_upD [OF assms(2)] next' pos' by (simp add: spec)
    qed
  qed
qed

lemma caught_up_empty_at:
  assumes "caught_up c r" and "\<And>l'. l' \<noteq> l \<Longrightarrow> next_of r' l' = next_of r l' \<and> position r' l' = position r l'"
    and "\<And>t p q. next_of r' l t = Some p \<Longrightarrow> position r' l = Some q \<Longrightarrow> no_record c l t p q"
  shows "caught_up c r'"
  using assms unfolding caught_up_def by metis

lemma caught_up_StartReading:
  assumes "reader_wf r" and "caught_up c r" and "LogReader_StartReading r t l n = (r', calls)" and "n \<noteq> 0"
  shows "caught_up c r'"
proof (rule caught_up_empty_at [OF assms(2)])
  note spec = StartReading_spec [OF assms(1,3)]
  show "next_of r' l' = next_of r l' \<and> position r' l' = position r l'" if "l' \<noteq> l" for l'
    using that by (simp add: spec)
  have less: "n - 1 < n" using word_minus1_less [OF assms(4)] .
  fix t' p q assume next': "next_of r' l t' = Some p" and pos': "position r' l = Some q"
  have q: "q = start_position r l t n" using pos' by (simp add: spec)
  show "no_record c l t' p q"
  proof (cases "t' = t")
    case True
    then have p: "Some p = opt_min (next_of r l t) (Some n)" using next' by (simp add: spec)
    show ?thesis
    proof (cases "next_of r l t")
      case None
      have "q < n" using less unfolding q start_position_def None by (auto split: option.splits)
      then show ?thesis using p None by (intro no_record_empty) (simp add: opt_min_def)
    next
      case (Some p0)
      then obtain q0 where q0: "position r l = Some q0" using next_of_position by blast
      show ?thesis
      proof (cases "n < p0")
        case True
        have "q < n" using less True q0 unfolding q start_position_def Some by auto
        then show ?thesis using p Some True by (intro no_record_empty) (auto simp: opt_min_def min_def)
      next
        case False
        then have "p = p0" "q = q0" using p Some q0 by (auto simp: opt_min_def min_def q start_position_def)
        then show ?thesis using caught_upD [OF assms(2) Some q0] \<open>t' = t\<close> by simp
      qed
    qed
  next
    case False
    then have old: "next_of r l t' = Some p" using next' by (simp add: spec)
    then obtain q0 where q0: "position r l = Some q0" using next_of_position by blast
    have "q \<le> q0" using less q0 by (auto simp: q start_position_def split: option.splits)
    then show ?thesis using no_record_mono [OF caught_upD [OF assms(2) old q0], of p q] by simp
  qed
qed

lemma caught_up_StopReading:
  assumes "reader_wf r" and "caught_up c r" and "LogReader_StopReading r t l = (r', calls)"
  shows "caught_up c r'"
proof (rule caught_up_empty_at [OF assms(2)])
  note spec = StopReading_spec [OF assms(1,3)]
  show "next_of r' l' = next_of r l' \<and> position r' l' = position r l'" if "l' \<noteq> l" for l'
    using that by (simp add: spec)
  fix t' p q assume "next_of r' l t' = Some p" and "position r' l = Some q"
  then show "no_record c l t' p q"
    using caught_upD [OF assms(2), of l t' p q] by (auto simp: spec split: if_splits)
qed

lemma caught_up_MergeInto:
  assumes "reader_wf src" and "reader_wf dest" and "caught_up c src" and "caught_up c dest"
    and "MergeInto src dest l = Inr (src', dest', calls)"
  shows "caught_up c src'" and "caught_up c dest'"
proof -
  note spec = MergeInto_spec [OF assms(1,2,5)]
  show "caught_up c src'" using assms(3) by (auto simp: caught_up_def spec)
  show "caught_up c dest'"
  proof (rule caught_up_empty_at [OF assms(4)])
    show "next_of dest' l' = next_of dest l' \<and> position dest' l' = position dest l'" if "l' \<noteq> l" for l'
      using that by (simp add: spec)
    fix t p q assume next': "next_of dest' l t = Some p" and pos': "position dest' l = Some q"
    have pos: "position dest l = Some q" "position src l = Some q" using pos' spec(3) by (simp_all add: spec)
    have "next_of dest l t = Some p \<or> next_of src l t = Some p"
      using next' by (auto simp: spec opt_min_def min_def split: option.splits if_splits)
    then show "no_record c l t p q" using caught_upD assms(3,4) pos by blast
  qed
qed

lemma caught_up_Steal:
  assumes "reader_wf r" and "reader_wf p" and "caught_up c r" and "caught_up c p"
    and "StealLogSubscriptions st r p l = Inr (r', p', calls)"
  shows "caught_up c r'" and "caught_up c p'"
  using assms(3,4) by (auto simp: caught_up_def StealLogSubscriptions_spec [OF assms(1,2,5)])

lemma caught_up_same:
  "caught_up c r \<Longrightarrow> next_of r' = next_of r \<Longrightarrow> position r' = position r \<Longrightarrow> caught_up c r'"
  by (simp add: caught_up_def)

section \<open>Properties\<close>

text \<open>
  C20. \<open>BumpLaggingSubscriptions\<close> ends whenever adding the lag to the new sequence number of a bumped topic
  does not make it lag again (which any lag that is not below -1 ensures, short of wrap-around). It
  then bumps each topic at most once, only topics that lag, moves exactly those to the sequence
  number after the given one, and leaves the position of the reader alone. With a lag for which the
  bumped topics lag again, and all topics of the log lagging, the loop never ends.
\<close>

theorem bump_terminates:
  assumes "reader_wf r"
  shows "(\<not> n + 1 + max_subscription_lag r < n \<longrightarrow>
      (\<exists>r' bumped. BumpLaggingSubscriptions r l n = Some (r', bumped) \<and> reader_wf r'
         \<and> position r' = position r \<and> distinct (map fst bumped)
         \<and> (\<forall>(t, p) \<in> set bumped. next_of r l t = Some p \<and> p + max_subscription_lag r < n)
         \<and> (\<forall>t. next_of r' l t = (if t \<in> fst ` set bumped then Some (n + 1) else next_of r l t))
         \<and> (\<forall>l'. l' \<noteq> l \<longrightarrow> next_of r' l' = next_of r l')))
   \<and> (n + 1 + max_subscription_lag r < n \<and> IsLogOpen r l
       \<and> (\<forall>t p. next_of r l t = Some p \<longrightarrow> p + max_subscription_lag r < n) \<longrightarrow>
      BumpLaggingSubscriptions r l n = None)"
proof (intro conjI impI)
  assume "\<not> n + 1 + max_subscription_lag r < n"
  then show "\<exists>r' bumped. BumpLaggingSubscriptions r l n = Some (r', bumped) \<and> reader_wf r'
      \<and> position r' = position r \<and> distinct (map fst bumped)
      \<and> (\<forall>(t, p) \<in> set bumped. next_of r l t = Some p \<and> p + max_subscription_lag r < n)
      \<and> (\<forall>t. next_of r' l t = (if t \<in> fst ` set bumped then Some (n + 1) else next_of r l t))
      \<and> (\<forall>l'. l' \<noteq> l \<longrightarrow> next_of r' l' = next_of r l')"
    by (rule Bump_spec [OF assms, of n l]) auto
next
  assume *: "n + 1 + max_subscription_lag r < n \<and> IsLogOpen r l
       \<and> (\<forall>t p. next_of r l t = Some p \<longrightarrow> p + max_subscription_lag r < n)"
  then obtain ls where ls: "umap_find (log_state r) l = Some ls" by (auto simp: IsLogOpen_def)
  have wf: "od_wf (topics ls)" "topics ls \<noteq> []" using reader_wf_log [OF assms ls] by (auto simp: log_wf_def)
  have "\<forall>e \<in> set (topics ls). lags (max_subscription_lag r) n e"
    using * ls od_in_set [OF wf(1)] by (auto simp: next_of_def lags_def)
  then show "BumpLaggingSubscriptions r l n = None"
    using bump_loop_diverges [of n "max_subscription_lag r" "topics ls" "[]"] * wf ls
    by (simp add: BumpLaggingSubscriptions_def)
qed

theorem bump_terminates_witness:
  "let r = fst (LogReader_StartReading (fst (LogReader_StartReading (LogReader_new False 1 10) [1] 5 20)) [2] 5 90)
   in (\<exists>r'. BumpLaggingSubscriptions r 5 100 = Some (r', []))
    \<and> BumpLaggingSubscriptions
        (fst (LogReader_StartReading (LogReader_new False 1 (- 5)) [1] 5 20)) 5 100 = None"
proof -
  define r where "r = fst (LogReader_StartReading (fst (LogReader_StartReading (LogReader_new False 1 10) [1] 5 20)) [2] 5 90)"
  define r2 where "r2 = fst (LogReader_StartReading (LogReader_new False 1 (- 5)) [1] 5 20)"
  have wf: "reader_wf r" "reader_wf r2"
    unfolding r_def r2_def by (intro StartReading_spec(1) [OF _ surjective_pairing] reader_wf_new)+
  have r: "max_subscription_lag r = 10" "next_of r 5 [1] = Some 20" "topics (the (umap_find (log_state r) 5)) = [([2], 90), ([1], 20)]"
    "umap_find (log_state r) 5 \<noteq> None"
    by (simp_all add: r_def LogReader_StartReading_def LogReader_new_def StartLogReader_def set_log_def
        next_of_def od_emplace_front_def umap_set_def)
  have r2: "max_subscription_lag r2 = - 5" "IsLogOpen r2 5" "next_of r2 5 = [[1] \<mapsto> 20]"
    by (simp_all add: r2_def LogReader_StartReading_def LogReader_new_def StartLogReader_def set_log_def
        next_of_def od_emplace_front_def umap_set_def IsLogOpen_def fun_eq_iff)
  have "\<not> (100 + 1 + 10 < (100 :: u64))" by simp
  then have "\<exists>r' bumped. BumpLaggingSubscriptions r 5 100 = Some (r', bumped)"
    using bump_terminates [OF wf(1), of 100 5] r by auto
  moreover have "snd x = []" if "BumpLaggingSubscriptions r 5 100 = Some x" for x
  proof -
    obtain ls where ls: "umap_find (log_state r) 5 = Some ls" using r(4) by blast
    have "bump_loop 10 100 [([2], 90), ([1], 20)] [] = Some ([([2], 90), ([1], 20)], [])"
      by (subst bump_loop.simps) simp
    then show ?thesis using that r ls by (auto simp: BumpLaggingSubscriptions_def)
  qed
  moreover have "BumpLaggingSubscriptions r2 5 100 = None"
    using bump_terminates [OF wf(2), of 100 5] r2 by simp
  ultimately show ?thesis unfolding Let_def r_def [symmetric] r2_def [symmetric] by fastforce
qed

text \<open>
  C19. The cost of a subscription is infinite whenever taking it on would make the reader go back. A
  reader that is chosen for a finite cost and has the log open keeps its position and makes no call
  on the tailer; a reader that does not have it open starts exactly at the subscription. In every
  case the reader afterwards serves the topic from the requested sequence number or an earlier one.
\<close>

theorem finite_cost_never_rewinds:
  assumes "reader_wf r" and "n \<noteq> 0" and "SubscriptionCost r t l n < kSubscriptionCostRewind"
    and "LogReader_StartReading r t l n = (r', calls)"
  shows "(\<exists>p. next_of r' l t = Some p \<and> p \<le> n)
   \<and> (case position r l of
        Some q \<Rightarrow> position r' l = Some q \<and> calls = []
      | None \<Rightarrow> position r' l = Some (n - 1)
                \<and> calls = (if is_virtual r then [] else [Tailer_StartReading l n (reader_id r)]))"
proof -
  note spec = StartReading_spec [OF assms(1,4)]
  have served: "\<exists>p. next_of r' l t = Some p \<and> p \<le> n"
    by (auto simp: spec opt_min_def split: option.splits)
  show ?thesis
  proof (cases "umap_find (log_state r) l")
    case None
    then have "calls = (if is_virtual r then [] else [Tailer_StartReading l n (reader_id r)])"
      using assms(4) by (auto simp: LogReader_StartReading_def StartLogReader_def)
    then show ?thesis using served None by (simp add: spec start_position_def position_def)
  next
    case (Some ls)
    have no: "\<not> ((case next_of r l t of None \<Rightarrow> True | Some p \<Rightarrow> n < p) \<and> n \<le> last_read ls)"
      using assms(3) Some
      by (auto simp: SubscriptionCost_def next_of_def not_le split: if_splits option.splits)
    then have "calls = []"
      using assms(4) Some
      by (auto simp: LogReader_StartReading_def next_of_def Let_def split: option.splits if_splits)
    then show ?thesis using served Some no by (auto simp: spec start_position_def position_def)
  qed
qed

theorem finite_cost_never_rewinds_witness:
  "let r = fst (LogReader_StartReading (LogReader_new False 7 0) [1] 5 20)
   in position (fst (LogReader_StartReading r [2] 5 25)) 5 = Some 19
      \<and> snd (LogReader_StartReading r [2] 5 25) = []"
proof -
  define r where "r = fst (LogReader_StartReading (LogReader_new False 7 0) [1] 5 20)"
  have wf: "reader_wf r" unfolding r_def by (rule StartReading_spec(1) [OF reader_wf_new surjective_pairing])
  have r: "position r 5 = Some 19" "SubscriptionCost r [2] 5 25 < kSubscriptionCostRewind"
    by (simp_all add: r_def LogReader_StartReading_def LogReader_new_def StartLogReader_def set_log_def
        position_def SubscriptionCost_def umap_set_def kSubscriptionCostRewind_def)
  show ?thesis
    using finite_cost_never_rewinds [OF wf _ r(2) surjective_pairing] r(1)
    unfolding Let_def r_def [symmetric] by simp
qed

end
