(* ===== verification/HandleTable.thy ===== *)
theory HandleTable
  imports Maps
begin

text \<open>
  The hash table of the LRU cache (\<open>HandleTable\<close> of \<open>src/util/cache.cc\<close>): an array of buckets, each a
  singly linked list, that doubles in size when it holds more entries than buckets. An entry is
  the hash and the key of a handle together with the handle itself. The theorem: the table is a
  finite map from keys to handles, also across a change of its size.
\<close>

unbundle bit_operations_syntax

section \<open>Definitions\<close>
















section \<open>Consistency of the table\<close>














section \<open>Changing one bucket\<close>



section \<open>Resizing\<close>










section \<open>The operations on the map\<close>




section \<open>Property\<close>








end
