(* ===== verification/LruCache.thy ===== *)
theory LruCache
  imports HandleTable XxHash
begin

text \<open>
  \<open>LRUCache\<close> of \<open>src/util/cache.cc\<close>. Handles live on a heap and are named by numbers; \<open>value\<close> is
  kept with its handle. The list of unreferenced entries runs from the oldest (\<open>lru_.next\<close>) to the newest
  one. The hash table is represented by the finite map that \<open>HandleTable.thy\<close> shows it to
  be. An entry that loses its last reference leaves the heap for the list of entries to free, and
  \<open>Free\<close> checks its assertion on that list. A handle that points nowhere is undefined
  in C++; the model fails. The theorems: the invariants stated at the head of the source file are
  kept and no assertion fails, and when no handle is held the usage is within the capacity.
\<close>

section \<open>State\<close>

record 'v LRUHandle =
  h_key :: bytes
  h_value :: 'v
  h_charge :: u64
  h_refs :: u32
  h_in_cache :: bool

record 'v LRUCache =
  lc_capacity :: u64
  lc_usage :: u64
  lc_lru_usage :: u64
  lc_lru :: "nat list"
  lc_table :: "(bytes, nat) umap"
  lc_heap :: "(nat, 'v LRUHandle) umap"
  lc_fresh :: nat

definition LRUCache_new :: "u64 \<Rightarrow> 'v LRUCache" where
  "LRUCache_new cap = \<lparr> lc_capacity = cap, lc_usage = 0, lc_lru_usage = 0, lc_lru = [], lc_table = [], lc_heap = [], lc_fresh = 0 \<rparr>"

definition HashSlice :: "XXH_endianess \<Rightarrow> slice \<Rightarrow> u32" where
  "HashSlice cpu s = XXH32 cpu s 0x9ee8fcef"

definition GetUsage :: "'v LRUCache \<Rightarrow> u64" where
  "GetUsage c = lc_usage c"

definition GetPinnedUsage :: "'v LRUCache \<Rightarrow> failure + u64" where
  "GetPinnedUsage c = andThen (rs_assert (lc_lru_usage c \<le> lc_usage c)) (\<lambda>_. Inr (lc_usage c - lc_lru_usage c))"

section \<open>Handles\<close>

definition deref :: "'v LRUCache \<Rightarrow> nat \<Rightarrow> failure + 'v LRUHandle" where
  "deref c i = (case umap_find (lc_heap c) i of None \<Rightarrow> Inl Assert_failed | Some h \<Rightarrow> Inr h)"

definition set_handle :: "nat \<Rightarrow> 'v LRUHandle \<Rightarrow> 'v LRUCache \<Rightarrow> 'v LRUCache" where
  "set_handle i h c = c\<lparr> lc_heap := umap_set (lc_heap c) i h \<rparr>"

definition Unref :: "'v LRUHandle \<Rightarrow> failure + bool \<times> 'v LRUHandle" where
  "Unref e =
     andThen (rs_assert (0 < h_refs e)) (\<lambda>_.
       let e = e\<lparr> h_refs := h_refs e - 1 \<rparr> in Inr (h_refs e = 0, e))"

definition Free :: "'v LRUHandle \<Rightarrow> failure + unit" where
  "Free e = rs_assert ((h_refs e = 1 \<and> h_in_cache e) \<or> (h_refs e = 0 \<and> \<not> h_in_cache e))"

fun Free_all :: "'v LRUHandle list \<Rightarrow> failure + unit" where
  "Free_all [] = Inr ()"
| "Free_all (e # es) = andThen (Free e) (\<lambda>_. Free_all es)"

definition LRU_Remove :: "nat \<Rightarrow> 'v LRUHandle \<Rightarrow> 'v LRUCache \<Rightarrow> failure + 'v LRUCache" where
  "LRU_Remove i e c =
     andThen (rs_assert (i \<in> set (lc_lru c))) (\<lambda>_.
       Inr (c\<lparr> lc_lru := remove1 i (lc_lru c), lc_lru_usage := lc_lru_usage c - h_charge e \<rparr>))"

definition LRU_Append :: "nat \<Rightarrow> 'v LRUHandle \<Rightarrow> 'v LRUCache \<Rightarrow> failure + 'v LRUCache" where
  "LRU_Append i e c =
     andThen (rs_assert (i \<notin> set (lc_lru c))) (\<lambda>_.
       Inr (c\<lparr> lc_lru := lc_lru c @ [i], lc_lru_usage := lc_lru_usage c + h_charge e \<rparr>))"

section \<open>Eviction\<close>

text \<open>One round of the loop of \<open>EvictFromLRU\<close>, for the oldest entry of the list.\<close>

definition evict_one :: "nat \<Rightarrow> 'v LRUCache \<Rightarrow> failure + 'v LRUCache \<times> 'v LRUHandle" where
  "evict_one i c =
     andThen (deref c i) (\<lambda>old.
     andThen (rs_assert (h_in_cache old)) (\<lambda>_.
     andThen (rs_assert (h_refs old = 1)) (\<lambda>_.
     andThen (LRU_Remove i old c) (\<lambda>c.
       let c = c\<lparr> lc_table := umap_erase (lc_table c) (h_key old) \<rparr>;
           old = old\<lparr> h_in_cache := False \<rparr>
       in andThen (Unref old) (\<lambda>(_, old).
            Inr (c\<lparr> lc_usage := lc_usage c - h_charge old, lc_heap := umap_erase (lc_heap c) i \<rparr>, old))))))"

lemma evict_one_shorter: "evict_one i c = Inr (c', old) \<Longrightarrow> length (lc_lru c') < length (lc_lru c)"
proof -
  assume "evict_one i c = Inr (c', old)"
  then have "i \<in> set (lc_lru c)" "lc_lru c' = remove1 i (lc_lru c)"
    by (auto simp: evict_one_def LRU_Remove_def andThen_Inr Let_def)
  then show ?thesis using length_pos_if_in_set [of i "lc_lru c"] by (simp add: length_remove1)
qed

function EvictFromLRU ::
  "u64 \<Rightarrow> 'v LRUCache \<Rightarrow> 'v LRUHandle list \<Rightarrow> failure + 'v LRUCache \<times> 'v LRUHandle list" where
  "EvictFromLRU charge c deleted =
     (if lc_capacity c < lc_usage c + charge
      then case lc_lru c of
             [] \<Rightarrow> Inr (c, deleted)
           | i # _ \<Rightarrow>
               (case evict_one i c of
                  Inl e \<Rightarrow> Inl e
                | Inr (c, old) \<Rightarrow> EvictFromLRU charge c (deleted @ [old]))
      else Inr (c, deleted))"
  by pat_completeness auto

termination
  by (relation "measure (\<lambda>(_, c, _). length (lc_lru c))") (auto dest: evict_one_shorter)

declare EvictFromLRU.simps [simp del]

section \<open>Operations\<close>

definition LRUCache_SetCapacity :: "'v LRUCache \<Rightarrow> u64 \<Rightarrow> failure + 'v LRUCache" where
  "LRUCache_SetCapacity c cap =
     andThen (EvictFromLRU 0 (c\<lparr> lc_capacity := cap \<rparr>) []) (\<lambda>(c, last_reference_list).
     andThen (Free_all last_reference_list) (\<lambda>_. Inr c))"

definition LRUCache_Lookup :: "'v LRUCache \<Rightarrow> slice \<Rightarrow> failure + nat option \<times> 'v LRUCache" where
  "LRUCache_Lookup c key =
     (case umap_find (lc_table c) key of
        None \<Rightarrow> Inr (None, c)
      | Some i \<Rightarrow>
          andThen (deref c i) (\<lambda>e.
          andThen (rs_assert (h_in_cache e)) (\<lambda>_.
          andThen (if h_refs e = 1 then LRU_Remove i e c else Inr c) (\<lambda>c.
            Inr (Some i, set_handle i (e\<lparr> h_refs := h_refs e + 1 \<rparr>) c)))))"

definition LRUCache_Release :: "'v LRUCache \<Rightarrow> nat \<Rightarrow> failure + 'v LRUCache" where
  "LRUCache_Release c i =
     andThen (deref c i) (\<lambda>e.
     andThen (Unref e) (\<lambda>(last_reference, e).
       let c = (if last_reference then c\<lparr> lc_usage := lc_usage c - h_charge e \<rparr> else c)
       in if h_refs e = 1 \<and> h_in_cache e
          then if lc_capacity c < lc_usage c
               then andThen (rs_assert (lc_lru c = [])) (\<lambda>_.
                      let c = c\<lparr> lc_table := umap_erase (lc_table c) (h_key e) \<rparr>;
                          e = e\<lparr> h_in_cache := False \<rparr>
                      in andThen (Unref e) (\<lambda>(_, e).
                         andThen (Free e) (\<lambda>_.
                           Inr (c\<lparr> lc_usage := lc_usage c - h_charge e, lc_heap := umap_erase (lc_heap c) i \<rparr>))))
               else andThen (LRU_Append i e c) (\<lambda>c. Inr (set_handle i e c))
          else if last_reference
               then andThen (Free e) (\<lambda>_. Inr (c\<lparr> lc_heap := umap_erase (lc_heap c) i \<rparr>))
               else Inr (set_handle i e c)))"

definition LRUCache_Insert :: "'v LRUCache \<Rightarrow> slice \<Rightarrow> 'v \<Rightarrow> u64 \<Rightarrow> failure + nat \<times> 'v LRUCache" where
  "LRUCache_Insert c key val charge =
     (let i = lc_fresh c;
          e = \<lparr> h_key = key, h_value = val, h_charge = charge, h_refs = 2, h_in_cache = True \<rparr>
      in andThen (EvictFromLRU charge c []) (\<lambda>(c, last_reference_list).
           let old = umap_find (lc_table c) key;
               c = c\<lparr> lc_table := umap_set (lc_table c) key i, lc_heap := umap_set (lc_heap c) i e,
                      lc_fresh := i + 1, lc_usage := lc_usage c + charge \<rparr>
           in andThen
                (case old of
                   None \<Rightarrow> Inr (c, last_reference_list)
                 | Some j \<Rightarrow>
                     andThen (deref c j) (\<lambda>o'.
                     andThen (Unref (o'\<lparr> h_in_cache := False \<rparr>)) (\<lambda>(last_reference, o').
                       if last_reference
                       then andThen (LRU_Remove j o' (c\<lparr> lc_usage := lc_usage c - h_charge o' \<rparr>)) (\<lambda>c.
                              Inr (c\<lparr> lc_heap := umap_erase (lc_heap c) j \<rparr>, last_reference_list @ [o']))
                       else Inr (set_handle j o' c, last_reference_list))))
                (\<lambda>(c, last_reference_list).
                   andThen (Free_all last_reference_list) (\<lambda>_. Inr (i, c)))))"

definition LRUCache_Erase :: "'v LRUCache \<Rightarrow> slice \<Rightarrow> failure + 'v LRUCache" where
  "LRUCache_Erase c key =
     (case umap_find (lc_table c) key of
        None \<Rightarrow> Inr c
      | Some i \<Rightarrow>
          let c = c\<lparr> lc_table := umap_erase (lc_table c) key \<rparr>
          in andThen (deref c i) (\<lambda>e.
             andThen (Unref e) (\<lambda>(last_reference, e).
               let c = (if last_reference then c\<lparr> lc_usage := lc_usage c - h_charge e \<rparr> else c)
               in andThen (if last_reference \<and> h_in_cache e then LRU_Remove i e c else Inr c) (\<lambda>c.
                    let e = e\<lparr> h_in_cache := False \<rparr>
                    in if last_reference
                       then andThen (Free e) (\<lambda>_. Inr (c\<lparr> lc_heap := umap_erase (lc_heap c) i \<rparr>))
                       else Inr (set_handle i e c)))))"

definition LRUCache_Value :: "'v LRUCache \<Rightarrow> nat \<Rightarrow> failure + 'v" where
  "LRUCache_Value c i = andThen (deref c i) (\<lambda>e. Inr (h_value e))"

definition ChargeDelta :: "'v LRUCache \<Rightarrow> nat \<Rightarrow> u64 \<Rightarrow> failure + 'v LRUCache" where
  "ChargeDelta c i delta =
     andThen (EvictFromLRU delta c []) (\<lambda>(c, last_reference_list).
     andThen (Free_all last_reference_list) (\<lambda>_.
     andThen (deref c i) (\<lambda>e.
       let c = set_handle i (e\<lparr> h_charge := h_charge e + delta \<rparr>) c;
           c = c\<lparr> lc_usage := lc_usage c + delta \<rparr>
       in andThen (rs_assert (1 < h_refs e)) (\<lambda>_. Inr c))))"

text \<open>\<open>ApplyToAllCacheEntries\<close>: the values and charges the callback sees.\<close>

definition ApplyToAllCacheEntries :: "'v LRUCache \<Rightarrow> ('v \<times> u64) list" where
  "ApplyToAllCacheEntries c =
     concat (map (\<lambda>(_, i). case umap_find (lc_heap c) i of None \<Rightarrow> [] | Some h \<Rightarrow> [(h_value h, h_charge h)]) (lc_table c))"

text \<open>The client changes the object a handle's value points to.\<close>

definition set_value :: "'v LRUCache \<Rightarrow> nat \<Rightarrow> 'v \<Rightarrow> failure + 'v LRUCache" where
  "set_value c i v = andThen (deref c i) (\<lambda>e. Inr (set_handle i (e\<lparr> h_value := v \<rparr>) c))"

section \<open>The invariant\<close>

definition charge_of :: "'v LRUCache \<Rightarrow> nat \<Rightarrow> nat" where
  "charge_of c i = (case umap_find (lc_heap c) i of None \<Rightarrow> 0 | Some h \<Rightarrow> unat (h_charge h))"

definition charges :: "'v LRUCache \<Rightarrow> nat" where
  "charges c = umap_sum (\<lambda>h. unat (h_charge h)) (lc_heap c)"

definition lru_charges :: "'v LRUCache \<Rightarrow> nat" where
  "lru_charges c = sum_list (map (charge_of c) (lc_lru c))"

text \<open>
  The three states a handle can be in according to the head of the source file: in the table and
  referenced from outside (not in the list), in the table only (in the list), or referenced from
  outside only. The usage is the sum of all charges, the usage of the list that of its members.
\<close>

definition heap_wf :: "'v LRUCache \<Rightarrow> bool" where
  "heap_wf c \<longleftrightarrow> umap_wf (lc_heap c) \<and> umap_wf (lc_table c) \<and> distinct (lc_lru c)
     \<and> (\<forall>i h. umap_find (lc_heap c) i = Some h \<longrightarrow> i < lc_fresh c \<and> 0 < h_refs h)"

definition table_wf :: "'v LRUCache \<Rightarrow> bool" where
  "table_wf c \<longleftrightarrow> (\<forall>k i. umap_find (lc_table c) k = Some i
     \<longleftrightarrow> (\<exists>h. umap_find (lc_heap c) i = Some h \<and> h_in_cache h \<and> h_key h = k))"

definition list_wf :: "'v LRUCache \<Rightarrow> bool" where
  "list_wf c \<longleftrightarrow> (\<forall>i. i \<in> set (lc_lru c)
     \<longleftrightarrow> (\<exists>h. umap_find (lc_heap c) i = Some h \<and> h_in_cache h \<and> h_refs h = 1))"

definition lru_wf :: "'v LRUCache \<Rightarrow> bool" where
  "lru_wf c \<longleftrightarrow> heap_wf c \<and> table_wf c \<and> list_wf c
     \<and> unat (lc_usage c) = charges c \<and> unat (lc_lru_usage c) = lru_charges c"

definition lru_inv :: "'v LRUCache \<Rightarrow> bool" where
  "lru_inv c \<longleftrightarrow> lru_wf c \<and> (lc_capacity c < lc_usage c \<longrightarrow> lc_lru c = [])"

lemma lru_inv_new [simp]: "lru_inv (LRUCache_new cap)"
  by (simp add: lru_inv_def lru_wf_def heap_wf_def table_wf_def list_wf_def charges_def lru_charges_def LRUCache_new_def)

lemma charge_of_le: "charge_of c i \<le> charges c"
  by (auto simp: charge_of_def charges_def dest: umap_sum_find [of _ _ _ "\<lambda>h. unat (h_charge h)"] split: option.splits)

lemma unat_minus_le: "unat b \<le> unat a \<Longrightarrow> unat (a - b) = unat a - unat (b :: 'a::len word)"
  by (simp add: unat_sub word_le_nat_alt)

lemma sum_remove1: "i \<in> set xs \<Longrightarrow> sum_list (map f (remove1 i xs)) + f i = (sum_list (map f xs) :: nat)"
  by (induction xs) auto

lemma sum_map_upd: "i \<notin> set xs \<Longrightarrow> (\<And>j. j \<noteq> i \<Longrightarrow> f j = g j) \<Longrightarrow> sum_list (map f xs) = sum_list (map g xs)"
  by (induction xs) auto

lemma lru_member: "lru_wf c \<Longrightarrow> i \<in> set (lc_lru c) \<Longrightarrow>
    \<exists>h. umap_find (lc_heap c) i = Some h \<and> h_in_cache h \<and> h_refs h = 1 \<and> umap_find (lc_table c) (h_key h) = Some i"
  by (auto simp: lru_wf_def list_wf_def table_wf_def)

text \<open>Replacing, adding or dropping one handle, with the table and the list changed accordingly.\<close>

lemma lru_charge_le:
  assumes "lru_wf c" and "umap_find (lc_heap c) i = Some h"
  shows "unat (h_charge h) \<le> unat (lc_usage c)"
  using charge_of_le [of c i] assms by (simp add: lru_wf_def charge_of_def)

lemma lru_member_charge_le:
  assumes "lru_wf c" and "i \<in> set (lc_lru c)" and "umap_find (lc_heap c) i = Some h"
  shows "unat (h_charge h) \<le> unat (lc_lru_usage c)"
  using sum_remove1 [OF assms(2), of "charge_of c"] assms(1,3)
  by (simp add: lru_wf_def lru_charges_def charge_of_def)

lemma table_wf_unique:
  assumes "table_wf c" and "umap_find (lc_heap c) i = Some h" and "umap_find (lc_heap c) j = Some h'"
    and "h_in_cache h" and "h_in_cache h'" and "h_key h = h_key h'"
  shows "i = j"
  using assms unfolding table_wf_def by (metis option.inject)

lemma table_wf_drop:
  assumes "table_wf c" and "umap_find (lc_heap c) i = Some h" and "h_in_cache h"
    and "\<And>k. umap_find (lc_table c') k = (if k = h_key h then None else umap_find (lc_table c) k)"
    and "\<And>j. umap_find (lc_heap c') j = (if j = i then None else umap_find (lc_heap c) j)"
  shows "table_wf c'"
  unfolding table_wf_def
proof (intro allI)
  fix k j
  have old: "umap_find (lc_table c) k = Some j
      \<longleftrightarrow> (\<exists>h. umap_find (lc_heap c) j = Some h \<and> h_in_cache h \<and> h_key h = k)"
    using assms(1) by (simp add: table_wf_def)
  have "j = i" if "umap_find (lc_heap c) j = Some h'" "h_in_cache h'" "h_key h' = h_key h" for h'
    using table_wf_unique [OF assms(1) that(1) assms(2) that(2) assms(3) that(3)] .
  then show "umap_find (lc_table c') k = Some j
      \<longleftrightarrow> (\<exists>h. umap_find (lc_heap c') j = Some h \<and> h_in_cache h \<and> h_key h = k)"
    using old assms(2) by (auto simp: assms(4,5))
qed

lemma charges_set:
  "umap_wf (lc_heap c) \<Longrightarrow> lc_heap c' = umap_set (lc_heap c) i h \<Longrightarrow>
     charges c' + charge_of c i = charges c + unat (h_charge h)"
  using umap_sum_set [of "lc_heap c" "\<lambda>h. unat (h_charge h)" i h]
  by (simp add: charges_def charge_of_def)

lemma charges_erase:
  "umap_wf (lc_heap c) \<Longrightarrow> lc_heap c' = umap_erase (lc_heap c) i \<Longrightarrow> charges c' + charge_of c i = charges c"
  using umap_sum_erase [of "lc_heap c" "\<lambda>h. unat (h_charge h)" i]
  by (simp add: charges_def charge_of_def)

lemma evict_one_spec:
  assumes "lru_wf c" and "lc_lru c = i # rest"
  shows "\<exists>h c'. umap_find (lc_heap c) i = Some h \<and> h_in_cache h \<and> h_refs h = 1
    \<and> evict_one i c = Inr (c', h\<lparr> h_in_cache := False, h_refs := 0 \<rparr>) \<and> lru_wf c'
    \<and> lc_lru c' = rest \<and> lc_capacity c' = lc_capacity c \<and> lc_fresh c' = lc_fresh c
    \<and> lc_heap c' = umap_erase (lc_heap c) i \<and> lc_table c' = umap_erase (lc_table c) (h_key h)"
proof -
  obtain h where h: "umap_find (lc_heap c) i = Some h" "h_in_cache h" "h_refs h = 1"
      "umap_find (lc_table c) (h_key h) = Some i"
    using lru_member [OF assms(1), of i] assms(2) by auto
  define c' where "c' = c\<lparr> lc_lru := rest, lc_lru_usage := lc_lru_usage c - h_charge h,
      lc_table := umap_erase (lc_table c) (h_key h), lc_usage := lc_usage c - h_charge h,
      lc_heap := umap_erase (lc_heap c) i \<rparr>"
  have ev: "evict_one i c = Inr (c', h\<lparr> h_in_cache := False, h_refs := 0 \<rparr>)"
    using h assms(2) by (simp add: evict_one_def deref_def LRU_Remove_def Unref_def c'_def Let_def)
  have notin: "i \<notin> set rest" using assms by (auto simp: lru_wf_def heap_wf_def)
  have heap: "heap_wf c'"
    using assms by (auto simp: lru_wf_def heap_wf_def c'_def)
  have "table_wf c" using assms(1) by (simp add: lru_wf_def)
  then have table: "table_wf c'" by (rule table_wf_drop [OF _ h(1,2)]) (simp_all add: c'_def)
  have lst: "list_wf c'"
    using assms notin by (auto simp: lru_wf_def list_wf_def c'_def)
  have "charges c' + unat (h_charge h) = charges c"
    using umap_sum_erase [of "lc_heap c" "\<lambda>h. unat (h_charge h)" i] h(1) assms(1)
    by (simp add: charges_def c'_def lru_wf_def heap_wf_def)
  then have u: "unat (lc_usage c') = charges c'"
    using unat_minus_le [OF lru_charge_le [OF assms(1) h(1)]] assms(1) by (simp add: c'_def lru_wf_def)
  have "sum_list (map (charge_of c') rest) = sum_list (map (charge_of c) rest)"
    using notin by (intro sum_map_upd [of i]) (simp_all add: charge_of_def c'_def)
  moreover have "lru_charges c = unat (h_charge h) + sum_list (map (charge_of c) rest)"
    using assms(2) h(1) by (simp add: lru_charges_def charge_of_def)
  ultimately have "unat (lc_lru_usage c') = lru_charges c'"
    using unat_minus_le [OF lru_member_charge_le [OF assms(1) _ h(1)]] assms
    by (simp add: c'_def lru_wf_def lru_charges_def)
  then have "lru_wf c'" using heap table lst u by (simp add: lru_wf_def)
  then show ?thesis using h ev by (auto simp: c'_def)
qed

text \<open>What eviction leaves: the oldest entries of the list are gone, all other handles are as before.\<close>

definition evicted :: "'v LRUCache \<Rightarrow> 'v LRUCache \<Rightarrow> bool" where
  "evicted c c' \<longleftrightarrow> lc_capacity c' = lc_capacity c \<and> lc_fresh c' = lc_fresh c
     \<and> charges c' \<le> charges c
     \<and> (\<exists>n. lc_lru c' = drop n (lc_lru c)
          \<and> (\<forall>i. umap_find (lc_heap c') i = (if i \<in> set (take n (lc_lru c)) then None else umap_find (lc_heap c) i)))
     \<and> (\<forall>k i. umap_find (lc_table c') k = Some i \<longrightarrow> umap_find (lc_table c) k = Some i)"

lemma evicted_refl: "evicted c c"
  by (auto simp: evicted_def intro: exI [of _ 0])

lemma Free_all_append [simp]: "Free_all (xs @ ys) = andThen (Free_all xs) (\<lambda>_. Free_all ys)"
  by (induction xs) (simp_all add: andThen_def split: sum.splits)

lemma EvictFromLRU_spec:
  assumes "lru_wf c" and "Free_all deleted = Inr ()"
  shows "\<exists>c' del. EvictFromLRU charge c deleted = Inr (c', del) \<and> lru_wf c' \<and> Free_all del = Inr ()
    \<and> evicted c c' \<and> (lc_capacity c' < lc_usage c' + charge \<longrightarrow> lc_lru c' = [])
    \<and> (\<not> lc_capacity c < lc_usage c + charge \<longrightarrow> c' = c)"
  using assms
proof (induction charge c deleted rule: EvictFromLRU.induct)
  case (1 charge c deleted)
  show ?case
  proof (cases "lc_capacity c < lc_usage c + charge \<and> lc_lru c \<noteq> []")
    case False
    then have "EvictFromLRU charge c deleted = Inr (c, deleted)"
      by (subst EvictFromLRU.simps) (auto split: list.splits)
    then show ?thesis using 1(2,3) False evicted_refl by auto
  next
    case True
    then obtain i rest where lru: "lc_lru c = i # rest" by (cases "lc_lru c") auto
    from evict_one_spec [OF 1(2) lru] obtain h c1 where one:
      "evict_one i c = Inr (c1, h\<lparr> h_in_cache := False, h_refs := 0 \<rparr>)" "lru_wf c1" "lc_lru c1 = rest"
      "lc_capacity c1 = lc_capacity c" "lc_fresh c1 = lc_fresh c" "lc_heap c1 = umap_erase (lc_heap c) i"
      "lc_table c1 = umap_erase (lc_table c) (h_key h)"
      by blast
    have "Free_all (deleted @ [h\<lparr> h_in_cache := False, h_refs := 0 \<rparr>]) = Inr ()"
      using 1(3) by (simp add: Free_def)
    from 1(1) [OF _ lru one(1) refl one(2) this] True obtain c' del where c':
      "EvictFromLRU charge c1 (deleted @ [h\<lparr> h_in_cache := False, h_refs := 0 \<rparr>]) = Inr (c', del)"
      "lru_wf c'" "Free_all del = Inr ()" "evicted c1 c'"
      "lc_capacity c' < lc_usage c' + charge \<longrightarrow> lc_lru c' = []" by blast
    have run: "EvictFromLRU charge c deleted = Inr (c', del)"
      using c'(1) True lru one(1) by (subst EvictFromLRU.simps) simp
    obtain n where n: "lc_lru c' = drop n rest"
      "\<forall>j. umap_find (lc_heap c') j = (if j \<in> set (take n rest) then None else umap_find (lc_heap c1) j)"
      using c'(4) one(3) by (auto simp: evicted_def)
    then have "lc_lru c' = drop (Suc n) (lc_lru c)"
      "\<forall>j. umap_find (lc_heap c') j = (if j \<in> set (take (Suc n) (lc_lru c)) then None else umap_find (lc_heap c) j)"
      using lru one(6) by auto
    moreover have "umap_wf (lc_heap c)" using 1(2) by (simp add: lru_wf_def heap_wf_def)
    from charges_erase [OF this one(6)] have "charges c' \<le> charges c" using c'(4) by (simp add: evicted_def)
    moreover have "umap_find (lc_table c) k = Some j" if "umap_find (lc_table c') k = Some j" for k j
    proof -
      have "umap_find (lc_table c1) k = Some j" using that c'(4) by (simp add: evicted_def)
      then show ?thesis unfolding one(7) by (simp split: if_splits)
    qed
    moreover have "lc_capacity c' = lc_capacity c" "lc_fresh c' = lc_fresh c"
      using c'(4) one(4,5) by (simp_all add: evicted_def)
    ultimately have "evicted c c'" unfolding evicted_def by blast
    then show ?thesis using run c'(2,3,5) True by blast
  qed
qed

section \<open>Changing one handle\<close>

lemma lru_charges_other:
  assumes "i \<notin> set (lc_lru c')" and "\<And>j. j \<noteq> i \<Longrightarrow> umap_find (lc_heap c') j = umap_find (lc_heap c) j"
  shows "lru_charges c' = sum_list (map (charge_of c) (lc_lru c'))"
  unfolding lru_charges_def using assms by (intro sum_map_upd [of i]) (simp_all add: charge_of_def)

text \<open>A handle changes its reference count, value or charge but keeps its key and its place in the table.\<close>

lemma lru_wf_set_handle:
  assumes "lru_wf c" and h: "umap_find (lc_heap c) i = Some h"
    and heap': "lc_heap c' = umap_set (lc_heap c) i h'" and table': "lc_table c' = lc_table c"
    and fresh': "lc_fresh c' = lc_fresh c"
    and same: "h_key h' = h_key h" "h_in_cache h' = h_in_cache h" "0 < h_refs h'"
    and lru': "distinct (lc_lru c')" "set (lc_lru c') = (if h_in_cache h' \<and> h_refs h' = 1 then insert i (set (lc_lru c)) else set (lc_lru c) - {i})"
    and usage': "unat (lc_usage c') = charges c'" "unat (lc_lru_usage c') = lru_charges c'"
  shows "lru_wf c'"
proof -
  have wf: "heap_wf c" "table_wf c" "list_wf c" using assms(1) by (simp_all add: lru_wf_def)
  have "heap_wf c'"
    using wf(1) h heap' table' fresh' same(3) lru'(1) by (auto simp: heap_wf_def)
  moreover have "table_wf c'"
    using wf(2) h same by (auto simp: table_wf_def heap' table')
  moreover have "list_wf c'"
    unfolding list_wf_def
  proof
    fix j
    have "j \<in> set (lc_lru c) \<longleftrightarrow> (\<exists>h. umap_find (lc_heap c) j = Some h \<and> h_in_cache h \<and> h_refs h = 1)"
      using wf(3) by (simp add: list_wf_def)
    then show "j \<in> set (lc_lru c') \<longleftrightarrow> (\<exists>h. umap_find (lc_heap c') j = Some h \<and> h_in_cache h \<and> h_refs h = 1)"
      by (auto simp: lru'(2) heap')
  qed
  ultimately show ?thesis using usage' by (simp add: lru_wf_def)
qed

text \<open>A handle leaves the heap.\<close>

lemma lru_wf_erase_handle:
  assumes "lru_wf c" and h: "umap_find (lc_heap c) i = Some h"
    and heap': "lc_heap c' = umap_erase (lc_heap c) i"
    and table': "lc_table c' = (if h_in_cache h then umap_erase (lc_table c) (h_key h) else lc_table c)"
    and fresh': "lc_fresh c' = lc_fresh c"
    and lru': "distinct (lc_lru c')" "set (lc_lru c') = set (lc_lru c) - {i}"
    and usage': "lc_usage c' = lc_usage c - h_charge h" "unat (lc_lru_usage c') = lru_charges c'"
  shows "lru_wf c'"
proof -
  have wf: "heap_wf c" "table_wf c" "list_wf c" using assms(1) by (simp_all add: lru_wf_def)
  have "heap_wf c'"
    using wf(1) heap' table' fresh' lru'(1) by (auto simp: heap_wf_def)
  moreover have "table_wf c'"
  proof (cases "h_in_cache h")
    case True
    then show ?thesis by (intro table_wf_drop [OF wf(2) h]) (simp_all add: heap' table')
  next
    case False
    have "umap_find (lc_table c) k = Some j \<longleftrightarrow>
        (\<exists>h. umap_find (lc_heap c') j = Some h \<and> h_in_cache h \<and> h_key h = k)" for k j
      using wf(2) h False unfolding table_wf_def by (auto simp: heap')
    then show ?thesis using False table' by (simp add: table_wf_def)
  qed
  moreover have "list_wf c'"
    using wf(3) by (auto simp: list_wf_def lru'(2) heap')
  moreover have "charges c' + unat (h_charge h) = charges c"
    using charges_erase [OF _ heap'] wf(1) h by (simp add: heap_wf_def charge_of_def)
  then have "unat (lc_usage c') = charges c'"
    using unat_minus_le [OF lru_charge_le [OF assms(1) h]] assms(1) usage'(1) by (simp add: lru_wf_def)
  ultimately show ?thesis using usage'(2) by (simp add: lru_wf_def)
qed

text \<open>A new handle enters heap and table; extensional, since the order of the entries does not matter.\<close>

lemma lru_wf_add_handle:
  assumes "lru_wf c" and new: "umap_find (lc_heap c) i = None" "umap_find (lc_table c) (h_key e) = None"
    and e: "h_in_cache e" "h_refs e = 2"
    and wf': "umap_wf (lc_heap c')" "umap_wf (lc_table c')"
    and heap': "\<And>j. umap_find (lc_heap c') j = (if j = i then Some e else umap_find (lc_heap c) j)"
    and table': "\<And>k. umap_find (lc_table c') k = (if k = h_key e then Some i else umap_find (lc_table c) k)"
    and fresh': "lc_fresh c \<le> lc_fresh c'" "i < lc_fresh c'"
    and lru': "lc_lru c' = lc_lru c" "lc_lru_usage c' = lc_lru_usage c"
    and usage': "unat (lc_usage c') = charges c'"
  shows "lru_wf c'"
proof -
  have wf: "heap_wf c" "table_wf c" "list_wf c" using assms(1) by (simp_all add: lru_wf_def)
  have "heap_wf c'"
    using wf(1) wf' e fresh' lru'(1) by (auto simp: heap_wf_def heap' word_gt_0 intro: less_le_trans)
  moreover have "table_wf c'"
    unfolding table_wf_def
  proof (intro allI)
    fix k j
    have old: "umap_find (lc_table c) k = Some j \<longleftrightarrow>
        (\<exists>h. umap_find (lc_heap c) j = Some h \<and> h_in_cache h \<and> h_key h = k)"
      using wf(2) by (simp add: table_wf_def)
    have "umap_find (lc_heap c) j = Some h \<Longrightarrow> h_in_cache h \<Longrightarrow> h_key h \<noteq> h_key e" for h
      using wf(2) new(2) unfolding table_wf_def by (metis option.distinct(1))
    then show "umap_find (lc_table c') k = Some j \<longleftrightarrow>
        (\<exists>h. umap_find (lc_heap c') j = Some h \<and> h_in_cache h \<and> h_key h = k)"
      using old new(1) e(1) by (auto simp: heap' table')
  qed
  moreover have "list_wf c'"
    using wf(3) new(1) e by (auto simp: list_wf_def lru'(1) heap')
  moreover have notin: "i \<notin> set (lc_lru c)" using wf(3) new(1) by (auto simp: list_wf_def)
  have "lru_charges c' = sum_list (map (charge_of c) (lc_lru c'))"
    using notin lru'(1) heap' by (intro lru_charges_other [of i]) simp_all
  then have "unat (lc_lru_usage c') = lru_charges c'"
    using assms(1) lru' by (simp add: lru_wf_def lru_charges_def)
  ultimately show ?thesis using usage' by (simp add: lru_wf_def)
qed

lemma sum_charge_distinct:
  "umap_wf h \<Longrightarrow> distinct is \<Longrightarrow>
     sum_list (map (\<lambda>i. case umap_find h i of None \<Rightarrow> 0 | Some e \<Rightarrow> f e) is) \<le> (umap_sum f h :: nat)"
proof (induction "is" arbitrary: h)
  case Nil
  then show ?case by simp
next
  case (Cons i js)
  have "umap_wf (umap_erase h i)" using Cons.prems(1) by simp
  from Cons.IH [OF this] Cons.prems(2)
  have "sum_list (map (\<lambda>j. case umap_find (umap_erase h i) j of None \<Rightarrow> 0 | Some e \<Rightarrow> f e) js) \<le> umap_sum f (umap_erase h i)"
    by simp
  moreover have "map (\<lambda>j. case umap_find (umap_erase h i) j of None \<Rightarrow> 0 | Some e \<Rightarrow> f e) js
      = map (\<lambda>j. case umap_find h j of None \<Rightarrow> 0 | Some e \<Rightarrow> f e) js"
    using Cons.prems by (intro map_cong) auto
  then have "sum_list (map (\<lambda>j. case umap_find (umap_erase h i) j of None \<Rightarrow> 0 | Some e \<Rightarrow> f e) js)
      = sum_list (map (\<lambda>j. case umap_find h j of None \<Rightarrow> 0 | Some e \<Rightarrow> f e) js)"
    by (rule arg_cong)
  ultimately show ?case using umap_sum_erase [OF Cons.prems(1), of f i]
    by (simp only: list.map sum_list.Cons)
qed

lemma lru_charges_le_charges:
  assumes "lru_wf c" and "i \<notin> set (lc_lru c)" and "umap_find (lc_heap c) i = Some h"
  shows "lru_charges c + unat (h_charge h) \<le> charges c"
  using sum_charge_distinct [of "lc_heap c" "i # lc_lru c" "\<lambda>h. unat (h_charge h)"] assms
  by (simp add: lru_charges_def charges_def lru_wf_def heap_wf_def charge_of_def [abs_def])

section \<open>What the operations do\<close>

lemma Lookup_miss: "umap_find (lc_table c) key = None \<Longrightarrow> LRUCache_Lookup c key = Inr (None, c)"
  by (simp add: LRUCache_Lookup_def)

lemma Lookup_hit:
  assumes "lru_inv c" and "umap_find (lc_table c) key = Some i" and "\<And>h. umap_find (lc_heap c) i = Some h \<Longrightarrow> h_refs h \<noteq> - 1"
  shows "\<exists>h c'. umap_find (lc_heap c) i = Some h \<and> h_in_cache h \<and> h_key h = key
    \<and> LRUCache_Lookup c key = Inr (Some i, c') \<and> lru_inv c'
    \<and> lc_heap c' = umap_set (lc_heap c) i (h\<lparr> h_refs := h_refs h + 1 \<rparr>) \<and> lc_table c' = lc_table c
    \<and> lc_capacity c' = lc_capacity c \<and> lc_usage c' = lc_usage c \<and> lc_fresh c' = lc_fresh c"
proof -
  have wf: "lru_wf c" using assms(1) by (simp add: lru_inv_def)
  obtain h where h: "umap_find (lc_heap c) i = Some h" "h_in_cache h" "h_key h = key"
    using wf assms(2) by (auto simp: lru_wf_def table_wf_def)
  have over: "h_refs h + 1 \<noteq> 0" using assms(3) [OF h(1)] by (metis eq_neg_iff_add_eq_0)
  have pos: "0 < h_refs h" using wf h(1) by (auto simp: lru_wf_def heap_wf_def)
  have refs': "0 < h_refs h + 1" "h_refs h + 1 \<noteq> 1"
    using over pos by (auto simp: word_gt_0)
  have inlru: "i \<in> set (lc_lru c) \<longleftrightarrow> h_refs h = 1" using wf h by (simp add: lru_wf_def list_wf_def)
  have d: "distinct (lc_lru c)" using wf by (simp add: lru_wf_def heap_wf_def)
  define c1 where "c1 = (if h_refs h = 1 then c\<lparr> lc_lru := remove1 i (lc_lru c), lc_lru_usage := lc_lru_usage c - h_charge h \<rparr> else c)"
  define c' where "c' = set_handle i (h\<lparr> h_refs := h_refs h + 1 \<rparr>) c1"
  have run: "LRUCache_Lookup c key = Inr (Some i, c')"
    using assms(2) h inlru by (simp add: LRUCache_Lookup_def deref_def LRU_Remove_def c1_def c'_def)
  have fields: "lc_heap c' = umap_set (lc_heap c) i (h\<lparr> h_refs := h_refs h + 1 \<rparr>)" "lc_table c' = lc_table c"
    "lc_capacity c' = lc_capacity c" "lc_usage c' = lc_usage c" "lc_fresh c' = lc_fresh c"
    "lc_lru c' = remove1 i (lc_lru c)"
    using inlru by (auto simp: c'_def c1_def set_handle_def remove1_idem)
  have lru': "set (lc_lru c') = set (lc_lru c) - {i}" "distinct (lc_lru c')" "i \<notin> set (lc_lru c')"
    using d by (simp_all add: fields(6) set_remove1_eq)
  have "umap_wf (lc_heap c)" using wf by (simp add: lru_wf_def heap_wf_def)
  from charges_set [OF this fields(1)] have ch: "charges c' = charges c" using h(1) by (simp add: charge_of_def)
  have "lru_charges c' = sum_list (map (charge_of c) (lc_lru c'))"
    using lru'(3) fields(1) by (intro lru_charges_other [of i]) simp_all
  then have "unat (lc_lru_usage c') = lru_charges c'"
    using wf h(1) inlru sum_remove1 [of i "lc_lru c" "charge_of c"]
      unat_minus_le [OF lru_member_charge_le [OF wf _ h(1)]]
    by (auto simp: fields(6) c'_def c1_def set_handle_def lru_wf_def lru_charges_def charge_of_def remove1_idem)
  then have "lru_wf c'"
    using lru_wf_set_handle [OF wf h(1) fields(1,2,5)] refs' lru' wf ch fields(4)
    by (simp add: lru_wf_def)
  moreover have "lc_capacity c' < lc_usage c' \<longrightarrow> lc_lru c' = []"
    using assms(1) fields by (simp add: lru_inv_def)
  ultimately have "lru_inv c'" by (simp add: lru_inv_def)
  then show ?thesis using h run fields by blast
qed

text \<open>A client gives back a handle it holds; the cache drops an entry nobody holds when it is over capacity.\<close>

definition held :: "'v LRUHandle \<Rightarrow> bool" where
  "held h \<longleftrightarrow> (if h_in_cache h then 1 < h_refs h else 0 < h_refs h)"

definition released :: "'v LRUCache \<Rightarrow> 'v LRUHandle \<Rightarrow> bool" where
  "released c h \<longleftrightarrow> h_refs h = 1 \<or> h_in_cache h \<and> h_refs h = 2 \<and> lc_capacity c < lc_usage c"

lemma word_minus1_cases: "(r - 1 = 0) = (r = 1)" "(r - 1 = 1) = (r = (2 :: u32))"
  by (auto simp: diff_eq_eq)

lemma Release_drop:
  assumes "lru_inv c" and h: "umap_find (lc_heap c) i = Some h" and "held h" and "released c h"
  shows "\<exists>c'. LRUCache_Release c i = Inr c' \<and> lru_inv c' \<and> lc_heap c' = umap_erase (lc_heap c) i
    \<and> lc_table c' = (if h_in_cache h then umap_erase (lc_table c) (h_key h) else lc_table c)
    \<and> lc_capacity c' = lc_capacity c \<and> lc_usage c' \<le> lc_usage c \<and> lc_fresh c' = lc_fresh c"
proof -
  have wf: "lru_wf c" using assms(1) by (simp add: lru_inv_def)
  define c' where "c' = c\<lparr> lc_usage := lc_usage c - h_charge h, lc_heap := umap_erase (lc_heap c) i,
      lc_table := (if h_in_cache h then umap_erase (lc_table c) (h_key h) else lc_table c) \<rparr>"
  have over: "h_in_cache h \<Longrightarrow> lc_lru c = []"
    using assms by (auto simp: lru_inv_def released_def held_def)
  have run: "LRUCache_Release c i = Inr c'"
    using assms(3,4) h over
    by (auto simp: LRUCache_Release_def deref_def Unref_def Free_def Let_def c'_def held_def released_def word_gt_0)
  have le: "unat (h_charge h) \<le> unat (lc_usage c)" by (rule lru_charge_le [OF wf h])
  have notin: "i \<notin> set (lc_lru c)"
    using wf h assms(3) by (auto simp: lru_wf_def list_wf_def held_def)
  have lru: "lru_charges c' = lru_charges c"
    using notin by (subst lru_charges_other [of i c' c]) (simp_all add: c'_def lru_charges_def)
  have "lru_wf c'"
    using lru_wf_erase_handle [OF wf h, of c'] notin lru unat_minus_le [OF le] wf
      charges_erase [of c c' i] h
    by (simp add: c'_def lru_wf_def heap_wf_def charge_of_def)
  moreover have sub: "lc_usage c' \<le> lc_usage c"
    using unat_minus_le [OF le] by (simp add: c'_def word_le_nat_alt)
  then have "lc_capacity c' < lc_usage c' \<longrightarrow> lc_lru c' = []"
    using assms(1) by (auto simp: lru_inv_def c'_def)
  ultimately have "lru_inv c'" by (simp add: lru_inv_def)
  then show ?thesis using run sub by (auto simp: c'_def)
qed

lemma Release_keep:
  assumes "lru_inv c" and h: "umap_find (lc_heap c) i = Some h" and "held h" and "\<not> released c h"
  shows "\<exists>c'. LRUCache_Release c i = Inr c' \<and> lru_inv c'
    \<and> lc_heap c' = umap_set (lc_heap c) i (h\<lparr> h_refs := h_refs h - 1 \<rparr>)
    \<and> lc_table c' = lc_table c
    \<and> lc_capacity c' = lc_capacity c \<and> lc_usage c' = lc_usage c \<and> lc_fresh c' = lc_fresh c"
proof -
  have wf: "lru_wf c" using assms(1) by (simp add: lru_inv_def)
  have notin: "i \<notin> set (lc_lru c)"
    using wf h assms(3) by (auto simp: lru_wf_def list_wf_def held_def)
  let ?h = "h\<lparr> h_refs := h_refs h - 1 \<rparr>"
  define c' where "c' = (if h_in_cache h \<and> h_refs h = 2
      then c\<lparr> lc_lru := lc_lru c @ [i], lc_lru_usage := lc_lru_usage c + h_charge h, lc_heap := umap_set (lc_heap c) i ?h \<rparr>
      else c\<lparr> lc_heap := umap_set (lc_heap c) i ?h \<rparr>)"
  have pos: "0 < h_refs h" "h_refs h \<noteq> 1" using assms(3,4) by (auto simp: held_def released_def word_gt_0 split: if_splits)
  have run: "LRUCache_Release c i = Inr c'"
    using pos assms(4) h notin
    by (auto simp: LRUCache_Release_def deref_def Unref_def Let_def c'_def LRU_Append_def set_handle_def released_def word_minus1_cases)
  have fields: "lc_heap c' = umap_set (lc_heap c) i ?h" "lc_table c' = lc_table c" "lc_fresh c' = lc_fresh c"
    "lc_usage c' = lc_usage c" "lc_capacity c' = lc_capacity c"
    by (simp_all add: c'_def)
  have uwf: "umap_wf (lc_heap c)" using wf by (simp add: lru_wf_def heap_wf_def)
  have ch: "charges c' = charges c" using charges_set [OF uwf fields(1)] h by (simp add: charge_of_def)
  have same: "charge_of c' = charge_of c" using h by (auto simp: charge_of_def fields(1))
  have lru': "lc_lru c' = (if h_in_cache h \<and> h_refs h = 2 then lc_lru c @ [i] else lc_lru c)" by (simp add: c'_def)
  have sum: "lru_charges c' = (if h_in_cache h \<and> h_refs h = 2 then lru_charges c + unat (h_charge h) else lru_charges c)"
    using h by (simp add: lru_charges_def same lru' charge_of_def)
  have "h_in_cache h \<and> h_refs h = 2 \<Longrightarrow> lru_charges c + unat (h_charge h) \<le> charges c"
    using lru_charges_le_charges [OF wf notin h] .
  then have "unat (lc_lru_usage c') = lru_charges c'"
    using wf sum unsigned_less [of "lc_usage c", where ?'a = nat] unat_add_lem [of "lc_lru_usage c" "h_charge h"]
    by (auto simp: c'_def lru_wf_def)
  then have "lru_wf c'"
    using wf notin pos ch fields
    by (intro lru_wf_set_handle [OF wf h fields(1,2,3)]) (auto simp: c'_def lru_wf_def heap_wf_def word_minus1_cases word_gt_0)
  moreover have "lc_capacity c' < lc_usage c' \<longrightarrow> lc_lru c' = []"
    using assms(1,4) by (auto simp: lru_inv_def c'_def released_def)
  ultimately have "lru_inv c'" by (simp add: lru_inv_def)
  then show ?thesis using run fields by blast
qed

lemma evicted_held:
  assumes "lru_wf c" and "evicted c c'" and "umap_find (lc_heap c) i = Some h" and "held h"
  shows "umap_find (lc_heap c') i = Some h"
proof -
  have "i \<notin> set (lc_lru c)" using assms(1,3,4) by (auto simp: lru_wf_def list_wf_def held_def)
  then show ?thesis using assms(2,3) by (auto simp: evicted_def dest: in_set_takeD)
qed

lemma set_value_spec:
  assumes "lru_inv c" and h: "umap_find (lc_heap c) i = Some h"
  shows "\<exists>c'. set_value c i v = Inr c' \<and> lru_inv c' \<and> c' = set_handle i (h\<lparr> h_value := v \<rparr>) c"
proof -
  have wf: "lru_wf c" using assms(1) by (simp add: lru_inv_def)
  let ?c = "set_handle i (h\<lparr> h_value := v \<rparr>) c"
  have uwf: "umap_wf (lc_heap c)" and refs: "0 < h_refs h"
    using wf h by (auto simp: lru_wf_def heap_wf_def)
  have ch: "charges ?c = charges c" using charges_set [OF uwf, of ?c i "h\<lparr> h_value := v \<rparr>"] h by (simp add: set_handle_def charge_of_def)
  have "charge_of ?c = charge_of c" using h by (auto simp: charge_of_def set_handle_def)
  then have lr: "lru_charges ?c = lru_charges c" by (simp add: lru_charges_def set_handle_def)
  have "i \<in> set (lc_lru c) \<longleftrightarrow> h_in_cache h \<and> h_refs h = 1" using wf h by (simp add: lru_wf_def list_wf_def)
  then have "lru_wf ?c"
    using wf refs ch lr
    by (intro lru_wf_set_handle [OF wf h, of _ "h\<lparr> h_value := v \<rparr>"])
      (auto simp: set_handle_def lru_wf_def heap_wf_def)
  then have "lru_inv ?c" using assms(1) by (simp add: lru_inv_def set_handle_def)
  then show ?thesis using h by (simp add: set_value_def deref_def)
qed

lemma SetCapacity_spec:
  assumes "lru_inv c"
  shows "\<exists>c'. LRUCache_SetCapacity c cap = Inr c' \<and> lru_inv c' \<and> evicted (c\<lparr> lc_capacity := cap \<rparr>) c'"
proof -
  have "lru_wf (c\<lparr> lc_capacity := cap \<rparr>)"
    using assms by (simp add: lru_inv_def lru_wf_def heap_wf_def table_wf_def list_wf_def charges_def lru_charges_def charge_of_def [abs_def])
  from EvictFromLRU_spec [OF this, of "[]" 0] obtain c' del where
    "EvictFromLRU 0 (c\<lparr> lc_capacity := cap \<rparr>) [] = Inr (c', del)" "lru_wf c'" "Free_all del = Inr ()"
    "evicted (c\<lparr> lc_capacity := cap \<rparr>) c'" "lc_capacity c' < lc_usage c' \<longrightarrow> lc_lru c' = []" by auto
  then show ?thesis by (auto simp: LRUCache_SetCapacity_def lru_inv_def)
qed

lemma ChargeDelta_spec:
  assumes "lru_inv c" and h: "umap_find (lc_heap c) i = Some h" and "1 < h_refs h"
    and small: "charges c - unat (h_charge h) + unat (h_charge h + delta) < 2 ^ 64"
  shows "\<exists>c1 c'. ChargeDelta c i delta = Inr c' \<and> lru_inv c' \<and> evicted c c1 \<and> lru_wf c1
    \<and> c' = set_handle i (h\<lparr> h_charge := h_charge h + delta \<rparr>) c1\<lparr> lc_usage := lc_usage c1 + delta \<rparr>"
proof -
  have wf: "lru_wf c" using assms(1) by (simp add: lru_inv_def)
  from EvictFromLRU_spec [OF wf, of "[]" delta] obtain c1 del where ev:
    "EvictFromLRU delta c [] = Inr (c1, del)" "lru_wf c1" "Free_all del = Inr ()" "evicted c c1"
    "lc_capacity c1 < lc_usage c1 + delta \<longrightarrow> lc_lru c1 = []" by auto
  have refs: "0 < h_refs h" "h_refs h \<noteq> 1" using assms(3) by (auto simp: word_gt_0)
  have h1: "umap_find (lc_heap c1) i = Some h"
    using assms(3) refs by (intro evicted_held [OF wf ev(4) h]) (simp add: held_def)
  have notin: "i \<notin> set (lc_lru c1)"
    using ev(2) h1 refs(2) by (auto simp: lru_wf_def list_wf_def)
  let ?h = "h\<lparr> h_charge := h_charge h + delta \<rparr>"
  define c' where "c' = set_handle i ?h c1\<lparr> lc_usage := lc_usage c1 + delta \<rparr>"
  have heap': "lc_heap c' = umap_set (lc_heap c1) i ?h" by (simp add: c'_def set_handle_def)
  have uwf: "umap_wf (lc_heap c1)" using ev(2) by (simp add: lru_wf_def heap_wf_def)
  have ch: "charges c' + unat (h_charge h) = charges c1 + unat (h_charge h + delta)"
    using charges_set [OF uwf heap'] h1 by (simp add: charge_of_def)
  have le: "unat (h_charge h) \<le> charges c1" using charge_of_le [of c1 i] h1 by (simp add: charge_of_def)
  have small': "charges c' < 2 ^ 64"
    using ch small ev(4) le unfolding evicted_def by linarith
  have "of_nat (charges c' + unat (h_charge h)) = (of_nat (charges c1 + unat (h_charge h + delta)) :: u64)"
    using ch by simp
  moreover have "of_nat (charges c1) = lc_usage c1" using ev(2) unfolding lru_wf_def by (metis word_of_nat_eq_iff of_nat_unat ucast_id)
  ultimately have "of_nat (charges c') = lc_usage c1 + delta" by simp
  then have "unat (lc_usage c1 + delta) = charges c'" using small' unat_of_nat [of "charges c'", where ?'a = 64] by simp
  then have usage: "unat (lc_usage c') = charges c'" by (simp add: c'_def)
  have "lru_charges c' = lru_charges c1"
    using notin by (subst lru_charges_other [of i c' c1]) (simp_all add: c'_def set_handle_def lru_charges_def)
  then have "lru_wf c'"
    using ev(2) notin refs usage
    by (intro lru_wf_set_handle [OF ev(2) h1 heap'])
      (auto simp: c'_def set_handle_def lru_wf_def heap_wf_def)
  then have "lru_inv c'" using ev(5) by (simp add: lru_inv_def c'_def set_handle_def)
  moreover have "ChargeDelta c i delta = Inr c'"
    using ev(1,3) h1 assms(3) by (simp add: ChargeDelta_def deref_def Let_def c'_def set_handle_def)
  ultimately show ?thesis using ev(2,4) c'_def by blast
qed

text \<open>An entry leaves the table while a client still holds its handle.\<close>

lemma lru_wf_detach:
  assumes "lru_wf c" and h: "umap_find (lc_heap c) i = Some h" and "h_in_cache h" and "1 < h_refs h"
    and heap': "lc_heap c' = umap_set (lc_heap c) i (h\<lparr> h_refs := h_refs h - 1, h_in_cache := False \<rparr>)"
    and table': "lc_table c' = umap_erase (lc_table c) (h_key h)"
    and same: "lc_fresh c' = lc_fresh c" "lc_lru c' = lc_lru c" "lc_usage c' = lc_usage c" "lc_lru_usage c' = lc_lru_usage c"
  shows "lru_wf c'"
proof -
  have wf: "heap_wf c" "table_wf c" "list_wf c" using assms(1) by (simp_all add: lru_wf_def)
  have refs: "0 < h_refs h - 1" using assms(4) by (auto simp: word_gt_0)
  have notin: "i \<notin> set (lc_lru c)" using wf(3) h assms(4) by (auto simp: list_wf_def)
  have "heap_wf c'" using wf(1) h refs by (auto simp: heap_wf_def heap' table' same)
  moreover have "table_wf c'"
    unfolding table_wf_def
  proof (intro allI)
    fix k j
    have old: "umap_find (lc_table c) k = Some j \<longleftrightarrow>
        (\<exists>h. umap_find (lc_heap c) j = Some h \<and> h_in_cache h \<and> h_key h = k)"
      using wf(2) by (simp add: table_wf_def)
    have "umap_find (lc_heap c) j = Some h' \<Longrightarrow> h_in_cache h' \<Longrightarrow> h_key h' = h_key h \<Longrightarrow> j = i" for h'
      using wf(2) h assms(3) by (metis table_wf_def option.inject)
    then show "umap_find (lc_table c') k = Some j \<longleftrightarrow>
        (\<exists>h. umap_find (lc_heap c') j = Some h \<and> h_in_cache h \<and> h_key h = k)"
      using old h by (auto simp: heap' table')
  qed
  moreover have "list_wf c'" using wf(3) notin by (auto simp: list_wf_def same heap')
  moreover have "umap_wf (lc_heap c)" using wf(1) by (simp add: heap_wf_def)
  from charges_set [OF this heap'] have "charges c' = charges c" using h by (simp add: charge_of_def)
  moreover have "lru_charges c' = lru_charges c"
    using notin by (subst lru_charges_other [of i c' c]) (simp_all add: heap' same lru_charges_def)
  ultimately show ?thesis using assms(1) by (simp add: lru_wf_def same)
qed

text \<open>The entry at a key leaves the cache: what \<open>Erase\<close> does, and \<open>Insert\<close> with an entry it replaces.\<close>

definition dropped :: "nat \<Rightarrow> 'v LRUHandle \<Rightarrow> 'v LRUCache \<Rightarrow> 'v LRUCache" where
  "dropped i h c =
     (if h_refs h = 1
      then c\<lparr> lc_table := umap_erase (lc_table c) (h_key h), lc_heap := umap_erase (lc_heap c) i,
              lc_usage := lc_usage c - h_charge h, lc_lru := remove1 i (lc_lru c),
              lc_lru_usage := lc_lru_usage c - h_charge h \<rparr>
      else c\<lparr> lc_table := umap_erase (lc_table c) (h_key h),
              lc_heap := umap_set (lc_heap c) i (h\<lparr> h_refs := h_refs h - 1, h_in_cache := False \<rparr>) \<rparr>)"

lemma dropped_fields [simp]:
  "lc_capacity (dropped i h c) = lc_capacity c" "lc_fresh (dropped i h c) = lc_fresh c"
  "lc_table (dropped i h c) = umap_erase (lc_table c) (h_key h)"
  by (simp_all add: dropped_def)

lemma lru_wf_dropped:
  assumes "lru_wf c" and h: "umap_find (lc_heap c) i = Some h" and "h_in_cache h"
  shows "lru_wf (dropped i h c)"
proof (cases "h_refs h = 1")
  case True
  have d: "distinct (lc_lru c)" and wf: "list_wf c" using assms(1) by (simp_all add: lru_wf_def heap_wf_def)
  have mem: "i \<in> set (lc_lru c)" using wf h assms(3) True by (simp add: list_wf_def)
  let ?c = "dropped i h c"
  have "lru_charges ?c = sum_list (map (charge_of c) (lc_lru ?c))"
    using d True by (intro lru_charges_other [of i]) (simp_all add: dropped_def)
  then have "unat (lc_lru_usage ?c) = lru_charges ?c"
    using True h mem sum_remove1 [OF mem, of "charge_of c"] unat_minus_le [OF lru_member_charge_le [OF assms(1) mem h]] assms(1)
    by (simp add: dropped_def lru_wf_def lru_charges_def charge_of_def [of c i])
  then show ?thesis
    using True d assms(3) by (intro lru_wf_erase_handle [OF assms(1) h]) (simp_all add: dropped_def set_remove1_eq)
next
  case False
  have "0 < h_refs h" using assms(1) h by (auto simp: lru_wf_def heap_wf_def)
  then have "1 < h_refs h" using False by (simp add: word_less_nat_alt word_gt_0 unat_eq_0 nat_neq_iff)
      (metis One_nat_def Suc_lessI unat_1 word_unat_eq_iff)
  then show ?thesis
    using False by (intro lru_wf_detach [OF assms]) (simp_all add: dropped_def)
qed

lemma dropped_usage:
  assumes "lru_wf c" and h: "umap_find (lc_heap c) i = Some h"
  shows "lc_usage (dropped i h c) \<le> lc_usage c"
  using unat_minus_le [OF lru_charge_le [OF assms]] by (simp add: dropped_def word_le_nat_alt)

lemma Erase_spec:
  assumes "lru_inv c"
  shows "case umap_find (lc_table c) key of
           None \<Rightarrow> LRUCache_Erase c key = Inr c
         | Some i \<Rightarrow> \<exists>h. umap_find (lc_heap c) i = Some h \<and> h_in_cache h \<and> h_key h = key
             \<and> LRUCache_Erase c key = Inr (dropped i h c) \<and> lru_inv (dropped i h c)"
proof (cases "umap_find (lc_table c) key")
  case None
  then show ?thesis by (simp add: LRUCache_Erase_def)
next
  case (Some i)
  have wf: "lru_wf c" using assms by (simp add: lru_inv_def)
  obtain h where h: "umap_find (lc_heap c) i = Some h" "h_in_cache h" "h_key h = key"
    using wf Some by (auto simp: lru_wf_def table_wf_def)
  have refs: "0 < h_refs h" using wf h(1) by (auto simp: lru_wf_def heap_wf_def)
  have mem: "i \<in> set (lc_lru c) \<longleftrightarrow> h_refs h = 1" using wf h by (simp add: lru_wf_def list_wf_def)
  have "LRUCache_Erase c key = Inr (dropped i h c)"
    using Some h refs mem
    by (simp add: LRUCache_Erase_def deref_def Unref_def Free_def LRU_Remove_def set_handle_def dropped_def Let_def word_minus1_cases)
  moreover have "lc_capacity c < lc_usage (dropped i h c) \<longrightarrow> lc_lru (dropped i h c) = []"
    using assms dropped_usage [OF wf h(1)] by (auto simp: lru_inv_def dropped_def)
  then have "lru_inv (dropped i h c)"
    using lru_wf_dropped [OF wf h(1,2)] by (simp add: lru_inv_def)
  ultimately show ?thesis using Some h by simp
qed

definition without_key :: "slice \<Rightarrow> 'v LRUCache \<Rightarrow> 'v LRUCache" where
  "without_key key c =
     (case umap_find (lc_table c) key of
        None \<Rightarrow> c
      | Some j \<Rightarrow> (case umap_find (lc_heap c) j of None \<Rightarrow> c | Some h \<Rightarrow> dropped j h c))"

lemma lru_wf_without_key:
  assumes "lru_wf c"
  shows "lru_wf (without_key key c) \<and> umap_find (lc_table (without_key key c)) key = None
    \<and> lc_usage (without_key key c) \<le> lc_usage c \<and> (lc_lru c = [] \<longrightarrow> lc_lru (without_key key c) = [])"
proof (cases "umap_find (lc_table c) key")
  case (Some j)
  obtain h where "umap_find (lc_heap c) j = Some h" "h_in_cache h" "h_key h = key"
    using assms Some by (auto simp: lru_wf_def table_wf_def)
  then show ?thesis
    using Some lru_wf_dropped [OF assms] dropped_usage [OF assms]
    by (auto simp: without_key_def) (simp add: dropped_def)
qed (simp add: without_key_def assms)

lemma without_key_fields [simp]:
  "lc_capacity (without_key key c) = lc_capacity c" "lc_fresh (without_key key c) = lc_fresh c"
  by (simp_all add: without_key_def split: option.splits)

lemma lru_wf_fresh: "lru_wf c \<Longrightarrow> umap_find (lc_heap c) (lc_fresh c) = None"
  by (cases "umap_find (lc_heap c) (lc_fresh c)") (auto simp: lru_wf_def heap_wf_def)

text \<open>The rest of \<open>Insert\<close> after eviction: the state is that of the cache without the key, with the new entry added.\<close>

definition added :: "nat \<Rightarrow> 'v LRUHandle \<Rightarrow> 'v LRUCache \<Rightarrow> 'v LRUCache \<Rightarrow> bool" where
  "added i e c c' \<longleftrightarrow> (\<forall>j. umap_find (lc_heap c') j = (if j = i then Some e else umap_find (lc_heap c) j))
     \<and> (\<forall>k. umap_find (lc_table c') k = (if k = h_key e then Some i else umap_find (lc_table c) k))
     \<and> umap_wf (lc_heap c') \<and> umap_wf (lc_table c') \<and> charges c' = charges c + unat (h_charge e)
     \<and> lc_usage c' = lc_usage c + h_charge e \<and> lc_lru c' = lc_lru c \<and> lc_lru_usage c' = lc_lru_usage c
     \<and> lc_capacity c' = lc_capacity c \<and> lc_fresh c' = i + 1"

lemma Insert_replaces:
  assumes wf: "lru_wf c" and i: "i = lc_fresh c"
    and e: "e = \<lparr> h_key = key, h_value = val, h_charge = charge, h_refs = 2, h_in_cache = True \<rparr>"
    and c2: "c2 = c\<lparr> lc_table := umap_set (lc_table c) key i, lc_heap := umap_set (lc_heap c) i e,
                      lc_fresh := i + 1, lc_usage := lc_usage c + charge \<rparr>"
    and del: "Free_all del = Inr ()"
  shows "\<exists>c' del'.
     (case umap_find (lc_table c) key of
        None \<Rightarrow> Inr (c2, del)
      | Some j \<Rightarrow>
          andThen (deref c2 j) (\<lambda>o'.
          andThen (Unref (o'\<lparr> h_in_cache := False \<rparr>)) (\<lambda>(last_reference, o').
            if last_reference
            then andThen (LRU_Remove j o' (c2\<lparr> lc_usage := lc_usage c2 - h_charge o' \<rparr>)) (\<lambda>c.
                   Inr (c\<lparr> lc_heap := umap_erase (lc_heap c) j \<rparr>, del @ [o']))
            else Inr (set_handle j o' c2, del)))) = Inr (c', del')
     \<and> Free_all del' = Inr () \<and> added i e (without_key key c) c'"
proof (cases "umap_find (lc_table c) key")
  case None
  have uwf: "umap_wf (lc_heap c)" "umap_wf (lc_table c)" and new: "umap_find (lc_heap c) i = None"
    using wf i lru_wf_fresh [OF wf] by (simp_all add: lru_wf_def heap_wf_def)
  have "added i e c c2"
    using charges_set [OF uwf(1), of c2 i e] uwf new by (simp add: added_def c2 e charge_of_def)
  then show ?thesis using None del by (simp add: without_key_def)
next
  case (Some j)
  have uwf: "umap_wf (lc_heap c)" "umap_wf (lc_table c)" and new: "umap_find (lc_heap c) i = None"
    using wf i lru_wf_fresh [OF wf] by (simp_all add: lru_wf_def heap_wf_def)
  obtain h where h: "umap_find (lc_heap c) j = Some h" "h_in_cache h" "h_key h = key"
    using wf Some by (auto simp: lru_wf_def table_wf_def)
  have refs: "0 < h_refs h" and ji: "j \<noteq> i" using wf h(1) i by (auto simp: lru_wf_def heap_wf_def)
  have mem: "j \<in> set (lc_lru c) \<longleftrightarrow> h_refs h = 1" using wf h by (simp add: lru_wf_def list_wf_def)
  have sum2: "charges c2 = charges c + unat charge"
    using charges_set [OF uwf(1), of c2 i e] new by (simp add: c2 e charge_of_def)
  have w: "without_key key c = dropped j h c" using Some h by (simp add: without_key_def)
  have uwf2: "umap_wf (lc_heap c2)" using uwf by (simp add: c2)
  show ?thesis
  proof (cases "h_refs h = 1")
    case True
    let ?c = "c2\<lparr> lc_usage := lc_usage c2 - h_charge h, lc_lru := remove1 j (lc_lru c2),
        lc_lru_usage := lc_lru_usage c2 - h_charge h, lc_heap := umap_erase (lc_heap c2) j \<rparr>"
    have "charges ?c + unat (h_charge h) = charges (dropped j h c) + unat charge + unat (h_charge h)"
      using charges_erase [OF uwf2, of ?c j] charges_erase [OF uwf(1), of "dropped j h c" j] sum2 h(1) True ji
      by (simp add: charge_of_def c2 dropped_def)
    then have "added i e (dropped j h c) ?c"
      using uwf ji True h by (simp add: added_def c2 e dropped_def)
    then show ?thesis
      using Some h refs mem True ji del
      by (simp add: w c2 deref_def Unref_def LRU_Remove_def Free_def)
  next
    case False
    let ?h = "h\<lparr> h_refs := h_refs h - 1, h_in_cache := False \<rparr>"
    let ?c = "c2\<lparr> lc_heap := umap_set (lc_heap c2) j ?h \<rparr>"
    have swap: "h\<lparr> h_in_cache := False, h_refs := r \<rparr> = h\<lparr> h_refs := r, h_in_cache := False \<rparr>" for r by simp
    have "charges ?c = charges (dropped j h c) + unat charge"
      using charges_set [OF uwf2, of ?c j ?h] charges_set [OF uwf(1), of "dropped j h c" j ?h] sum2 h(1) False ji
      by (simp add: charge_of_def c2 dropped_def)
    then have "added i e (dropped j h c) ?c"
      using uwf ji False h by (simp add: added_def c2 e dropped_def)
    then show ?thesis
      using Some h refs mem False ji del
      by (simp add: w c2 deref_def Unref_def set_handle_def word_minus1_cases swap)
  qed
qed

lemma LRU_Insert_spec:
  assumes "lru_inv c" and small: "charges c + unat charge < 2 ^ 64"
    and e: "e = \<lparr> h_key = key, h_value = val, h_charge = charge, h_refs = 2, h_in_cache = True \<rparr>"
  shows "\<exists>c1 c'. LRUCache_Insert c key val charge = Inr (lc_fresh c, c') \<and> lru_inv c'
    \<and> evicted c c1 \<and> lru_wf c1 \<and> added (lc_fresh c) e (without_key key c1) c'"
proof -
  have wf: "lru_wf c" using assms(1) by (simp add: lru_inv_def)
  from EvictFromLRU_spec [OF wf, of "[]" charge] obtain c1 del where ev:
    "EvictFromLRU charge c [] = Inr (c1, del)" "lru_wf c1" "Free_all del = Inr ()" "evicted c c1"
    "lc_capacity c1 < lc_usage c1 + charge \<longrightarrow> lc_lru c1 = []" by auto
  let ?i = "lc_fresh c" and ?c0 = "without_key key c1"
  have fresh: "?i = lc_fresh c1" and le: "charges c1 \<le> charges c" using ev(4) by (simp_all add: evicted_def)
  from Insert_replaces [OF ev(2) fresh e refl ev(3)] obtain c' where run: "LRUCache_Insert c key val charge = Inr (?i, c')"
    and add: "added ?i e ?c0 c'"
    unfolding LRUCache_Insert_def Let_def e ev(1) andThen_simps prod.case by (auto simp del: andThen_Inr) 
  have c0: "lru_wf ?c0" "umap_find (lc_table ?c0) key = None" "lc_usage ?c0 \<le> lc_usage c1" "lc_lru c1 = [] \<longrightarrow> lc_lru ?c0 = []"
    using lru_wf_without_key [OF ev(2)] by blast+
  have us: "unat (lc_usage ?c0) = charges ?c0" "unat (lc_usage c1) = charges c1" using c0(1) ev(2) by (simp_all add: lru_wf_def)
  have no: "unat (lc_usage c1) + unat charge < 2 ^ 64" "unat (lc_usage ?c0) + unat charge < 2 ^ 64"
    using us small le c0(3) by (simp_all add: word_le_nat_alt)
  have unats: "unat (lc_usage ?c0 + charge) = unat (lc_usage ?c0) + unat charge"
    "unat (lc_usage c1 + charge) = unat (lc_usage c1) + unat charge"
    using no unat_add_lem [of "lc_usage c1" charge] unat_add_lem [of "lc_usage ?c0" charge] by simp_all
  have new: "umap_find (lc_heap ?c0) ?i = None"
    using lru_wf_fresh [OF c0(1)] fresh by simp
  have "lru_wf c'"
    using add us(1) unats(1) fresh c0(2) new
    by (intro lru_wf_add_handle [OF c0(1), of ?i e]) (auto simp: added_def e)
  moreover have "lc_usage ?c0 + charge \<le> lc_usage c1 + charge"
    using c0(3) unats by (simp add: word_le_nat_alt)
  then have "lc_capacity c' < lc_usage c' \<longrightarrow> lc_lru c' = []"
    using ev(5) c0(4) add by (auto simp: added_def e)
  ultimately show ?thesis using run ev(2,4) add by (auto simp: lru_inv_def)
qed

section \<open>The calls of a client\<close>

datatype 'v cache_call =
    CallLookup slice
  | CallRelease nat
  | CallInsert slice 'v u64
  | CallErase slice
  | CallSetCapacity u64
  | CallChargeDelta nat u64
  | CallSetValue nat 'v

fun run_call :: "'v LRUCache \<Rightarrow> 'v cache_call \<Rightarrow> failure + 'v LRUCache" where
  "run_call c (CallLookup key) = andThen (LRUCache_Lookup c key) (\<lambda>(_, c). Inr c)"
| "run_call c (CallRelease i) = LRUCache_Release c i"
| "run_call c (CallInsert key val charge) = andThen (LRUCache_Insert c key val charge) (\<lambda>(_, c). Inr c)"
| "run_call c (CallErase key) = LRUCache_Erase c key"
| "run_call c (CallSetCapacity cap) = LRUCache_SetCapacity c cap"
| "run_call c (CallChargeDelta i delta) = ChargeDelta c i delta"
| "run_call c (CallSetValue i v) = set_value c i v"

text \<open>
  The contract of a client: it releases and charges only handles it holds, and neither the
  reference counts nor the sum of the charges exceed their machine words.
\<close>

fun permitted :: "'v LRUCache \<Rightarrow> 'v cache_call \<Rightarrow> bool" where
  "permitted c (CallLookup key) =
     (case umap_find (lc_table c) key of
        None \<Rightarrow> True
      | Some i \<Rightarrow> (case umap_find (lc_heap c) i of None \<Rightarrow> False | Some h \<Rightarrow> h_refs h \<noteq> - 1))"
| "permitted c (CallRelease i) = (case umap_find (lc_heap c) i of None \<Rightarrow> False | Some h \<Rightarrow> held h)"
| "permitted c (CallInsert key val charge) = (charges c + unat charge < 2 ^ 64)"
| "permitted c (CallErase key) = True"
| "permitted c (CallSetCapacity cap) = True"
| "permitted c (CallChargeDelta i delta) =
     (case umap_find (lc_heap c) i of
        None \<Rightarrow> False
      | Some h \<Rightarrow> 1 < h_refs h \<and> charges c - unat (h_charge h) + unat (h_charge h + delta) < 2 ^ 64)"
| "permitted c (CallSetValue i v) = (umap_find (lc_heap c) i \<noteq> None)"

inductive lru_reach :: "'v LRUCache \<Rightarrow> bool" where
  start: "lru_reach (LRUCache_new cap)"
| call: "lru_reach c \<Longrightarrow> permitted c op \<Longrightarrow> run_call c op = Inr c' \<Longrightarrow> lru_reach c'"

text \<open>What a client sees: a map from keys to values that may lose entries by eviction.\<close>

definition cached :: "'v LRUCache \<Rightarrow> slice \<Rightarrow> 'v option" where
  "cached c k = (case umap_find (lc_table c) k of
     None \<Rightarrow> None | Some i \<Rightarrow> map_option h_value (umap_find (lc_heap c) i))"

fun map_call :: "'v LRUCache \<Rightarrow> 'v cache_call \<Rightarrow> (slice \<Rightarrow> 'v option) \<Rightarrow> (slice \<Rightarrow> 'v option)" where
  "map_call c (CallInsert key val charge) m = m(key := Some val)"
| "map_call c (CallErase key) m = m(key := None)"
| "map_call c (CallSetValue i v) m =
     (case umap_find (lc_heap c) i of
        None \<Rightarrow> m | Some h \<Rightarrow> if h_in_cache h then m(h_key h := Some v) else m)"
| "map_call c op m = m"

text \<open>The calls after which nothing has been lost.\<close>

fun keeps_all :: "'v cache_call \<Rightarrow> bool" where
  "keeps_all (CallLookup _) = True"
| "keeps_all (CallErase _) = True"
| "keeps_all (CallSetValue _ _) = True"
| "keeps_all _ = False"

lemma table_heap:
  "lru_wf c \<Longrightarrow> umap_find (lc_table c) k = Some i \<longleftrightarrow> (\<exists>h. umap_find (lc_heap c) i = Some h \<and> h_in_cache h \<and> h_key h = k)"
  by (simp add: lru_wf_def table_wf_def)

lemma cached_Some:
  assumes "lru_wf c"
  shows "cached c k = Some v \<longleftrightarrow>
     (\<exists>i h. umap_find (lc_heap c) i = Some h \<and> h_in_cache h \<and> h_key h = k \<and> h_value h = v)"
proof
  assume "cached c k = Some v"
  then obtain i where i: "umap_find (lc_table c) k = Some i" "map_option h_value (umap_find (lc_heap c) i) = Some v"
    by (auto simp: cached_def split: option.splits)
  then show "\<exists>i h. umap_find (lc_heap c) i = Some h \<and> h_in_cache h \<and> h_key h = k \<and> h_value h = v"
    using table_heap [OF assms, of k i] by (intro exI [of _ i]) auto
next
  assume "\<exists>i h. umap_find (lc_heap c) i = Some h \<and> h_in_cache h \<and> h_key h = k \<and> h_value h = v"
  then obtain i h where h: "umap_find (lc_heap c) i = Some h" "h_in_cache h" "h_key h = k" "h_value h = v" by blast
  then have "umap_find (lc_table c) k = Some i" using table_heap [OF assms, of k i] by blast
  then show "cached c k = Some v" using h by (simp add: cached_def)
qed

lemma evicted_heap: "evicted c c1 \<Longrightarrow> umap_find (lc_heap c1) i = Some h \<Longrightarrow> umap_find (lc_heap c) i = Some h"
  unfolding evicted_def by (metis option.distinct(1))

lemma cached_evicted:
  assumes "lru_wf c" and "lru_wf c1" and "evicted c c1"
  shows "cached c1 \<subseteq>\<^sub>m cached c"
  unfolding map_le_def
proof
  fix k assume "k \<in> dom (cached c1)"
  then obtain v where v: "cached c1 k = Some v" by blast
  then have "cached c k = Some v"
    using evicted_heap [OF assms(3)] by (auto simp: cached_Some [OF assms(1)] cached_Some [OF assms(2)])
  then show "cached c1 k = cached c k" using v by simp
qed

lemma table_of_handle:
  assumes "lru_wf c" and "umap_find (lc_heap c) i = Some h"
  shows "umap_find (lc_table c) k = Some i \<longleftrightarrow> h_in_cache h \<and> h_key h = k"
  using table_heap [OF assms(1), of k i] assms(2) by simp

lemma cached_set_handle:
  assumes "lru_wf c" and h: "umap_find (lc_heap c) i = Some h"
    and c': "lc_heap c' = umap_set (lc_heap c) i h'" "lc_table c' = lc_table c"
  shows "cached c' = (if h_in_cache h then (cached c)(h_key h := Some (h_value h')) else cached c)"
proof
  fix k
  show "cached c' k = (if h_in_cache h then (cached c)(h_key h := Some (h_value h')) else cached c) k"
    using table_of_handle [OF assms(1) h, of k] by (auto simp: cached_def c' split: option.splits)
qed

lemma cached_drop:
  assumes "lru_wf c" and h: "umap_find (lc_heap c) i = Some h"
    and heap': "\<And>j. j \<noteq> i \<Longrightarrow> umap_find (lc_heap c') j = umap_find (lc_heap c) j"
    and table': "lc_table c' = (if h_in_cache h then umap_erase (lc_table c) (h_key h) else lc_table c)"
  shows "cached c' = (if h_in_cache h then (cached c)(h_key h := None) else cached c)"
proof
  fix k
  show "cached c' k = (if h_in_cache h then (cached c)(h_key h := None) else cached c) k"
    using table_of_handle [OF assms(1) h, of k] heap'
    by (cases "umap_find (lc_table c) k"; cases "h_in_cache h") (auto simp: cached_def table')
qed

lemma cached_dropped:
  assumes "lru_wf c" and "umap_find (lc_heap c) i = Some h" and "h_in_cache h"
  shows "cached (dropped i h c) = (cached c)(h_key h := None)"
  using cached_drop [OF assms(1,2), of "dropped i h c"] assms(3) by (simp add: dropped_def)

lemma cached_added:
  assumes "lru_wf c" and "added i e c c'" and new: "umap_find (lc_heap c) i = None"
  shows "cached c' = (cached c)(h_key e := Some (h_value e))"
proof
  fix k
  have "umap_find (lc_table c) k \<noteq> Some i" using table_heap [OF assms(1), of k i] new by simp
  then show "cached c' k = ((cached c)(h_key e := Some (h_value e))) k"
    using assms(2) by (cases "umap_find (lc_table c) k") (auto simp: cached_def added_def)
qed

lemma cached_without_key:
  assumes "lru_wf c"
  shows "cached (without_key k c) = (cached c)(k := None)"
proof (cases "umap_find (lc_table c) k")
  case None
  then show ?thesis by (auto simp: without_key_def cached_def)
next
  case (Some i)
  then obtain h where "umap_find (lc_heap c) i = Some h" "h_in_cache h" "h_key h = k"
    using table_heap [OF assms] by blast
  then show ?thesis using Some cached_dropped [OF assms] by (simp add: without_key_def)
qed

text \<open>One call keeps the invariant and does to the map what the client expects, up to evicted entries.\<close>

definition call_ok :: "'v LRUCache \<Rightarrow> 'v cache_call \<Rightarrow> bool" where
  "call_ok c op \<longleftrightarrow> (\<exists>c'. run_call c op = Inr c' \<and> lru_inv c' \<and> cached c' \<subseteq>\<^sub>m map_call c op (cached c)
     \<and> (keeps_all op \<longrightarrow> cached c' = map_call c op (cached c))
     \<and> (case op of CallInsert key val charge \<Rightarrow> cached c' key = Some val | _ \<Rightarrow> True))"

lemma call_ok_Lookup:
  assumes "lru_inv c" and "permitted c (CallLookup key)"
  shows "call_ok c (CallLookup key)"
proof (cases "umap_find (lc_table c) key")
  case None
  then show ?thesis using assms by (simp add: call_ok_def Lookup_miss)
next
  case (Some i)
  have wf: "lru_wf c" using assms(1) by (simp add: lru_inv_def)
  have "h_refs h \<noteq> - 1" if "umap_find (lc_heap c) i = Some h" for h using assms(2) Some that by simp
  from Lookup_hit [OF assms(1) Some this] obtain h c' where c':
    "umap_find (lc_heap c) i = Some h" "h_in_cache h" "h_key h = key" "LRUCache_Lookup c key = Inr (Some i, c')" "lru_inv c'"
    "lc_heap c' = umap_set (lc_heap c) i (h\<lparr> h_refs := h_refs h + 1 \<rparr>)" "lc_table c' = lc_table c"
    by blast
  have "cached c key = Some (h_value h)" using Some c'(1) by (simp add: cached_def)
  then have "cached c' = cached c" using cached_set_handle [OF wf c'(1,6,7)] c'(2,3) by auto
  then show ?thesis using c'(4,5) by (simp add: call_ok_def)
qed

lemma call_ok_Release:
  assumes "lru_inv c" and "permitted c (CallRelease i)"
  shows "call_ok c (CallRelease i)"
proof -
  have wf: "lru_wf c" using assms(1) by (simp add: lru_inv_def)
  obtain h where h: "umap_find (lc_heap c) i = Some h" "held h" using assms(2) by (auto split: option.splits)
  have map: "h_in_cache h \<Longrightarrow> cached c (h_key h) = Some (h_value h)"
    using table_of_handle [OF wf h(1), of "h_key h"] h(1) by (simp add: cached_def)
  show ?thesis
  proof (cases "released c h")
    case True
    from Release_drop [OF assms(1) h True] obtain c' where c': "LRUCache_Release c i = Inr c'" "lru_inv c'"
      "lc_heap c' = umap_erase (lc_heap c) i"
      "lc_table c' = (if h_in_cache h then umap_erase (lc_table c) (h_key h) else lc_table c)" by blast
    then show ?thesis using cached_drop [OF wf h(1) _ c'(4)] by (simp add: call_ok_def map_le_def)
  next
    case False
    from Release_keep [OF assms(1) h False] obtain c' where c': "LRUCache_Release c i = Inr c'" "lru_inv c'"
      "lc_heap c' = umap_set (lc_heap c) i (h\<lparr> h_refs := h_refs h - 1 \<rparr>)" "lc_table c' = lc_table c" by blast
    then show ?thesis using cached_set_handle [OF wf h(1) c'(3,4)] map by (auto simp: call_ok_def map_le_def)
  qed
qed

lemma call_ok_Insert:
  assumes "lru_inv c" and "permitted c (CallInsert key val charge)"
  shows "call_ok c (CallInsert key val charge)"
proof -
  have wf: "lru_wf c" using assms(1) by (simp add: lru_inv_def)
  let ?e = "\<lparr> h_key = key, h_value = val, h_charge = charge, h_refs = 2, h_in_cache = True \<rparr>"
  from LRU_Insert_spec [OF assms(1) _ refl, of charge key val] assms(2) obtain c1 c' where c':
    "LRUCache_Insert c key val charge = Inr (lc_fresh c, c')" "lru_inv c'" "evicted c c1" "lru_wf c1"
    "added (lc_fresh c) ?e (without_key key c1) c'" by auto
  have w: "lru_wf (without_key key c1)" using lru_wf_without_key [OF c'(4)] by blast
  have new: "umap_find (lc_heap (without_key key c1)) (lc_fresh c) = None"
    using lru_wf_fresh [OF w] c'(3) by (simp add: evicted_def)
  have eq: "cached c' = (cached c1)(key := Some val)"
    using cached_added [OF w c'(5) new] cached_without_key [OF c'(4), of key] by simp
  have "cached c1 \<subseteq>\<^sub>m cached c" by (rule cached_evicted [OF wf c'(4,3)])
  then show ?thesis using c'(1,2) eq by (auto simp: call_ok_def map_le_def)
qed

lemma call_ok_Erase:
  assumes "lru_inv c"
  shows "call_ok c (CallErase key)"
proof (cases "umap_find (lc_table c) key")
  case None
  then have "cached c = (cached c)(key := None)" by (auto simp: cached_def)
  then show ?thesis using Erase_spec [OF assms, of key] None assms by (simp add: call_ok_def)
next
  case (Some i)
  have wf: "lru_wf c" using assms by (simp add: lru_inv_def)
  show ?thesis
    using Erase_spec [OF assms, of key] Some cached_dropped [OF wf] by (auto simp: call_ok_def)
qed

lemma call_ok_all:
  assumes "lru_inv c" and "permitted c op"
  shows "call_ok c op"
proof (cases op)
  case (CallSetCapacity cap)
  have wf: "lru_wf (c\<lparr> lc_capacity := cap \<rparr>)"
    using assms by (simp add: lru_inv_def lru_wf_def heap_wf_def table_wf_def list_wf_def charges_def lru_charges_def charge_of_def [abs_def])
  from SetCapacity_spec [OF assms(1), of cap] obtain c' where
    c': "LRUCache_SetCapacity c cap = Inr c'" "lru_inv c'" "evicted (c\<lparr> lc_capacity := cap \<rparr>) c'" by blast
  have "cached c' \<subseteq>\<^sub>m cached (c\<lparr> lc_capacity := cap \<rparr>)"
    using c'(2) by (intro cached_evicted [OF wf _ c'(3)]) (simp add: lru_inv_def)
  moreover have "cached (c\<lparr> lc_capacity := cap \<rparr>) = cached c" by (rule ext) (simp add: cached_def split: option.split)
  ultimately show ?thesis using c'(1,2) CallSetCapacity by (simp add: call_ok_def)
next
  case (CallChargeDelta i delta)
  have wf: "lru_wf c" using assms(1) by (simp add: lru_inv_def)
  obtain h where h: "umap_find (lc_heap c) i = Some h" "1 < h_refs h"
      "charges c - unat (h_charge h) + unat (h_charge h + delta) < 2 ^ 64"
    using assms(2) CallChargeDelta by (auto split: option.splits)
  from ChargeDelta_spec [OF assms(1) h] obtain c1 c' where c': "ChargeDelta c i delta = Inr c'" "lru_inv c'"
    "evicted c c1" "lru_wf c1"
    "c' = set_handle i (h\<lparr> h_charge := h_charge h + delta \<rparr>) c1\<lparr> lc_usage := lc_usage c1 + delta \<rparr>" by blast
  have "held h" using h(2) by (auto simp: held_def word_gt_0)
  from evicted_held [OF wf c'(3) h(1) this] have h1: "umap_find (lc_heap c1) i = Some h" .
  then have "h_in_cache h \<Longrightarrow> cached c1 (h_key h) = Some (h_value h)"
    using table_of_handle [OF c'(4) h1, of "h_key h"] by (simp add: cached_def)
  then have "cached c' = cached c1"
    using cached_set_handle [OF c'(4) h1, of c' "h\<lparr> h_charge := h_charge h + delta \<rparr>"] c'(5)
    by (auto simp: set_handle_def)
  then show ?thesis using cached_evicted [OF wf c'(4,3)] c'(1,2) CallChargeDelta by (simp add: call_ok_def)
next
  case (CallSetValue i v)
  have wf: "lru_wf c" using assms(1) by (simp add: lru_inv_def)
  obtain h where h: "umap_find (lc_heap c) i = Some h" using assms(2) CallSetValue by auto
  show ?thesis
    using set_value_spec [OF assms(1) h, of v] h CallSetValue
      cached_set_handle [OF wf h, of "set_handle i (h\<lparr> h_value := v \<rparr>) c" "h\<lparr> h_value := v \<rparr>"]
    by (auto simp: call_ok_def set_handle_def)
qed (use assms call_ok_Lookup call_ok_Release call_ok_Insert call_ok_Erase in auto)

lemma lru_reach_inv: "lru_reach c \<Longrightarrow> lru_inv c"
proof (induction rule: lru_reach.induct)
  case (call c op c')
  then show ?case using call_ok_all [of c op] by (auto simp: call_ok_def)
qed (rule lru_inv_new)

lemma lru_unheld:
  assumes "lru_wf c" and "\<forall>i h. umap_find (lc_heap c) i = Some h \<longrightarrow> \<not> held h"
    and h: "umap_find (lc_heap c) i = Some h"
  shows "i \<in> set (lc_lru c)"
proof -
  have pos: "0 < h_refs h" using assms(1) h by (auto simp: lru_wf_def heap_wf_def)
  then have "h_in_cache h" "\<not> 1 < h_refs h" using assms(2) h by (auto simp: held_def split: if_splits)
  moreover have "h_refs h = 1" using pos calculation(2) by (simp add: word_less_nat_alt word_unat_eq_iff)
  ultimately show ?thesis using assms(1) h by (simp add: lru_wf_def list_wf_def)
qed

lemma lru_unheld_capacity:
  assumes "lru_inv c" and "\<forall>i h. umap_find (lc_heap c) i = Some h \<longrightarrow> \<not> held h"
  shows "charges c \<le> unat (lc_capacity c) \<and> unat (lc_usage c) = charges c"
proof -
  have wf: "lru_wf c" using assms(1) by (simp add: lru_inv_def)
  have u: "unat (lc_usage c) = charges c" using wf by (simp add: lru_wf_def)
  have "\<not> lc_capacity c < lc_usage c"
  proof
    assume over: "lc_capacity c < lc_usage c"
    then have "lc_lru c = []" using assms(1) by (simp add: lru_inv_def)
    then have "umap_find (lc_heap c) i = None" for i
      using lru_unheld [OF wf assms(2)] by (cases "umap_find (lc_heap c) i") auto
    then have "lc_heap c = []" by (simp add: umap_empty_iff)
    then have "lc_usage c = 0" using u by (simp add: charges_def unat_eq_0)
    then show False using over by simp
  qed
  then show ?thesis using u by (simp add: word_less_nat_alt)
qed

lemma lru_unheld_pinned:
  assumes "lru_inv c" and "\<forall>i h. umap_find (lc_heap c) i = Some h \<longrightarrow> \<not> held h"
  shows "GetPinnedUsage c = Inr 0"
proof -
  have wf: "lru_wf c" using assms(1) by (simp add: lru_inv_def)
  have d: "distinct (lc_lru c)" "umap_wf (lc_heap c)" using wf by (simp_all add: lru_wf_def heap_wf_def)
  have "i \<in> set (lc_lru c)" if i: "i \<in> fst ` set (lc_heap c)" for i
  proof -
    obtain h where "umap_find (lc_heap c) i = Some h" using i umap_find_None by (metis option.exhaust)
    then show ?thesis using lru_unheld [OF wf assms(2)] by blast
  qed
  moreover have "i \<in> fst ` set (lc_heap c)" if "i \<in> set (lc_lru c)" for i
    using lru_member [OF wf that] umap_find_None [of "lc_heap c" i] by auto
  ultimately have "set (lc_lru c) = fst ` set (lc_heap c)" by blast
  from umap_sum_keys [OF d(2,1) this, of "\<lambda>h. unat (h_charge h)"]
  have "lru_charges c = charges c" by (simp add: lru_charges_def charges_def charge_of_def [abs_def])
  then have "lc_lru_usage c = lc_usage c" using wf by (simp add: lru_wf_def word_unat_eq_iff)
  then show ?thesis by (simp add: GetPinnedUsage_def)
qed

section \<open>Properties\<close>

text \<open>
  C22. The cache refines a map that may forget: from a new cache on, every call a client is allowed
  to make returns (no assertion of the code fails, no freed handle is touched), keeps the invariant
  on handles, table, LRU list and the two usage counters, and changes the visible map from keys to
  values as expected: afterwards the map is contained in the expected one, it is equal to it for the
  calls that evict nothing, and an inserted key is present with its value.
\<close>

theorem lru_cache_refines_lossy_map:
  assumes "lru_reach c" and "permitted c op"
  shows "\<exists>c'. run_call c op = Inr c' \<and> lru_reach c' \<and> lru_inv c'
    \<and> cached c' \<subseteq>\<^sub>m map_call c op (cached c)
    \<and> (keeps_all op \<longrightarrow> cached c' = map_call c op (cached c))
    \<and> (case op of CallInsert key val charge \<Rightarrow> cached c' key = Some val | _ \<Rightarrow> True)"
  using call_ok_all [OF lru_reach_inv [OF assms(1)] assms(2)] lru_reach.call [OF assms]
  unfolding call_ok_def by blast

lemmas cache_eval =
  LRUCache_new_def LRUCache_Insert_def LRUCache_Release_def LRUCache_Lookup_def
  EvictFromLRU.simps evict_one_def deref_def set_handle_def Unref_def Free_def LRU_Remove_def LRU_Append_def Let_def
  charges_def held_def umap_set_def umap_erase_def umap_sum_def

text \<open>A cache of capacity 10 after two insertions, the first released.\<close>

definition two_inserts :: "nat LRUCache" where
  "two_inserts = \<lparr> lc_capacity = 10, lc_usage = 9, lc_lru_usage = 6, lc_lru = [0], lc_table = [([1], 0), ([2], 1)],
     lc_heap = [(0, \<lparr> h_key = [1], h_value = 7, h_charge = 6, h_refs = 1, h_in_cache = True \<rparr>),
                (1, \<lparr> h_key = [2], h_value = 8, h_charge = 3, h_refs = 2, h_in_cache = True \<rparr>)], lc_fresh = 2 \<rparr>"

lemma two_inserts_reach: "lru_reach two_inserts"
proof -
  have "\<exists>c1 c2. run_call (LRUCache_new 10) (CallInsert [1] 7 6) = Inr c1 \<and> permitted (LRUCache_new 10 :: nat LRUCache) (CallInsert [1] 7 6)
      \<and> run_call c1 (CallRelease 0) = Inr c2 \<and> permitted c1 (CallRelease 0)
      \<and> run_call c2 (CallInsert [2] 8 3) = Inr two_inserts \<and> permitted c2 (CallInsert [2] 8 3)"
    by (simp add: two_inserts_def cache_eval)
  then show ?thesis using lru_reach.start [of 10] lru_reach.call by blast
qed

theorem lru_cache_refines_lossy_map_witness:
  "\<exists>c'. run_call two_inserts (CallInsert [3] 9 5) = Inr c' \<and> lru_reach c' \<and> lru_inv c' \<and> cached c' [3] = Some 9"
  using lru_cache_refines_lossy_map [OF two_inserts_reach, of "CallInsert [3] 9 5"]
  by (auto simp: two_inserts_def cache_eval)

text \<open>
  C23. The capacity holds whenever it can: in every reachable state in which no handle is held by a
  client, the charges of all entries together are within the capacity and \<open>GetUsage\<close> returns them,
  and \<open>GetPinnedUsage\<close> returns zero.
\<close>

theorem lru_cache_within_capacity:
  assumes "lru_reach c" and "\<forall>i h. umap_find (lc_heap c) i = Some h \<longrightarrow> \<not> held h"
  shows "charges c \<le> unat (lc_capacity c) \<and> unat (GetUsage c) = charges c \<and> GetPinnedUsage c = Inr 0"
  using lru_unheld_capacity [OF lru_reach_inv [OF assms(1)] assms(2)]
    lru_unheld_pinned [OF lru_reach_inv [OF assms(1)] assms(2)] by (simp add: GetUsage_def)

definition one_insert :: "nat LRUCache" where
  "one_insert = \<lparr> lc_capacity = 10, lc_usage = 6, lc_lru_usage = 6, lc_lru = [0], lc_table = [([1], 0)],
     lc_heap = [(0, \<lparr> h_key = [1], h_value = 7, h_charge = 6, h_refs = 1, h_in_cache = True \<rparr>)], lc_fresh = 1 \<rparr>"

theorem lru_cache_within_capacity_witness:
  "lru_reach one_insert \<and> charges one_insert = 6 \<and> charges one_insert \<le> unat (lc_capacity one_insert) \<and> GetPinnedUsage one_insert = Inr 0"
proof -
  have "\<exists>c1. run_call (LRUCache_new 10) (CallInsert [1] 7 6) = Inr c1 \<and> permitted (LRUCache_new 10 :: nat LRUCache) (CallInsert [1] 7 6)
      \<and> run_call c1 (CallRelease 0) = Inr one_insert \<and> permitted c1 (CallRelease 0)"
    by (simp add: one_insert_def cache_eval)
  then have reach: "lru_reach one_insert" using lru_reach.start [of 10] lru_reach.call by blast
  have "\<forall>i h. umap_find (lc_heap one_insert) i = Some h \<longrightarrow> \<not> held h"
    by (auto simp: one_insert_def held_def)
  from lru_cache_within_capacity [OF reach this] show ?thesis using reach
    by (simp add: one_insert_def charges_def umap_sum_def)
qed

end
