(* ===== verification/CacheSession.thy ===== *)
theory CacheSession
  imports LruCache
begin

section \<open>A client with one handle at a time\<close>

text \<open>
  A client of the LRU cache that holds at most one handle at a time: it finds or inserts an entry,
  changes its value and charge, and releases it again. \<open>pins c i k v\<close> is the state in between.
\<close>

definition unpinned :: "'v LRUCache \<Rightarrow> bool" where
  "unpinned c \<longleftrightarrow> (\<forall>i h. umap_find (lc_heap c) i = Some h \<longrightarrow> \<not> held h)"

definition pins :: "'v LRUCache \<Rightarrow> nat \<Rightarrow> slice \<Rightarrow> 'v \<Rightarrow> bool" where
  "pins c i k v \<longleftrightarrow> lru_inv c
     \<and> (\<exists>h. umap_find (lc_heap c) i = Some h \<and> h_in_cache h \<and> h_refs h = 2 \<and> h_key h = k \<and> h_value h = v)
     \<and> (\<forall>j h. j \<noteq> i \<longrightarrow> umap_find (lc_heap c) j = Some h \<longrightarrow> \<not> held h)"

lemma unpinned_new: "unpinned (LRUCache_new cap)"
  by (simp add: unpinned_def LRUCache_new_def)

lemma unpinned_refs:
  assumes "lru_inv c" and "unpinned c" and "umap_find (lc_heap c) i = Some h"
  shows "h_in_cache h \<and> h_refs h = 1"
proof -
  have wf: "lru_wf c" using assms(1) by (simp add: lru_inv_def)
  have "i \<in> set (lc_lru c)"
    by (rule lru_unheld [OF wf _ assms(3)]) (use assms(2) in \<open>simp add: unpinned_def\<close>)
  then show ?thesis using wf assms(3) by (auto simp: lru_wf_def list_wf_def)
qed

lemma unpinned_pinned_usage: "lru_inv c \<Longrightarrow> unpinned c \<Longrightarrow> GetPinnedUsage c = Inr 0"
  by (rule lru_unheld_pinned) (simp_all add: unpinned_def)

lemma unpinned_usage: "lru_inv c \<Longrightarrow> unpinned c \<Longrightarrow> lc_usage c \<le> lc_capacity c"
  using lru_unheld_capacity [of c] by (simp add: unpinned_def word_le_nat_alt)

lemma pins_inv: "pins c i k v \<Longrightarrow> lru_inv c"
  by (simp add: pins_def)

lemma pins_cached:
  assumes "pins c i k v"
  shows "cached c k = Some v" and "LRUCache_Value c i = Inr v"
proof -
  have "lru_wf c" using assms by (simp add: pins_def lru_inv_def)
  then show "cached c k = Some v" using assms by (auto simp: pins_def cached_Some)
  show "LRUCache_Value c i = Inr v" using assms by (auto simp: pins_def LRUCache_Value_def deref_def)
qed

lemma Lookup_pins:
  assumes "lru_inv c" and "unpinned c" and "cached c k = Some v"
  shows "\<exists>i c'. LRUCache_Lookup c k = Inr (Some i, c') \<and> pins c' i k v \<and> cached c' = cached c
    \<and> lc_capacity c' = lc_capacity c \<and> lc_usage c' = lc_usage c \<and> charges c' = charges c
    \<and> umap_find (lc_table c) k = Some i \<and> charge_of c' i = charge_of c i"
proof -
  have wf: "lru_wf c" using assms(1) by (simp add: lru_inv_def)
  obtain i where i: "umap_find (lc_table c) k = Some i" using assms(3) by (auto simp: cached_def split: option.splits)
  have "h_refs h \<noteq> - 1" if "umap_find (lc_heap c) i = Some h" for h
    using unpinned_refs [OF assms(1,2) that] by simp
  from Lookup_hit [OF assms(1) i this] obtain h c' where c':
    "umap_find (lc_heap c) i = Some h" "h_in_cache h" "h_key h = k" "LRUCache_Lookup c k = Inr (Some i, c')" "lru_inv c'"
    "lc_heap c' = umap_set (lc_heap c) i (h\<lparr> h_refs := h_refs h + 1 \<rparr>)" "lc_table c' = lc_table c"
    "lc_capacity c' = lc_capacity c" "lc_usage c' = lc_usage c" by blast
  have v: "h_value h = v" using assms(3) i c'(1) by (simp add: cached_def)
  have "h_refs h = 1" using unpinned_refs [OF assms(1,2) c'(1)] by simp
  then have "pins c' i k v" using c' v assms(2) by (auto simp: pins_def unpinned_def)
  moreover have "cached c' = cached c"
    using cached_set_handle [OF wf c'(1,6,7)] c'(2,3) assms(3) v by auto
  moreover have "umap_wf (lc_heap c)" using wf by (simp add: lru_wf_def heap_wf_def)
  from charges_set [OF this c'(6)] have "charges c' = charges c" using c'(1) by (simp add: charge_of_def)
  moreover have "charge_of c' i = charge_of c i" using c'(1,6) by (simp add: charge_of_def)
  ultimately show ?thesis using c' i by blast
qed

lemma cached_None:
  assumes "lru_wf c"
  shows "cached c k = None \<longleftrightarrow> umap_find (lc_table c) k = None"
proof (cases "umap_find (lc_table c) k")
  case (Some i)
  then obtain h where "umap_find (lc_heap c) i = Some h" using table_heap [OF assms, of k i] by blast
  then show ?thesis using Some by (simp add: cached_def)
qed (simp add: cached_def)

lemma Lookup_absent: "cached c k = None \<Longrightarrow> lru_inv c \<Longrightarrow> LRUCache_Lookup c k = Inr (None, c)"
  by (rule Lookup_miss) (simp add: cached_None lru_inv_def)

lemma evicted_unheld: "evicted c c1 \<Longrightarrow> unpinned c \<Longrightarrow> unpinned c1"
  using evicted_heap unfolding unpinned_def by blast

lemma without_key_absent: "cached c k = None \<Longrightarrow> lru_wf c \<Longrightarrow> without_key k c = c"
  by (simp add: cached_None without_key_def)

lemma Insert_pins:
  assumes "lru_inv c" and "unpinned c" and "cached c k = None" and small: "charges c + unat charge < 2 ^ 64"
  shows "\<exists>i c'. LRUCache_Insert c k v charge = Inr (i, c') \<and> pins c' i k v
    \<and> cached c' \<subseteq>\<^sub>m (cached c)(k := Some v) \<and> charges c' \<le> charges c + unat charge
    \<and> lc_capacity c' = lc_capacity c \<and> charge_of c' i = unat charge"
proof -
  have wf: "lru_wf c" using assms(1) by (simp add: lru_inv_def)
  let ?e = "\<lparr> h_key = k, h_value = v, h_charge = charge, h_refs = 2, h_in_cache = True \<rparr>"
  from LRU_Insert_spec [OF assms(1) small refl, of k v] obtain c1 c' where c':
    "LRUCache_Insert c k v charge = Inr (lc_fresh c, c')" "lru_inv c'" "evicted c c1" "lru_wf c1"
    "added (lc_fresh c) ?e (without_key k c1) c'" by blast
  have le: "cached c1 \<subseteq>\<^sub>m cached c" by (rule cached_evicted [OF wf c'(4,3)])
  then have none: "cached c1 k = None" using assms(3) by (cases "cached c1 k") (auto simp: map_le_def dom_def)
  note add = c'(5) [unfolded without_key_absent [OF none c'(4)]]
  have "umap_find (lc_heap c1) (lc_fresh c) = None"
    using lru_wf_fresh [OF c'(4)] c'(3) by (simp add: evicted_def)
  from cached_added [OF c'(4) add this] have "cached c' = (cached c1)(k := Some v)" by simp
  then have "cached c' \<subseteq>\<^sub>m (cached c)(k := Some v)" using le by (auto simp: map_le_def)
  moreover have "pins c' (lc_fresh c) k v"
    using evicted_unheld [OF c'(3) assms(2)] add c'(2) by (auto simp: pins_def added_def unpinned_def)
  moreover have "charges c' \<le> charges c + unat charge" "lc_capacity c' = lc_capacity c"
    "charge_of c' (lc_fresh c) = unat charge"
    using add c'(3) by (simp_all add: added_def evicted_def charge_of_def)
  ultimately show ?thesis using c'(1) by blast
qed

lemma set_value_pins:
  assumes "pins c i k v"
  shows "\<exists>c'. set_value c i v' = Inr c' \<and> pins c' i k v' \<and> cached c' = (cached c)(k := Some v')
    \<and> lc_capacity c' = lc_capacity c \<and> lc_usage c' = lc_usage c \<and> charges c' = charges c
    \<and> charge_of c' i = charge_of c i"
proof -
  have inv: "lru_inv c" and wf: "lru_wf c" using assms by (simp_all add: pins_def lru_inv_def)
  obtain h where h: "umap_find (lc_heap c) i = Some h" "h_in_cache h" "h_refs h = 2" "h_key h = k" "h_value h = v"
    using assms by (auto simp: pins_def)
  from set_value_spec [OF inv h(1), of v'] obtain c' where c': "set_value c i v' = Inr c'" "lru_inv c'"
    "c' = set_handle i (h\<lparr> h_value := v' \<rparr>) c" by blast
  have heap: "lc_heap c' = umap_set (lc_heap c) i (h\<lparr> h_value := v' \<rparr>)" "lc_table c' = lc_table c"
    by (simp_all add: c'(3) set_handle_def)
  have "umap_wf (lc_heap c)" using wf by (simp add: lru_wf_def heap_wf_def)
  from charges_set [OF this heap(1)] have "charges c' = charges c" using h(1) by (simp add: charge_of_def)
  moreover have "pins c' i k v'" using assms h c'(2) by (auto simp: pins_def heap(1))
  moreover have "cached c' = (cached c)(k := Some v')" using cached_set_handle [OF wf h(1) heap] h by simp
  moreover have "charge_of c' i = charge_of c i" using h(1) by (simp add: charge_of_def heap(1))
  ultimately show ?thesis using c'(1,3) by (simp add: set_handle_def)
qed

lemma ChargeDelta_pins:
  assumes "pins c i k v" and small: "charges c + unat delta < 2 ^ 64"
  shows "\<exists>c'. ChargeDelta c i delta = Inr c' \<and> pins c' i k v \<and> cached c' \<subseteq>\<^sub>m cached c
    \<and> lc_capacity c' = lc_capacity c \<and> charge_of c' i \<le> charge_of c i + unat delta"
proof -
  have inv: "lru_inv c" and wf: "lru_wf c" using assms by (simp_all add: pins_def lru_inv_def)
  obtain h where h: "umap_find (lc_heap c) i = Some h" "h_in_cache h" "h_refs h = 2" "h_key h = k" "h_value h = v"
    using assms by (auto simp: pins_def)
  have refs: "1 < h_refs h" using h(3) by simp
  have le: "unat (h_charge h) \<le> charges c" using charge_of_le [of c i] h(1) by (simp add: charge_of_def)
  have sum: "unat (h_charge h + delta) \<le> unat (h_charge h) + unat delta" by (simp add: unat_word_ariths)
  then have "charges c - unat (h_charge h) + unat (h_charge h + delta) < 2 ^ 64" using small le by linarith
  from ChargeDelta_spec [OF inv h(1) refs this] obtain c1 c' where c': "ChargeDelta c i delta = Inr c'" "lru_inv c'"
    "evicted c c1" "lru_wf c1"
    "c' = set_handle i (h\<lparr> h_charge := h_charge h + delta \<rparr>) c1\<lparr> lc_usage := lc_usage c1 + delta \<rparr>" by blast
  have h1: "umap_find (lc_heap c1) i = Some h"
    using evicted_held [OF wf c'(3) h(1)] h(2,3) by (simp add: held_def)
  have "cached c' = (cached c1)(k := Some v)"
    using cached_set_handle [OF c'(4) h1, of c' "h\<lparr> h_charge := h_charge h + delta \<rparr>"] c'(5) h
    by (simp add: set_handle_def)
  moreover have "cached c1 \<subseteq>\<^sub>m cached c" by (rule cached_evicted [OF wf c'(4,3)])
  moreover have "cached c k = Some v" using pins_cached [OF assms(1)] by simp
  ultimately have "cached c' \<subseteq>\<^sub>m cached c" by (auto simp: map_le_def)
  moreover have "\<not> held h'" if "j \<noteq> i" "umap_find (lc_heap c1) j = Some h'" for j h'
    using that evicted_heap [OF c'(3) that(2)] assms(1) by (auto simp: pins_def)
  then have "pins c' i k v" using c'(2,5) h by (auto simp: pins_def set_handle_def)
  moreover have "lc_capacity c' = lc_capacity c" using c'(3,5) by (simp add: set_handle_def evicted_def)
  moreover have "charge_of c' i \<le> charge_of c i + unat delta"
    using sum h(1) c'(5) by (simp add: charge_of_def set_handle_def)
  ultimately show ?thesis using c'(1) by blast
qed

lemma Release_pins:
  assumes "pins c i k v"
  shows "\<exists>c'. LRUCache_Release c i = Inr c' \<and> lru_inv c' \<and> unpinned c' \<and> cached c' \<subseteq>\<^sub>m cached c
    \<and> (lc_usage c \<le> lc_capacity c \<longrightarrow> cached c' = cached c) \<and> lc_capacity c' = lc_capacity c"
proof -
  have inv: "lru_inv c" and wf: "lru_wf c" using assms by (simp_all add: pins_def lru_inv_def)
  obtain h where h: "umap_find (lc_heap c) i = Some h" "h_in_cache h" "h_refs h = 2" "h_key h = k" "h_value h = v"
    using assms by (auto simp: pins_def)
  have others: "j \<noteq> i \<Longrightarrow> umap_find (lc_heap c) j = Some h' \<Longrightarrow> \<not> held h'" for j h'
    using assms by (simp add: pins_def)
  have held: "held h" using h(2,3) by (simp add: held_def)
  show ?thesis
  proof (cases "released c h")
    case True
    then have over: "\<not> lc_usage c \<le> lc_capacity c" using h(3) by (auto simp: released_def)
    from Release_drop [OF inv h(1) held True] obtain c' where c': "LRUCache_Release c i = Inr c'" "lru_inv c'"
      "lc_heap c' = umap_erase (lc_heap c) i" "lc_capacity c' = lc_capacity c"
      "lc_table c' = (if h_in_cache h then umap_erase (lc_table c) (h_key h) else lc_table c)" by blast
    have "unpinned c'" using others by (auto simp: unpinned_def c'(3))
    moreover have "cached c' \<subseteq>\<^sub>m cached c" using cached_drop [OF wf h(1) _ c'(5)] c'(3) by (simp add: map_le_def)
    ultimately show ?thesis using c' over by blast
  next
    case False
    from Release_keep [OF inv h(1) held False] obtain c' where c': "LRUCache_Release c i = Inr c'" "lru_inv c'"
      "lc_heap c' = umap_set (lc_heap c) i (h\<lparr> h_refs := h_refs h - 1 \<rparr>)" "lc_table c' = lc_table c"
      "lc_capacity c' = lc_capacity c" by blast
    have "unpinned c'" using others h(2,3) by (auto simp: unpinned_def c'(3) held_def)
    moreover have "cached c' = cached c"
      using cached_set_handle [OF wf h(1) c'(3,4)] pins_cached [OF assms] h by auto
    ultimately show ?thesis using c' by simp
  qed
qed

text \<open>A pinned entry that fits alone fits: everything else could be evicted.\<close>

lemma pins_fits:
  assumes "pins c i k v" and "charge_of c i \<le> unat (lc_capacity c)"
  shows "lc_usage c \<le> lc_capacity c"
proof (rule ccontr)
  assume "\<not> lc_usage c \<le> lc_capacity c"
  moreover have inv: "lru_inv c" and wf: "lru_wf c" using assms by (simp_all add: pins_def lru_inv_def)
  ultimately have lru: "lc_lru c = []" by (simp add: lru_inv_def)
  have none: "umap_find (lc_heap c) j = None" if "j \<noteq> i" for j
  proof (cases "umap_find (lc_heap c) j")
    case (Some h)
    then have "0 < h_refs h" "\<not> held h" using wf assms(1) that by (auto simp: lru_wf_def heap_wf_def pins_def)
    then have "h_in_cache h" "h_refs h = 1" by (auto simp: held_def word_less_nat_alt word_unat_eq_iff split: if_splits)
    then have "j \<in> set (lc_lru c)" using wf Some by (simp add: lru_wf_def list_wf_def)
    then show ?thesis using lru by simp
  qed simp
  have uwf: "umap_wf (lc_heap c)" using wf by (simp add: lru_wf_def heap_wf_def)
  have "umap_erase (lc_heap c) i = []" using none by (subst umap_empty_iff) simp
  then have "charges c = charge_of c i"
    using umap_sum_erase [OF uwf, of "\<lambda>h. unat (h_charge h)" i] by (simp add: charges_def charge_of_def)
  then have "unat (lc_usage c) = charge_of c i" using wf by (simp add: lru_wf_def)
  then show False using assms(2) \<open>\<not> lc_usage c \<le> lc_capacity c\<close> by (simp add: word_le_nat_alt)
qed

end
