(* ===== verification/Bloom.thy ===== *)
theory Bloom
  imports Coding
begin

text \<open>
  \<open>src/util/bloom.cc\<close>: the Bloom filter over the topics of a cache block. The product
  \<open>bits_per_key * 0.69\<close> is computed in floating point; its integer part is an argument of the
  constructor. The theorem is the one the cache relies on: a filter never denies a key it was
  built from.
\<close>

unbundle bit_operations_syntax

section \<open>Definitions\<close>

record BloomFilterPolicy =
  bits_per_key :: u64
  num_probes :: u64
  hash_func :: "slice \<Rightarrow> u32"

definition bloom_seed :: u32 where "bloom_seed = 0xbc9f1d34"
definition bloom_m :: u32 where "bloom_m = 0xc6a4a793"

function BloomHash_words :: "u32 \<Rightarrow> bytes \<Rightarrow> u32 \<times> bytes" where
  "BloomHash_words h data =
     (if length data < 4 then (h, data)
      else let w = DecodeFixed32 (take 4 data);
               h = h + w;
               h = h * bloom_m;
               h = h XOR drop_bit 16 h
           in BloomHash_words h (drop 4 data))"
  by pat_completeness auto

termination
  by (relation "measure (\<lambda>(_, data). length data)") auto

declare BloomHash_words.simps [simp del]

text \<open>The fall-through \<open>switch\<close>; a \<open>char\<close> is signed and is extended before it is shifted.\<close>

definition BloomHash_tail :: "u32 \<Rightarrow> bytes \<Rightarrow> u32" where
  "BloomHash_tail h data =
     (let h = (if length data = 3 then h + push_bit 16 (scast (data ! 2)) else h);
          h = (if 2 \<le> length data then h + push_bit 8 (scast (data ! 1)) else h)
      in if 1 \<le> length data
         then let h = h + scast (data ! 0);
                  h = h * bloom_m
              in h XOR drop_bit 24 h
         else h)"

definition BloomHash :: "slice \<Rightarrow> u32" where
  "BloomHash key =
     (let h = ucast (ucast bloom_seed XOR ((of_nat (length key) :: u64) * ucast bloom_m)) :: u32;
          (h, data) = BloomHash_words h key
      in BloomHash_tail h data)"

definition bloom_initialize :: "u64 \<Rightarrow> u64" where
  "bloom_initialize d =
     (let n = d;
          n = (if n < 1 then 1 else n)
      in if n > 30 then 30 else n)"

definition BloomFilterPolicy_new :: "u64 \<Rightarrow> u64 \<Rightarrow> BloomFilterPolicy" where
  "BloomFilterPolicy_new bits d =
     \<lparr> bits_per_key = bits, num_probes = bloom_initialize d, hash_func = BloomHash \<rparr>"

definition bloom_delta :: "u32 \<Rightarrow> u32" where
  "bloom_delta h = drop_bit 17 h OR push_bit 15 h"

definition bitpos :: "u64 \<Rightarrow> u32 \<Rightarrow> nat" where
  "bitpos bits h = unat (ucast ((ucast h :: u64) mod bits) :: u32)"

definition set_bloom_bit :: "bytes \<Rightarrow> nat \<Rightarrow> bytes" where
  "set_bloom_bit array pos = array[pos div 8 := array ! (pos div 8) OR push_bit (pos mod 8) 1]"

text \<open>The loop over the probes of one key: \<open>n\<close> probes are left.\<close>

fun set_probes :: "u64 \<Rightarrow> u32 \<Rightarrow> nat \<Rightarrow> u32 \<Rightarrow> bytes \<Rightarrow> bytes" where
  "set_probes bits delta 0 h array = array"
| "set_probes bits delta (Suc n) h array =
     set_probes bits delta n (h + delta) (set_bloom_bit array (bitpos bits h))"

definition CreateFilter :: "BloomFilterPolicy \<Rightarrow> slice list \<Rightarrow> bytes \<Rightarrow> bytes" where
  "CreateFilter policy keys dst =
     (let n = of_nat (length keys) :: u64;
          bits = n * bits_per_key policy;
          bits = (if bits < 64 then 64 else bits);
          bytes = (bits + 7) div 8;
          bits = bytes * 8;
          array = replicate (unat bytes) 0 @ [ucast (num_probes policy)]
      in dst @ foldl (\<lambda>array key.
           let h = hash_func policy key
           in set_probes bits (bloom_delta h) (unat (num_probes policy)) h array) array keys)"

definition test_bloom_bit :: "bytes \<Rightarrow> nat \<Rightarrow> bool" where
  "test_bloom_bit array pos \<longleftrightarrow> array ! (pos div 8) AND push_bit (pos mod 8) 1 \<noteq> 0"

fun test_probes :: "u64 \<Rightarrow> u32 \<Rightarrow> nat \<Rightarrow> u32 \<Rightarrow> bytes \<Rightarrow> bool" where
  "test_probes bits delta 0 h array = True"
| "test_probes bits delta (Suc n) h array =
     (if \<not> test_bloom_bit array (bitpos bits h) then False
      else test_probes bits delta n (h + delta) array)"

text \<open>The last byte is read as a \<open>char\<close> and widened: a negative one is a huge \<open>k\<close>.\<close>

definition KeyMayMatch :: "BloomFilterPolicy \<Rightarrow> slice \<Rightarrow> slice \<Rightarrow> bool" where
  "KeyMayMatch policy key bloom_filter =
     (let len = length bloom_filter
      in if len < 2 then False
         else let bits = (of_nat len - 1) * 8 :: u64;
                  k = scast (bloom_filter ! (len - 1)) :: u64
              in if k > 30 then True
                 else let h = hash_func policy key
                      in test_probes bits (bloom_delta h) (unat k) h bloom_filter)"

section \<open>Bits of the filter\<close>

lemma test_bloom_bit_iff: "test_bloom_bit array pos \<longleftrightarrow> bit (array ! (pos div 8)) (pos mod 8)"
  by (simp add: test_bloom_bit_def and_exp_eq_0_iff_not_bit flip: push_bit_eq_mult)

lemma length_set_bloom_bit [simp]: "length (set_bloom_bit array pos) = length array"
  by (simp add: set_bloom_bit_def)

lemma test_set_bloom_bit:
  assumes "pos div 8 < length array"
  shows "test_bloom_bit (set_bloom_bit array pos) p \<longleftrightarrow> p = pos \<or> test_bloom_bit array p"
proof (cases "p div 8 = pos div 8")
  case True
  have "p mod 8 = pos mod 8 \<longleftrightarrow> p = pos" using True by (metis div_mult_mod_eq)
  moreover have "bit (push_bit (pos mod 8) 1 :: u8) (p mod 8) \<longleftrightarrow> p mod 8 = pos mod 8"
    by (auto simp: bit_simps)
  ultimately show ?thesis
    using True assms by (auto simp: test_bloom_bit_iff set_bloom_bit_def bit_or_iff)
next
  case False
  then show ?thesis by (auto simp: test_bloom_bit_iff set_bloom_bit_def)
qed

lemma length_set_probes [simp]: "length (set_probes bits delta n h array) = length array"
  by (induction n arbitrary: h array) auto

lemma set_probes_mono:
  assumes "\<And>h. bitpos bits h div 8 < length array" and "test_bloom_bit array p"
  shows "test_bloom_bit (set_probes bits delta n h array) p"
  using assms
proof (induction n arbitrary: h array)
  case (Suc n)
  have "test_bloom_bit (set_bloom_bit array (bitpos bits h)) p"
    using test_set_bloom_bit [OF Suc(2)] Suc(3) by blast
  then show ?case using Suc by simp
qed simp

lemma set_probes_last:
  "i \<ge> length array - 1 \<Longrightarrow> (\<And>h. bitpos bits h div 8 < length array - 1) \<Longrightarrow>
     set_probes bits delta n h array ! i = array ! i"
proof (induction n arbitrary: h array)
  case (Suc n)
  have "bitpos bits h div 8 \<noteq> i" using Suc(2) Suc(3) [of h] by linarith
  moreover have "set_probes bits delta n (h + delta) (set_bloom_bit array (bitpos bits h)) ! i
      = set_bloom_bit array (bitpos bits h) ! i"
    using Suc(2,3) by (intro Suc(1)) simp_all
  ultimately show ?case by (simp add: set_bloom_bit_def)
qed simp

lemma test_probes_mono:
  assumes "\<And>p. test_bloom_bit a p \<Longrightarrow> test_bloom_bit b p" and "test_probes bits delta n h a"
  shows "test_probes bits delta n h b"
  using assms(2) by (induction n arbitrary: h) (auto intro: assms(1) split: if_splits)

lemma test_set_probes:
  assumes "\<And>h. bitpos bits h div 8 < length array"
  shows "test_probes bits delta n h (set_probes bits delta n h array)"
  using assms
proof (induction n arbitrary: h array)
  case (Suc n)
  have "test_bloom_bit (set_bloom_bit array (bitpos bits h)) (bitpos bits h)"
    using test_set_bloom_bit [OF Suc(2)] by blast
  then have "test_bloom_bit (set_probes bits delta n (h + delta) (set_bloom_bit array (bitpos bits h)))
      (bitpos bits h)"
    using Suc(2) by (intro set_probes_mono) simp_all
  moreover have "test_probes bits delta n (h + delta)
      (set_probes bits delta n (h + delta) (set_bloom_bit array (bitpos bits h)))"
    using Suc(2) by (intro Suc(1)) simp
  ultimately show ?case by simp
qed simp

definition add_key :: "BloomFilterPolicy \<Rightarrow> u64 \<Rightarrow> bytes \<Rightarrow> slice \<Rightarrow> bytes" where
  "add_key policy bits array key =
     (let h = hash_func policy key
      in set_probes bits (bloom_delta h) (unat (num_probes policy)) h array)"

lemma length_add_keys [simp]: "length (foldl (add_key policy bits) array keys) = length array"
  by (induction keys arbitrary: array) (simp_all add: add_key_def Let_def)

lemma add_keys_mono:
  assumes "\<And>h. bitpos bits h div 8 < length array" and "test_bloom_bit array p"
  shows "test_bloom_bit (foldl (add_key policy bits) array keys) p"
  using assms
  by (induction keys arbitrary: array) (simp_all add: add_key_def Let_def set_probes_mono)

lemma add_keys_last:
  "i \<ge> length array - 1 \<Longrightarrow> (\<And>h. bitpos bits h div 8 < length array - 1) \<Longrightarrow>
     foldl (add_key policy bits) array keys ! i = array ! i"
  by (induction keys arbitrary: array) (simp_all add: add_key_def Let_def set_probes_last)

lemma add_keys_test:
  assumes "\<And>h. bitpos bits h div 8 < length array" and "key \<in> set keys"
  shows "test_probes bits (bloom_delta (hash_func policy key)) (unat (num_probes policy))
    (hash_func policy key) (foldl (add_key policy bits) array keys)"
proof -
  obtain xs ys where keys: "keys = xs @ key # ys" using assms(2) by (meson split_list)
  let ?a = "foldl (add_key policy bits) array xs"
  have "test_probes bits (bloom_delta (hash_func policy key)) (unat (num_probes policy))
      (hash_func policy key) (add_key policy bits ?a key)"
    using assms(1) by (simp add: add_key_def Let_def test_set_probes)
  moreover have "test_bloom_bit (foldl (add_key policy bits) array keys) p"
    if "test_bloom_bit (add_key policy bits ?a key) p" for p
    using add_keys_mono [OF _ that] assms(1) by (simp add: keys add_key_def Let_def)
  ultimately show ?thesis by (rule test_probes_mono [rotated])
qed

lemma bitpos_less:
  assumes "bits = b * 8" and "0 < b" and "unat b < 2 ^ 60"
  shows "bitpos bits h div 8 < unat b"
proof -
  have bits: "unat bits = unat b * 8"
    using assms(1,3) by (simp add: unat_word_ariths)
  have pos: "0 < unat bits" using bits assms(2) by (simp add: word_less_nat_alt)
  have "unat (ucast ((ucast h :: u64) mod bits) :: u32) \<le> unat ((ucast h :: u64) mod bits)"
    by (simp add: unsigned_ucast_eq take_bit_eq_mod)
  also have "\<dots> < unat bits" using pos by (simp add: unat_mod)
  finally show ?thesis unfolding bitpos_def bits by (simp add: less_mult_imp_div_less)
qed

lemma KeyMayMatch_CreateFilter:
  assumes "key \<in> set keys" and "num_probes policy \<le> 30"
    and "length keys * unat (bits_per_key policy) < 2 ^ 60"
  shows "KeyMayMatch policy key (CreateFilter policy keys [])"
proof -
  define bits0 where "bits0 = (let b = of_nat (length keys) * bits_per_key policy in if b < 64 then 64 else b)"
  define b where "b = (bits0 + 7) div 8"
  have bits0: "unat bits0 < 2 ^ 60" "64 \<le> unat bits0"
  proof -
    have "unat (of_nat (length keys) * bits_per_key policy) \<le> length keys * unat (bits_per_key policy)"
      by (simp add: unat_word_ariths unat_of_nat mod_mult_left_eq)
    then show "unat bits0 < 2 ^ 60" "64 \<le> unat bits0"
      using assms(3) by (auto simp: bits0_def Let_def word_less_nat_alt)
  qed
  have b: "unat b = (unat bits0 + 7) div 8"
    using bits0(1) by (simp add: b_def unat_div unat_word_ariths)
  have b_bounds: "0 < b" "unat b < 2 ^ 60" "8 \<le> unat b"
    using bits0 b by (simp_all add: word_less_nat_alt)
  define array where "array = replicate (unat b) 0 @ [ucast (num_probes policy) :: u8]"
  define filter where "filter = foldl (add_key policy (b * 8)) array keys"
  have created: "CreateFilter policy keys [] = filter"
    by (simp add: CreateFilter_def Let_def filter_def array_def b_def bits0_def add_key_def [abs_def])
  have len: "length filter = unat b + 1" by (simp add: filter_def array_def)
  have pos: "bitpos (b * 8) h div 8 < unat b" for h
    using bitpos_less [OF refl b_bounds(1,2)] .
  have "filter ! unat b = array ! unat b"
    unfolding filter_def using pos by (intro add_keys_last) (simp_all add: array_def)
  then have last: "filter ! unat b = ucast (num_probes policy)" by (simp add: array_def nth_append)
  have probes: "(scast (ucast (num_probes policy) :: u8) :: u64) = num_probes policy"
  proof -
    have "unat (num_probes policy) < 2 ^ 5" using assms(2) by (simp add: word_le_nat_alt)
    then have "take_bit 5 (num_probes policy) = num_probes policy"
      by (intro word_unat_eq_iff [THEN iffD2]) (simp add: unsigned_take_bit_eq take_bit_nat_eq_self)
    then have small: "bit (num_probes policy) n \<longleftrightarrow> n < 5 \<and> bit (num_probes policy) n" for n
      by (metis bit_take_bit_iff)
    show ?thesis
    proof (rule bit_word_eqI)
      fix n assume "n < LENGTH(64)"
      then show "bit (scast (ucast (num_probes policy) :: u8) :: u64) n = bit (num_probes policy) n"
        using small [of n] small [of 7] by (auto simp: bit_simps min_def)
    qed
  qed
  have "(of_nat (length filter) - 1) * 8 = b * 8" using len by simp
  moreover have "test_probes (b * 8) (bloom_delta (hash_func policy key)) (unat (num_probes policy))
      (hash_func policy key) filter"
    unfolding filter_def using pos assms(1) by (intro add_keys_test) (simp_all add: array_def less_SucI)
  ultimately show ?thesis
    using len last probes assms(2) b_bounds(3) created by (simp add: KeyMayMatch_def Let_def)
qed

section \<open>Property\<close>

text \<open>
  C25. A Bloom filter has no false negatives: every key it was created from may match, whatever hash
  function, number of bits per key and number of probes (up to 30, the constructor's limit) are used.
\<close>

theorem bloom_no_false_negatives:
  assumes "key \<in> set keys" and "num_probes policy \<le> 30"
    and "length keys * unat (bits_per_key policy) < 2 ^ 60"
  shows "KeyMayMatch policy key (CreateFilter policy keys [])"
  using assms by (rule KeyMayMatch_CreateFilter)

theorem bloom_no_false_negatives_witness:
  "KeyMayMatch (BloomFilterPolicy_new 10 6) [1, 2, 3, 4, 5]
     (CreateFilter (BloomFilterPolicy_new 10 6) [[9], [1, 2, 3, 4, 5], []] [])"
  by (rule bloom_no_false_negatives) (simp_all add: BloomFilterPolicy_new_def bloom_initialize_def)

end
