(* ===== verification/DataCache.thy ===== *)
theory DataCache
  imports CacheSession Bloom MessageTypes
begin

text \<open>
  \<open>DataCache\<close> of \<open>src/controltower/data_cache.cc\<close>: blocks of consecutive messages of a log, kept in an
  LRU cache. What the machine fixes (byte order, sizes of objects) is a parameter \<open>platform\<close>. The callback
  of a visit is a function on the message (which it may change in place) and the
  variables it captures; it may fail an assertion. Reading a null pointer is undefined in C++;
  the model fails. The statistics counters are left out.
\<close>

unbundle bit_operations_syntax

record platform =
  cpu :: XXH_endianess
  sizeof_MessageData :: u64
  sizeof_CacheEntry :: u64
  sizeof_unique_ptr :: u64

record CacheEntry =
  ce_logid :: u64
  ce_seqno_block :: SequenceNumber
  bloom_bits :: bytes
  num_messages :: u16
  mcache :: "MessageData option list"
  hcache :: "u16 list"

record DataCache =
  bloom_bits_per_msg :: int
  block_size :: u64
  characteristics :: u32
  rs_cache :: "CacheEntry LRUCache option"
  bloom_filter :: "BloomFilterPolicy option"

section \<open>Blocks\<close>

definition AlignToBlockStart :: "u64 \<Rightarrow> SequenceNumber \<Rightarrow> SequenceNumber" where
  "AlignToBlockStart bs seqno = seqno AND NOT (bs - 1)"

definition memory_of :: "platform \<Rightarrow> u64 \<Rightarrow> bytes" where
  "memory_of p w = (case cpu p of XXH_littleEndian \<Rightarrow> EncodeFixed64 w | XXH_bigEndian \<Rightarrow> rev (EncodeFixed64 w))"

definition cache_key :: "platform \<Rightarrow> u64 \<Rightarrow> SequenceNumber \<Rightarrow> slice" where
  "cache_key p logid seqno = memory_of p logid @ memory_of p seqno"

definition GenerateKey :: "platform \<Rightarrow> u64 \<Rightarrow> u64 \<Rightarrow> SequenceNumber \<Rightarrow> failure + slice" where
  "GenerateKey p bs logid seqno =
     andThen (rs_assert (seqno = AlignToBlockStart bs seqno)) (\<lambda>_. Inr (cache_key p logid seqno))"

definition GetTotalSize :: "platform \<Rightarrow> MessageData \<Rightarrow> u64" where
  "GetTotalSize p m = sizeof_MessageData p + of_nat (length (data_topic_name m)) + of_nat (length (data_payload m))
     + of_nat (length (data_namespace_id m)) + of_nat (length (storage_slice m))"

definition CacheEntry_new :: "DataCache \<Rightarrow> u64 \<Rightarrow> SequenceNumber \<Rightarrow> failure + CacheEntry" where
  "CacheEntry_new dc logid seqno_block =
     andThen (rs_assert (block_size dc + 1 < 65536)) (\<lambda>_.
       Inr \<lparr> ce_logid = logid, ce_seqno_block = seqno_block, bloom_bits = [], num_messages = 0,
             mcache = replicate (unat (block_size dc)) None, hcache = replicate (unat (block_size dc)) 0 \<rparr>)"

definition HashTopic :: "platform \<Rightarrow> slice \<Rightarrow> u16" where
  "HashTopic p topic = ucast (XXH64 (cpu p) topic 0x3bd14b007c8b7733 mod 0xFFFF + 1)"

definition CacheEntry_StoreData ::
  "platform \<Rightarrow> DataCache \<Rightarrow> slice \<Rightarrow> u64 \<Rightarrow> MessageData \<Rightarrow> CacheEntry \<Rightarrow> failure + u64 \<times> CacheEntry"
where
  "CacheEntry_StoreData p dc topic log_id msg e =
     (let seqno = data_seqno msg;
          seqno_block = AlignToBlockStart (block_size dc) seqno;
          offset = unat (seqno - seqno_block)
      in andThen (rs_assert (ce_logid e = log_id)) (\<lambda>_.
         andThen (rs_assert (ce_seqno_block e = seqno_block)) (\<lambda>_.
           case mcache e ! offset of
             Some old \<Rightarrow>
               andThen (rs_assert (data_seqno old = data_seqno msg)) (\<lambda>_.
               andThen (rs_assert (GetTotalSize p old = GetTotalSize p msg)) (\<lambda>_.
               andThen (rs_assert (hcache e ! offset \<noteq> 0)) (\<lambda>_. Inr (0, e))))
           | None \<Rightarrow>
               andThen (rs_assert (hcache e ! offset = 0)) (\<lambda>_.
                 let e = e\<lparr> mcache := (mcache e)[offset := Some msg],
                            hcache := (hcache e)[offset := HashTopic p topic],
                            num_messages := num_messages e + 1 \<rparr>
                 in case bloom_filter dc of
                      Some policy \<Rightarrow>
                        if ucast (num_messages e) = block_size dc
                        then andThen (rs_assert (bloom_bits e = [])) (\<lambda>_.
                               case those (map (map_option data_topic_name) (take (unat (num_messages e)) (mcache e))) of
                                 None \<Rightarrow> Inl Assert_failed
                               | Some topics \<Rightarrow>
                                   Inr (GetTotalSize p msg, e\<lparr> bloom_bits := CreateFilter policy topics (bloom_bits e) \<rparr>))
                        else Inr (GetTotalSize p msg, e)
                    | None \<Rightarrow> Inr (GetTotalSize p msg, e)))))"

definition CacheEntry_Erase ::
  "platform \<Rightarrow> DataCache \<Rightarrow> u64 \<Rightarrow> SequenceNumber \<Rightarrow> CacheEntry \<Rightarrow> failure + u64 \<times> CacheEntry"
where
  "CacheEntry_Erase p dc log_id seqno e =
     (let seqno_block = AlignToBlockStart (block_size dc) seqno;
          offset = unat (seqno - seqno_block)
      in andThen (rs_assert (ce_logid e = log_id)) (\<lambda>_.
         andThen (rs_assert (ce_seqno_block e = seqno_block)) (\<lambda>_.
           case mcache e ! offset of
             None \<Rightarrow> andThen (rs_assert (hcache e ! offset = 0)) (\<lambda>_. Inr (0, e))
           | Some m \<Rightarrow> Inr (GetTotalSize p m, e\<lparr> mcache := (mcache e)[offset := None], hcache := (hcache e)[offset := 0] \<rparr>))))"

text \<open>The two loops of \<open>VisitEntry\<close>, over the slots from the current index on.\<close>

type_synonym 's visitor = "MessageData \<Rightarrow> 's \<Rightarrow> failure + bool \<times> MessageData \<times> 's"

fun visit_every ::
  "'s visitor \<Rightarrow> nat \<Rightarrow> MessageData option list \<Rightarrow> 's \<Rightarrow> failure + nat \<times> bool \<times> MessageData option list \<times> 's"
where
  "visit_every visit index [] s = Inr (index, False, [], s)"
| "visit_every visit index (None # ms) s = Inr (index, False, None # ms, s)"
| "visit_every visit index (Some m # ms) s =
     andThen (visit m s) (\<lambda>(go, m, s).
       if go
       then andThen (visit_every visit (index + 1) ms s) (\<lambda>(index, stop, ms, s). Inr (index, stop, Some m # ms, s))
       else Inr (index + 1, True, Some m # ms, s))"

fun visit_hashed ::
  "'s visitor \<Rightarrow> u16 \<Rightarrow> nat \<Rightarrow> (u16 \<times> MessageData option) list \<Rightarrow> 's \<Rightarrow>
     failure + nat \<times> bool \<times> MessageData option list \<times> 's"
where
  "visit_hashed visit hash index [] s = Inr (index, False, [], s)"
| "visit_hashed visit hash index ((h, m) # ms) s =
     (if h = 0 then Inr (index, False, m # map snd ms, s)
      else if h = hash
      then case m of
             None \<Rightarrow> Inl Assert_failed
           | Some m \<Rightarrow>
               andThen (visit m s) (\<lambda>(go, m, s).
                 if go
                 then andThen (visit_hashed visit hash (index + 1) ms s) (\<lambda>(index, stop, ms, s).
                        Inr (index, stop, Some m # ms, s))
                 else Inr (index + 1, True, Some m # map snd ms, s))
      else andThen (visit_hashed visit hash (index + 1) ms s) (\<lambda>(index, stop, ms, s). Inr (index, stop, m # ms, s)))"

definition VisitEntry ::
  "platform \<Rightarrow> DataCache \<Rightarrow> u64 \<Rightarrow> SequenceNumber \<Rightarrow> slice \<Rightarrow> 's visitor \<Rightarrow> CacheEntry \<Rightarrow> 's \<Rightarrow>
     failure + SequenceNumber \<times> bool \<times> CacheEntry \<times> 's"
where
  "VisitEntry p dc logid seqno lookup_topicname visit e s =
     (let seqno_block = AlignToBlockStart (block_size dc) seqno;
          offset = unat (seqno - seqno_block)
      in andThen (rs_assert (ce_logid e = logid)) (\<lambda>_.
         andThen (rs_assert (ce_seqno_block e = seqno_block)) (\<lambda>_.
           if (case bloom_filter dc of
                 None \<Rightarrow> False
               | Some policy \<Rightarrow> lookup_topicname \<noteq> [] \<and> bloom_bits e \<noteq> [] \<and> \<not> KeyMayMatch policy lookup_topicname (bloom_bits e))
           then Inr (seqno_block + block_size dc, False, e, s)
           else andThen
                  (if lookup_topicname = []
                   then visit_every visit offset (drop offset (mcache e)) s
                   else visit_hashed visit (HashTopic p lookup_topicname) offset
                          (drop offset (zip (hcache e) (mcache e))) s)
                  (\<lambda>(index, stop, ms, s).
                     Inr (seqno_block + of_nat index, stop, e\<lparr> mcache := take offset (mcache e) @ ms \<rparr>, s)))))"

definition CacheEntry_HasEntry :: "nat \<Rightarrow> CacheEntry \<Rightarrow> failure + bool" where
  "CacheEntry_HasEntry offset e =
     andThen (rs_assert ((mcache e ! offset = None) = (hcache e ! offset = 0))) (\<lambda>_. Inr (mcache e ! offset \<noteq> None))"

definition GetInitialCharge :: "platform \<Rightarrow> DataCache \<Rightarrow> u64" where
  "GetInitialCharge p dc = sizeof_CacheEntry p + block_size dc * sizeof_unique_ptr p + block_size dc * 2
     + block_size dc * word_of_int (bloom_bits_per_msg dc) div 8"

section \<open>The cache\<close>

definition StoreUserTopics :: u32 where "StoreUserTopics = 1"
definition StoreSystemTopics :: u32 where "StoreSystemTopics = 2"
definition StoreDataRecords :: u32 where "StoreDataRecords = 4"
definition StoreGapRecords :: u32 where "StoreGapRecords = 8"

definition IsReserved :: "slice \<Rightarrow> bool" where
  "IsReserved ns = (case ns of [] \<Rightarrow> False | c # _ \<Rightarrow> c = 0x5f)"

text \<open>\<open>probes\<close> is the product of the bits per message and 0.69, which the Bloom filter computes with doubles.\<close>

definition DataCache_new :: "u64 \<Rightarrow> bool \<Rightarrow> int \<Rightarrow> u64 \<Rightarrow> u64 \<Rightarrow> failure + DataCache" where
  "DataCache_new size_in_bytes system_namespaces bits bs probes =
     andThen (rs_assert (bs AND (bs - 1) = 0)) (\<lambda>_.
       let ch = StoreUserTopics OR StoreSystemTopics OR StoreDataRecords OR StoreGapRecords
       in Inr \<lparr> bloom_bits_per_msg = bits, block_size = bs,
                characteristics = (if system_namespaces then ch else ch AND NOT StoreSystemTopics),
                rs_cache = (if size_in_bytes \<noteq> 0 then Some (LRUCache_new size_in_bytes) else None),
                bloom_filter = (if 0 < bits then Some (BloomFilterPolicy_new (word_of_int bits) probes) else None) \<rparr>)"

definition ClearCache :: "DataCache \<Rightarrow> DataCache" where
  "ClearCache dc = (case rs_cache dc of None \<Rightarrow> dc | Some c \<Rightarrow> dc\<lparr> rs_cache := Some (LRUCache_new (lc_capacity c)) \<rparr>)"

definition DataCache_SetCapacity :: "DataCache \<Rightarrow> u64 \<Rightarrow> failure + DataCache" where
  "DataCache_SetCapacity dc capacity =
     (if capacity = 0 then Inr (dc\<lparr> rs_cache := None \<rparr>)
      else case rs_cache dc of
             Some c \<Rightarrow> andThen (LRUCache_SetCapacity c capacity) (\<lambda>c. Inr (dc\<lparr> rs_cache := Some c \<rparr>))
           | None \<Rightarrow> Inr (dc\<lparr> rs_cache := Some (LRUCache_new capacity) \<rparr>))"

definition DataCache_GetCapacity :: "DataCache \<Rightarrow> u64" where
  "DataCache_GetCapacity dc = (case rs_cache dc of None \<Rightarrow> 0 | Some c \<Rightarrow> lc_capacity c)"

definition DataCache_GetUsage :: "DataCache \<Rightarrow> u64" where
  "DataCache_GetUsage dc = (case rs_cache dc of None \<Rightarrow> 0 | Some c \<Rightarrow> GetUsage c)"

definition StoreGap :: "DataCache \<Rightarrow> u64 \<Rightarrow> SequenceNumber \<Rightarrow> SequenceNumber \<Rightarrow> DataCache" where
  "StoreGap dc log_id from' to' = dc"

definition cache_wanted :: "DataCache \<Rightarrow> slice \<Rightarrow> bool" where
  "cache_wanted dc namespace_id \<longleftrightarrow>
     characteristics dc AND StoreDataRecords \<noteq> 0
     \<and> (if IsReserved namespace_id then characteristics dc AND StoreSystemTopics \<noteq> 0
        else characteristics dc AND StoreUserTopics \<noteq> 0)"

text \<open>The entry of a block, found or created, with its handle.\<close>

definition acquire_entry ::
  "platform \<Rightarrow> DataCache \<Rightarrow> u64 \<Rightarrow> SequenceNumber \<Rightarrow> slice \<Rightarrow> CacheEntry LRUCache \<Rightarrow>
     failure + nat \<times> CacheEntry \<times> CacheEntry LRUCache"
where
  "acquire_entry p dc log_id seqno_block key c =
     andThen (LRUCache_Lookup c key) (\<lambda>(handle, c).
       case handle of
         Some i \<Rightarrow> andThen (LRUCache_Value c i) (\<lambda>entry. Inr (i, entry, c))
       | None \<Rightarrow>
           andThen (CacheEntry_new dc log_id seqno_block) (\<lambda>entry.
           andThen (LRUCache_Insert c key entry (GetInitialCharge p dc)) (\<lambda>(i, c). Inr (i, entry, c))))"

definition DataCache_StoreData ::
  "platform \<Rightarrow> DataCache \<Rightarrow> slice \<Rightarrow> slice \<Rightarrow> u64 \<Rightarrow> MessageData \<Rightarrow> failure + DataCache"
where
  "DataCache_StoreData p dc namespace_id topic log_id msg =
     (case rs_cache dc of
        None \<Rightarrow> Inr dc
      | Some c \<Rightarrow>
          andThen (GetPinnedUsage c) (\<lambda>pinned.
          andThen (rs_assert (pinned = 0)) (\<lambda>_.
            if \<not> cache_wanted dc namespace_id then Inr dc
            else let seqno_block = AlignToBlockStart (block_size dc) (data_seqno msg)
                 in andThen (GenerateKey p (block_size dc) log_id seqno_block) (\<lambda>key.
                    andThen (acquire_entry p dc log_id seqno_block key c) (\<lambda>(i, entry, c).
                    andThen (CacheEntry_StoreData p dc topic log_id msg entry) (\<lambda>(delta, entry).
                    andThen (set_value c i entry) (\<lambda>c.
                    andThen (ChargeDelta c i delta) (\<lambda>c.
                    andThen (LRUCache_Release c i) (\<lambda>c. Inr (dc\<lparr> rs_cache := Some c \<rparr>))))))))))"

definition DataCache_Erase :: "platform \<Rightarrow> DataCache \<Rightarrow> u64 \<Rightarrow> SequenceNumber \<Rightarrow> failure + DataCache" where
  "DataCache_Erase p dc log_id seqno =
     (case rs_cache dc of
        None \<Rightarrow> Inr dc
      | Some c \<Rightarrow>
          andThen (GenerateKey p (block_size dc) log_id (AlignToBlockStart (block_size dc) seqno)) (\<lambda>key.
          andThen (LRUCache_Lookup c key) (\<lambda>(handle, c).
            case handle of
              None \<Rightarrow> Inr (dc\<lparr> rs_cache := Some c \<rparr>)
            | Some i \<Rightarrow>
                andThen (LRUCache_Value c i) (\<lambda>entry.
                andThen (CacheEntry_Erase p dc log_id seqno entry) (\<lambda>(delta, entry).
                andThen (set_value c i entry) (\<lambda>c.
                andThen (ChargeDelta c i (- delta)) (\<lambda>c.
                andThen (LRUCache_Release c i) (\<lambda>c. Inr (dc\<lparr> rs_cache := Some c \<rparr>)))))))))"

text \<open>One round of the loop of \<open>VisitCache\<close>: \<open>None\<close> when the block is not in the cache.\<close>

definition visit_block ::
  "platform \<Rightarrow> DataCache \<Rightarrow> u64 \<Rightarrow> slice \<Rightarrow> 's visitor \<Rightarrow> SequenceNumber \<Rightarrow> SequenceNumber \<Rightarrow>
     CacheEntry LRUCache \<Rightarrow> 's \<Rightarrow> failure + (SequenceNumber \<times> bool) option \<times> CacheEntry LRUCache \<times> 's"
where
  "visit_block p dc logid topic visit start seqno_block c s =
     andThen (GenerateKey p (block_size dc) logid seqno_block) (\<lambda>key.
     andThen (LRUCache_Lookup c key) (\<lambda>(handle, c).
       case handle of
         None \<Rightarrow> Inr (None, c, s)
       | Some i \<Rightarrow>
           andThen (LRUCache_Value c i) (\<lambda>entry.
           andThen (VisitEntry p dc logid start topic visit entry s) (\<lambda>(next, stop, entry, s).
           andThen (set_value c i entry) (\<lambda>c.
           andThen (LRUCache_Release c i) (\<lambda>c. Inr (Some (next, stop), c, s)))))))"

partial_function (option) visit_loop ::
  "platform \<Rightarrow> DataCache \<Rightarrow> u64 \<Rightarrow> slice \<Rightarrow> 's visitor \<Rightarrow> SequenceNumber \<Rightarrow> SequenceNumber \<Rightarrow>
     CacheEntry LRUCache \<Rightarrow> 's \<Rightarrow> (failure + SequenceNumber \<times> CacheEntry LRUCache \<times> 's) option"
where
  "visit_loop p dc logid topic visit start seqno_block c s =
     (case visit_block p dc logid topic visit start seqno_block c s of
        Inl e \<Rightarrow> Some (Inl e)
      | Inr (None, c, s) \<Rightarrow> Some (Inr (start, c, s))
      | Inr (Some (next, stop), c, s) \<Rightarrow>
          if next < seqno_block + block_size dc \<or> stop then Some (Inr (next, c, s))
          else if next \<noteq> AlignToBlockStart (block_size dc) next then Some (Inl Assert_failed)
          else visit_loop p dc logid topic visit next next c s)"

declare visit_loop.simps [code]

definition VisitCache ::
  "platform \<Rightarrow> DataCache \<Rightarrow> u64 \<Rightarrow> SequenceNumber \<Rightarrow> slice \<Rightarrow> 's visitor \<Rightarrow> 's \<Rightarrow>
     (failure + SequenceNumber \<times> DataCache \<times> 's) option"
where
  "VisitCache p dc logid start topic visit s =
     (case rs_cache dc of
        None \<Rightarrow> Some (Inr (start, dc, s))
      | Some c \<Rightarrow>
          (case andThen (GetPinnedUsage c) (\<lambda>pinned. rs_assert (pinned = 0)) of
             Inl e \<Rightarrow> Some (Inl e)
           | Inr _ \<Rightarrow>
               map_option (\<lambda>r. andThen r (\<lambda>(next, c, s). Inr (next, dc\<lparr> rs_cache := Some c \<rparr>, s)))
                 (visit_loop p dc logid topic visit start (AlignToBlockStart (block_size dc) start) c s)))"

definition DataCache_HasEntry :: "platform \<Rightarrow> DataCache \<Rightarrow> u64 \<Rightarrow> SequenceNumber \<Rightarrow> failure + bool \<times> DataCache" where
  "DataCache_HasEntry p dc logid seqno =
     (case rs_cache dc of
        None \<Rightarrow> Inr (False, dc)
      | Some c \<Rightarrow>
          let seqno_block = AlignToBlockStart (block_size dc) seqno
          in andThen (GenerateKey p (block_size dc) logid seqno_block) (\<lambda>key.
             andThen (LRUCache_Lookup c key) (\<lambda>(handle, c).
               case handle of
                 None \<Rightarrow> Inr (False, dc\<lparr> rs_cache := Some c \<rparr>)
               | Some i \<Rightarrow>
                   andThen (LRUCache_Value c i) (\<lambda>entry.
                   andThen (CacheEntry_HasEntry (unat (seqno - seqno_block)) entry) (\<lambda>result.
                   andThen (LRUCache_Release c i) (\<lambda>c. Inr (result, dc\<lparr> rs_cache := Some c \<rparr>)))))))"

section \<open>Block arithmetic\<close>

definition good_block :: "u64 \<Rightarrow> bool" where
  "good_block bs \<longleftrightarrow> bs \<noteq> 0 \<and> bs AND (bs - 1) = 0 \<and> bs + 1 < 65536"

lemma align_pow2:
  assumes "k < 64"
  shows "unat (AlignToBlockStart (2 ^ k) n) = unat n - unat n mod 2 ^ k"
proof -
  have "(n AND NOT (2 ^ k - 1)) AND (n AND (2 ^ k - 1)) = 0"
    by (rule bit_word_eqI) (auto simp: bit_simps)
  moreover have "(n AND NOT (2 ^ k - 1)) OR (n AND (2 ^ k - 1)) = n"
    by (rule bit_word_eqI) (auto simp: bit_simps)
  ultimately have "(n AND NOT (2 ^ k - 1)) + (n AND (2 ^ k - 1)) = n"
    using word_plus_and_or [of "n AND NOT (2 ^ k - 1)" "n AND (2 ^ k - 1)"] by simp
  then have "AlignToBlockStart (2 ^ k) n = n - take_bit k n"
    unfolding AlignToBlockStart_def and_minus_1 by (simp add: algebra_simps)
  moreover have "unat (take_bit k n) \<le> unat n" by (simp add: unat_take_bit_mod)
  ultimately show ?thesis by (simp add: unat_minus_le unat_take_bit_mod)
qed

lemma good_block_pow2:
  assumes "good_block bs"
  obtains k where "k < 64" and "bs = 2 ^ k" and "unat bs = 2 ^ k" and "unat bs < 65536"
proof -
  have bs: "bs \<noteq> 0" "bs AND (bs - 1) = 0" "bs + 1 < 65536" using assms by (simp_all add: good_block_def)
  obtain k where k: "k < 64" "bs = 2 ^ k" using single_bit_pow2 [OF bs(1,2)] by auto
  have u: "unat bs = 2 ^ k" using k by (simp add: unat_pow2)
  have "unat bs < 65536"
  proof (cases "k = 63")
    case True
    then have "bs + 1 = 0x8000000000000001" using k by simp
    then show ?thesis using bs(3) by simp
  next
    case False
    then have "k \<le> 62" using k(1) by simp
    then have "(2::nat) ^ k \<le> 2 ^ 62" by (intro power_increasing) simp_all
    then have "unat (bs + 1) = unat bs + 1" using u by (simp add: unat_word_ariths)
    then show ?thesis using bs(3) by (simp add: word_less_nat_alt)
  qed
  then show ?thesis using that k u by blast
qed

lemma block_bounds: "good_block bs \<Longrightarrow> 0 < unat bs \<and> unat bs < 65536 \<and> unat bs dvd 2 ^ 64"
  using le_imp_power_dvd [of _ 64 "2 :: nat"] by (elim good_block_pow2) (simp del: power_numeral)

lemma align_unat: "good_block bs \<Longrightarrow> unat (AlignToBlockStart bs n) = unat n - unat n mod unat bs"
  by (elim good_block_pow2) (simp add: align_pow2)

lemma aligned_iff: "good_block bs \<Longrightarrow> AlignToBlockStart bs b = b \<longleftrightarrow> unat b mod unat bs = 0"
  using align_unat [of bs b] mod_less_eq_dividend [of "unat b" "unat bs"] unfolding word_unat_eq_iff by linarith

lemma align_idem: "good_block bs \<Longrightarrow> AlignToBlockStart bs (AlignToBlockStart bs n) = AlignToBlockStart bs n"
  by (simp add: aligned_iff align_unat minus_mod_eq_mult_div)

lemma align_offset: "good_block bs \<Longrightarrow> unat (n - AlignToBlockStart bs n) = unat n mod unat bs"
  by (simp add: align_unat unat_minus_le)

lemma aligned_room:
  assumes "good_block bs" and "AlignToBlockStart bs b = b"
  shows "unat b + unat bs \<le> 2 ^ 64"
proof -
  obtain q where q: "unat b = unat bs * q" using assms by (auto simp: aligned_iff)
  obtain r where r: "(2::nat) ^ 64 = unat bs * r" using block_bounds [OF assms(1)] by auto
  have "unat bs * q < unat bs * r" using q r unsigned_less [of b, where ?'a = nat] by simp
  then have "Suc q \<le> r" by simp
  then have "unat bs * Suc q \<le> unat bs * r" by (rule mult_le_mono2)
  then show ?thesis using q r by simp
qed

lemma align_add:
  assumes "good_block bs" and "AlignToBlockStart bs b = b" and "i < unat bs"
  shows "AlignToBlockStart bs (b + of_nat i) = b" and "unat (b + of_nat i) = unat b + i"
proof -
  note room = aligned_room [OF assms(1,2)]
  have i: "unat (of_nat i :: u64) = i" using assms(3) block_bounds [OF assms(1)] by (intro unat_of_nat_less) simp
  show u: "unat (b + of_nat i) = unat b + i"
    using unat_add_lem [of b "of_nat i"] room assms(3) by (simp add: i)
  have m: "unat b mod unat bs = 0" using assms(1,2) by (simp add: aligned_iff)
  have "(unat b + i) mod unat bs = i" using m assms(3) by (simp add: mod_add_left_eq [symmetric])
  then show "AlignToBlockStart bs (b + of_nat i) = b"
    by (simp add: word_unat_eq_iff align_unat [OF assms(1)] u)
qed

lemma next_block:
  assumes "good_block bs" and "AlignToBlockStart bs b = b" and "b + bs \<noteq> 0"
  shows "unat (b + bs) = unat b + unat bs" and "AlignToBlockStart bs (b + bs) = b + bs"
proof -
  have "unat (b + bs) = (unat b + unat bs) mod 2 ^ 64" by (simp add: unat_word_ariths)
  then have "unat b + unat bs \<noteq> 2 ^ 64" using assms(3) by (metis unat_eq_0 mod_self)
  then have lt: "unat b + unat bs < 2 ^ 64" using aligned_room [OF assms(1,2)] by simp
  then show u: "unat (b + bs) = unat b + unat bs" using unat_add_lem [of b bs] by simp
  have m: "unat b mod unat bs = 0" using assms(1,2) by (simp add: aligned_iff)
  show "AlignToBlockStart bs (b + bs) = b + bs" using m by (simp add: aligned_iff [OF assms(1)] u)
qed

lemma memory_of_inject: "memory_of p a = memory_of p b \<longleftrightarrow> a = b"
proof
  assume "memory_of p a = memory_of p b"
  then have "EncodeFixed64 a = EncodeFixed64 b" by (simp add: memory_of_def split: XXH_endianess.splits)
  then show "a = b" by (metis decode_encode64)
qed simp

lemma length_memory_of [simp]: "length (memory_of p a) = 8"
  by (simp add: memory_of_def split: XXH_endianess.split)

lemma cache_key_inject [simp]: "cache_key p l n = cache_key p l' n' \<longleftrightarrow> l = l' \<and> n = n'"
  by (simp add: cache_key_def memory_of_inject)

lemma HashTopic_nonzero [simp]: "HashTopic p t \<noteq> 0"
proof -
  let ?r = "XXH64 (cpu p) t 0x3bd14b007c8b7733 mod 0xFFFF"
  have "unat ?r < 65535" by (simp add: unat_mod_distrib)
  then have "unat (?r + 1) = unat ?r + 1" "unat (?r + 1) < 65536" by (simp_all add: unat_word_ariths)
  then have "unat (HashTopic p t) = unat ?r + 1"
    unfolding HashTopic_def unsigned_ucast_eq by (simp add: take_bit_eq_mod)
  then show ?thesis by (metis Suc_eq_plus1 nat.distinct(1) unat_0)
qed

section \<open>The invariant of a block\<close>

definition slot_ok :: "platform \<Rightarrow> SequenceNumber \<Rightarrow> nat \<Rightarrow> MessageData option \<Rightarrow> u16 \<Rightarrow> bool" where
  "slot_ok p b i m h \<longleftrightarrow> (case m of
     None \<Rightarrow> h = 0
   | Some m \<Rightarrow> data_seqno m = b + of_nat i \<and> h = HashTopic p (data_topic_name m))"

definition filter_ok :: "DataCache \<Rightarrow> CacheEntry \<Rightarrow> bool" where
  "filter_ok dc e \<longleftrightarrow> bloom_bits e = [] \<or>
     (\<exists>policy ms. bloom_filter dc = Some policy \<and> mcache e = map Some ms
        \<and> bloom_bits e = CreateFilter policy (map data_topic_name ms) [])"

definition entry_ok :: "platform \<Rightarrow> DataCache \<Rightarrow> u64 \<Rightarrow> SequenceNumber \<Rightarrow> CacheEntry \<Rightarrow> bool" where
  "entry_ok p dc log b e \<longleftrightarrow> ce_logid e = log \<and> ce_seqno_block e = b
     \<and> length (mcache e) = unat (block_size dc) \<and> length (hcache e) = unat (block_size dc)
     \<and> (\<forall>i < unat (block_size dc). slot_ok p b i (mcache e ! i) (hcache e ! i))
     \<and> unat (num_messages e) = length (filter (\<lambda>m. m \<noteq> None) (mcache e))
     \<and> filter_ok dc e"

lemma length_filter_update:
  "i < length xs \<Longrightarrow> \<not> P (xs ! i) \<Longrightarrow> P x \<Longrightarrow> length (filter P (xs[i := x])) = length (filter P xs) + 1"
proof (induction xs arbitrary: i)
  case (Cons y ys)
  then show ?case by (cases i) auto
qed simp

lemma length_filter_missing: "i < length xs \<Longrightarrow> \<not> P (xs ! i) \<Longrightarrow> length (filter P xs) < length xs"
  by (meson length_filter_less nth_mem)

lemma all_present:
  assumes "length (filter (\<lambda>m. m \<noteq> None) xs) = length xs"
  shows "\<exists>ms. xs = map Some ms"
proof -
  have "x \<noteq> None" if "x \<in> set xs" for x
    using that assms length_filter_less [of x xs "\<lambda>m. m \<noteq> None"] by fastforce
  then have "xs = map Some (map the xs)" by (simp add: map_idI)
  then show ?thesis by blast
qed

lemma those_map_Some: "those (map Some xs) = Some xs"
  by (induction xs) simp_all

lemma entry_ok_new:
  assumes "good_block (block_size dc)"
  shows "\<exists>e. CacheEntry_new dc log b = Inr e \<and> entry_ok p dc log b e \<and> mcache e = replicate (unat (block_size dc)) None"
  using assms by (auto simp: good_block_def CacheEntry_new_def entry_ok_def slot_ok_def filter_ok_def)

text \<open>A message stored in an empty slot, before the filter is made.\<close>

lemma store_slot_ok:
  assumes e: "entry_ok p dc log b e" and g: "good_block (block_size dc)" and lt: "off < unat (block_size dc)"
    and seq: "data_seqno m = b + of_nat off" and None: "mcache e ! off = None"
    and e1: "e1 = e\<lparr> mcache := (mcache e)[off := Some m], hcache := (hcache e)[off := HashTopic p (data_topic_name m)],
        num_messages := num_messages e + 1 \<rparr>"
  shows "entry_ok p dc log b e1" and "bloom_bits e = []" and "hcache e ! off = 0"
    and "unat (num_messages e1) = length (filter (\<lambda>m. m \<noteq> None) (mcache e1))"
proof -
  let ?B = "unat (block_size dc)"
  have B: "?B < 65536" using block_bounds [OF g] by auto
  have len: "length (mcache e) = ?B" "length (hcache e) = ?B" and id: "ce_logid e = log" "ce_seqno_block e = b"
    and slot: "i < ?B \<Longrightarrow> slot_ok p b i (mcache e ! i) (hcache e ! i)"
    and num: "unat (num_messages e) = length (filter (\<lambda>m. m \<noteq> None) (mcache e))" and fil: "filter_ok dc e" for i
    using e by (auto simp: entry_ok_def)
  show "hcache e ! off = 0" using slot [OF lt] None by (simp add: slot_ok_def)
  have few: "unat (num_messages e) < ?B" using length_filter_missing [of off "mcache e" "\<lambda>m. m \<noteq> None"] lt len None num by simp
  show bits: "bloom_bits e = []" using fil None lt len by (auto simp: filter_ok_def)
  show num1: "unat (num_messages e1) = length (filter (\<lambda>m. m \<noteq> None) (mcache e1))"
    using num few B length_filter_update [of off "mcache e" "\<lambda>m. m \<noteq> None" "Some m"] lt len None
    by (simp add: e1 unat_word_ariths)
  have slots1: "slot_ok p b i (mcache e1 ! i) (hcache e1 ! i)" if i: "i < ?B" for i
  proof (cases "i = off")
    case True
    then show ?thesis unfolding slot_ok_def using i len seq by (simp add: e1)
  next
    case False
    then show ?thesis using slot [OF i] by (simp add: e1)
  qed
  show "entry_ok p dc log b e1" using num1 slots1 len id bits by (simp add: entry_ok_def filter_ok_def e1)
qed

lemma CacheEntry_StoreData_spec:
  assumes e: "entry_ok p dc log (AlignToBlockStart (block_size dc) (data_seqno m)) e" and g: "good_block (block_size dc)"
    and off: "off = unat (data_seqno m - AlignToBlockStart (block_size dc) (data_seqno m))"
    and dup: "\<And>old. mcache e ! off = Some old \<Longrightarrow> GetTotalSize p old = GetTotalSize p m"
  shows "\<exists>delta e'. CacheEntry_StoreData p dc (data_topic_name m) log m e = Inr (delta, e')
    \<and> entry_ok p dc log (AlignToBlockStart (block_size dc) (data_seqno m)) e'
    \<and> unat delta \<le> unat (GetTotalSize p m)
    \<and> mcache e' = (case mcache e ! off of None \<Rightarrow> (mcache e)[off := Some m] | Some _ \<Rightarrow> mcache e)"
proof -
  let ?b = "AlignToBlockStart (block_size dc) (data_seqno m)" and ?B = "unat (block_size dc)"
  have "0 < ?B" using block_bounds [OF g] by auto
  then have lt: "off < ?B" by (simp add: off align_offset [OF g])
  have seq: "data_seqno m = ?b + of_nat off" by (simp add: off)
  have len: "length (mcache e) = ?B" "length (hcache e) = ?B" and id: "ce_logid e = log" "ce_seqno_block e = ?b"
    and slot: "i < ?B \<Longrightarrow> slot_ok p ?b i (mcache e ! i) (hcache e ! i)"
    for i using e by (auto simp: entry_ok_def)
  show ?thesis
  proof (cases "mcache e ! off")
    case (Some old)
    then have "data_seqno old = data_seqno m" "hcache e ! off \<noteq> 0" using slot [OF lt] seq by (simp_all add: slot_ok_def)
    then have "CacheEntry_StoreData p dc (data_topic_name m) log m e = Inr (0, e)"
      using Some id dup [OF Some] by (simp add: CacheEntry_StoreData_def Let_def off [symmetric])
    then show ?thesis using e Some by simp
  next
    case None
    define e1 where "e1 = e\<lparr> mcache := (mcache e)[off := Some m], hcache := (hcache e)[off := HashTopic p (data_topic_name m)],
        num_messages := num_messages e + 1 \<rparr>"
    note slot1 = store_slot_ok [OF e g lt seq None e1_def]
    note ok1 = slot1(1) and bits = slot1(2) and h = slot1(3) and num1 = slot1(4)
    have run: "CacheEntry_StoreData p dc (data_topic_name m) log m e =
       (case bloom_filter dc of
          Some policy \<Rightarrow>
            if ucast (num_messages e1) = block_size dc
            then (case those (map (map_option data_topic_name) (take (unat (num_messages e1)) (mcache e1))) of
                    None \<Rightarrow> Inl Assert_failed
                  | Some topics \<Rightarrow> Inr (GetTotalSize p m, e1\<lparr> bloom_bits := CreateFilter policy topics [] \<rparr>))
            else Inr (GetTotalSize p m, e1)
        | None \<Rightarrow> Inr (GetTotalSize p m, e1))"
      using None id h bits by (simp add: CacheEntry_StoreData_def Let_def off [symmetric] e1_def cong: option.case_cong if_cong)
    have m1: "mcache e1 = (mcache e)[off := Some m]" by (simp add: e1_def)
    show ?thesis
    proof (cases "\<exists>policy. bloom_filter dc = Some policy \<and> ucast (num_messages e1) = block_size dc")
      case True
      then obtain policy where pol: "bloom_filter dc = Some policy" "ucast (num_messages e1) = block_size dc" by blast
      have full: "unat (num_messages e1) = ?B" using arg_cong [OF pol(2), of unat] unsigned_less [of "num_messages e1", where ?'a = nat]
        by (simp add: unsigned_ucast_eq take_bit_eq_mod)
      have len1: "length (mcache e1) = ?B" using len by (simp add: e1_def)
      obtain ms where ms: "mcache e1 = map Some ms" using all_present [of "mcache e1"] num1 full len1 by auto
      let ?e = "e1\<lparr> bloom_bits := CreateFilter policy (map data_topic_name ms) [] \<rparr>"
      have "CacheEntry_StoreData p dc (data_topic_name m) log m e = Inr (GetTotalSize p m, ?e)"
        using run pol full len1 ms those_map_Some [of "map data_topic_name ms"] by (simp add: comp_def)
      moreover have "entry_ok p dc log ?b ?e" using ok1 pol(1) ms by (auto simp: entry_ok_def filter_ok_def)
      ultimately show ?thesis using None m1 by simp
    next
      case False
      then have "CacheEntry_StoreData p dc (data_topic_name m) log m e = Inr (GetTotalSize p m, e1)"
        using run by (auto split: option.splits)
      then show ?thesis using None m1 ok1 by simp
    qed
  qed
qed

section \<open>Visiting\<close>

text \<open>
  The reference for a visit: the callback sees the selected messages of a run of messages in order and
  may replace each, until it returns false. The result counts the messages passed.
\<close>

fun scan :: "'s visitor \<Rightarrow> (bool \<times> MessageData) list \<Rightarrow> 's \<Rightarrow> failure + nat \<times> bool \<times> MessageData list \<times> 's" where
  "scan visit [] s = Inr (0, False, [], s)"
| "scan visit ((sel, m) # ms) s =
     (if sel
      then andThen (visit m s) (\<lambda>(go, m', s).
             if go then andThen (scan visit ms s) (\<lambda>(n, stop, ms', s). Inr (n + 1, stop, m' # ms', s))
             else Inr (1, True, m' # map snd ms, s))
      else andThen (scan visit ms s) (\<lambda>(n, stop, ms', s). Inr (n + 1, stop, m # ms', s)))"

lemma andThen_assoc: "andThen (andThen m f) g = andThen m (\<lambda>x. andThen (f x) g)"
  by (simp add: andThen_def split: sum.split)

lemma andThen_case_prod: "andThen (case p of (a, b) \<Rightarrow> f a b) g = (case p of (a, b) \<Rightarrow> andThen (f a b) g)"
  by (simp split: prod.split)

lemma andThen_if: "andThen (if c then a else b) g = (if c then andThen a g else andThen b g)"
  by simp

lemmas andThen_push = andThen_assoc andThen_case_prod andThen_if

lemma scan_result:
  "scan visit ms s = Inr (n, stop, ms', s') \<Longrightarrow> length ms' = length ms \<and> n \<le> length ms \<and> (\<not> stop \<longrightarrow> n = length ms)"
  by (induction visit ms s arbitrary: n stop ms' s' rule: scan.induct)
    (auto simp: andThen_Inr split: if_splits prod.splits)

lemma scan_unselected: "scan visit (zip (replicate (length ms) False) ms) s = Inr (length ms, False, ms, s)"
  by (induction ms) simp_all

lemma scan_append:
  "scan visit (xs @ ys) s = andThen (scan visit xs s) (\<lambda>(n, stop, ms, s).
     if stop then Inr (n, True, ms @ map snd ys, s)
     else andThen (scan visit ys s) (\<lambda>(n', stop, ms', s). Inr (n + n', stop, ms @ ms', s)))"
proof (induction visit xs s rule: scan.induct)
  case (1 visit s)
  then show ?case by (cases "scan visit ys s") (auto split: prod.split)
next
  case (2 visit sel m ms s)
  show ?case
  proof (cases sel)
    case True
    then show ?thesis using 2
      by (cases "visit m s") (auto simp: andThen_push case_prod_unfold cong: if_cong split: sum.splits prod.splits)
  next
    case False
    then show ?thesis using 2 by (auto simp: andThen_push case_prod_unfold cong: if_cong)
  qed
qed

definition stops_at :: "MessageData option list \<Rightarrow> bool" where
  "stops_at rest \<longleftrightarrow> rest = [] \<or> hd rest = None"

lemma split_run: "\<exists>run rest. slots = map Some run @ rest \<and> stops_at rest"
proof (induction slots)
  case (Cons m ms)
  then obtain run rest where "ms = map Some run @ rest" "stops_at rest" by blast
  then show ?case
  proof (cases m)
    case None
    then show ?thesis by (intro exI [of _ "[]"] exI [of _ "m # ms"]) (simp add: stops_at_def)
  next
    case (Some x)
    then show ?thesis using \<open>ms = _\<close> \<open>stops_at rest\<close> by (intro exI [of _ "x # run"] exI [of _ rest]) simp
  qed
qed (simp add: stops_at_def)

lemma visit_every_scan:
  assumes "stops_at rest"
  shows "visit_every visit i (map Some run @ rest) s =
    andThen (scan visit (map (Pair True) run) s) (\<lambda>(n, stop, ms, s). Inr (i + n, stop, map Some ms @ rest, s))"
proof (induction run arbitrary: i s)
  case Nil
  show ?case
  proof (cases rest)
    case (Cons r rs)
    then have "r = None" using assms by (simp add: stops_at_def)
    then show ?thesis using Cons by simp
  qed simp
next
  case (Cons m run)
  have "map snd (map (Pair True) run) = run" by (simp add: comp_def)
  then show ?case
    using Cons by (cases "visit m s") (auto simp: andThen_push case_prod_unfold comp_def cong: if_cong)
qed

definition slot_hash :: "platform \<Rightarrow> u16 \<Rightarrow> MessageData option \<Rightarrow> bool" where
  "slot_hash p h m \<longleftrightarrow> h = (case m of None \<Rightarrow> 0 | Some m \<Rightarrow> HashTopic p (data_topic_name m))"

lemma visit_hashed_scan:
  assumes "list_all2 (slot_hash p) hs (map Some run @ rest)" and "stops_at rest"
  shows "visit_hashed visit hash i (zip hs (map Some run @ rest)) s =
    andThen (scan visit (map (\<lambda>m. (HashTopic p (data_topic_name m) = hash, m)) run) s)
      (\<lambda>(n, stop, ms, s). Inr (i + n, stop, map Some ms @ rest, s))"
  using assms(1)
proof (induction run arbitrary: i s hs)
  case Nil
  show ?case
  proof (cases rest)
    case (Cons r rs)
    then have "r = None" using assms(2) by (simp add: stops_at_def)
    then obtain hs' where "hs = 0 # hs'" "length hs' = length rs"
      using Nil Cons by (auto simp: slot_hash_def list_all2_Cons2 dest: list_all2_lengthD)
    then show ?thesis using Cons by simp
  qed (use Nil in simp)
next
  case (Cons m run)
  from Cons.prems obtain h hs' where h: "hs = h # hs'" "slot_hash p h (Some m)" "list_all2 (slot_hash p) hs' (map Some run @ rest)"
    by (auto simp: list_all2_Cons2)
  then have hs: "hs = HashTopic p (data_topic_name m) # hs'" "list_all2 (slot_hash p) hs' (map Some run @ rest)"
    by (simp_all add: slot_hash_def)
  have len: "length hs' = length (map Some run @ rest)" using hs(2) by (rule list_all2_lengthD)
  then have snds: "map snd (zip hs' (map Some run @ rest)) = map Some run @ rest" by (simp add: map_snd_zip)
  note IH = Cons.IH [OF hs(2)]
  show ?case
  proof (cases "HashTopic p (data_topic_name m) = hash")
    case True
    then show ?thesis
      using IH hs(1) snds
      by (cases "visit m s") (auto simp: andThen_push case_prod_unfold comp_def cong: if_cong)
  next
    case False
    then show ?thesis using IH hs(1) by (auto simp: andThen_push case_prod_unfold comp_def cong: if_cong)
  qed
qed

definition cache_wf :: "DataCache \<Rightarrow> bool" where
  "cache_wf dc \<longleftrightarrow> good_block (block_size dc)
     \<and> (\<forall>policy. bloom_filter dc = Some policy \<longrightarrow> num_probes policy \<le> 30 \<and> unat (bits_per_key policy) < 2 ^ 31)"

text \<open>A visit may leave out messages, but none of the topic asked for.\<close>

definition may_skip :: "slice \<Rightarrow> bool list \<Rightarrow> MessageData list \<Rightarrow> bool" where
  "may_skip t sel run \<longleftrightarrow> length sel = length run
     \<and> (\<forall>j < length run. \<not> sel ! j \<longrightarrow> t \<noteq> [] \<and> data_topic_name (run ! j) \<noteq> t)"

lemma may_skip_map: "(\<And>m. \<not> f m \<Longrightarrow> t \<noteq> [] \<and> data_topic_name m \<noteq> t) \<Longrightarrow> may_skip t (map f run) run"
  by (simp add: may_skip_def)

lemma zip_map_self: "zip (map f xs) xs = map (\<lambda>x. (f x, x)) xs"
  by (induction xs) simp_all

lemma may_skip_append: "may_skip t sel run \<Longrightarrow> may_skip t sel' run' \<Longrightarrow> may_skip t (sel @ sel') (run @ run')"
  by (auto simp: may_skip_def nth_append)

lemma entry_hashes:
  assumes "entry_ok p dc log b e"
  shows "list_all2 (slot_hash p) (hcache e) (mcache e)"
  using assms unfolding list_all2_conv_all_nth entry_ok_def slot_ok_def slot_hash_def
  by (auto split: option.splits)

lemma bloom_skips:
  assumes "cache_wf dc" and "entry_ok p dc log b e" and "bloom_filter dc = Some policy" and "bloom_bits e \<noteq> []"
    and "\<not> KeyMayMatch policy t (bloom_bits e)"
  shows "\<exists>ms. mcache e = map Some ms \<and> t \<notin> data_topic_name ` set ms"
proof -
  have fok: "filter_ok dc e" and len: "length (mcache e) = unat (block_size dc)"
    using assms(2) by (simp_all add: entry_ok_def)
  obtain ms where ms: "mcache e = map Some ms" "bloom_bits e = CreateFilter policy (map data_topic_name ms) []"
    using fok assms(3,4) by (auto simp: filter_ok_def)
  have small: "length ms * unat (bits_per_key policy) < 2 ^ 60"
  proof -
    have "length ms \<le> 2 ^ 16" "unat (bits_per_key policy) \<le> 2 ^ 31"
      using assms(1,3) len ms(1) block_bounds [of "block_size dc"] by (auto simp: cache_wf_def)
    then have "length ms * unat (bits_per_key policy) \<le> 2 ^ 16 * 2 ^ 31" by (rule mult_le_mono)
    then show ?thesis by simp
  qed
  have "t \<notin> set (map data_topic_name ms)"
    using KeyMayMatch_CreateFilter [of t "map data_topic_name ms" policy] small assms(1,3,5) ms(2)
    by (auto simp: cache_wf_def)
  then show ?thesis using ms(1) by auto
qed

lemma VisitEntry_spec:
  assumes wf: "cache_wf dc" and e: "entry_ok p dc log b e" and b: "AlignToBlockStart (block_size dc) start = b"
    and off: "off = unat (start - b)" and run: "drop off (mcache e) = map Some run @ rest" "stops_at rest"
  shows "\<exists>sel. may_skip t sel run \<and> VisitEntry p dc log start t visit e s =
    andThen (scan visit (zip sel run) s) (\<lambda>(n, stop, ms, s).
      Inr (start + of_nat n, stop, e\<lparr> mcache := take off (mcache e) @ map Some ms @ rest \<rparr>, s))"
proof -
  have id: "ce_logid e = log" "ce_seqno_block e = b" and len: "length (mcache e) = unat (block_size dc)"
    using e by (simp_all add: entry_ok_def)
  have seq: "b + of_nat off = start" by (simp add: off)
  have pos: "b + (of_nat off + of_nat n) = start + of_nat n" for n using seq by (simp add: add.assoc [symmetric])
  consider (skip) policy where "bloom_filter dc = Some policy" "t \<noteq> []" "bloom_bits e \<noteq> []" "\<not> KeyMayMatch policy t (bloom_bits e)"
    | (every) "t = []" | (hashed) "t \<noteq> []" "\<And>policy. bloom_filter dc = Some policy \<Longrightarrow> bloom_bits e \<noteq> [] \<Longrightarrow> KeyMayMatch policy t (bloom_bits e)"
    by blast
  then show ?thesis
  proof cases
    case skip
    obtain ms where ms: "mcache e = map Some ms" "t \<notin> data_topic_name ` set ms"
      using bloom_skips [OF wf e skip(1,3,4)] by blast
    have "map Some (drop off ms) = map Some run @ rest" using run(1) ms(1) by (simp add: drop_map)
    moreover have "rest = []"
    proof (rule ccontr)
      assume "rest \<noteq> []"
      then have "None \<in> set rest" using run(2) unfolding stops_at_def by (metis list.set_sel(1))
      then have "None \<in> set (map Some (drop off ms))" using calculation by simp
      then show False by auto
    qed
    ultimately have r: "run = drop off ms" "rest = []" by (auto simp: map_injective)
    have "off \<le> length ms" using len ms(1) b off wf block_bounds [of "block_size dc"]
      by (auto simp: cache_wf_def align_offset intro: less_imp_le)
    then have n: "off + length run = unat (block_size dc)" using r len ms(1) by simp
    have "may_skip t (replicate (length run) False) run"
      using skip(2) ms(2) r by (auto simp: may_skip_def dest: in_set_dropD nth_mem)
    moreover have "VisitEntry p dc log start t visit e s = Inr (b + block_size dc, False, e, s)"
      using skip id b by (simp add: VisitEntry_def Let_def)
    moreover have "b + block_size dc = start + of_nat (length run)" using pos [of "length run"] n by (simp flip: of_nat_add)
    moreover have "take off (mcache e) @ map Some run @ rest = mcache e"
      using run(1) append_take_drop_id [of off "mcache e"] by simp
    ultimately show ?thesis
      by (intro exI [of _ "replicate (length run) False"]) (simp add: scan_unselected)
  next
    case every
    have "VisitEntry p dc log start t visit e s = andThen (visit_every visit off (drop off (mcache e)) s)
        (\<lambda>(index, stop, ms, s). Inr (b + of_nat index, stop, e\<lparr> mcache := take off (mcache e) @ ms \<rparr>, s))"
      using every id b off by (simp add: VisitEntry_def Let_def split: option.split)
    moreover have "may_skip t (map (\<lambda>_. True) run) run" by (simp add: may_skip_def)
    ultimately show ?thesis
      unfolding run(1) visit_every_scan [OF run(2)]
      by (intro exI [of _ "map (\<lambda>_. True) run"]) (simp add: zip_map_self andThen_assoc case_prod_unfold pos)
  next
    case hashed
    let ?sel = "map (\<lambda>m. HashTopic p (data_topic_name m) = HashTopic p t) run"
    have "VisitEntry p dc log start t visit e s =
        andThen (visit_hashed visit (HashTopic p t) off (drop off (zip (hcache e) (mcache e))) s)
          (\<lambda>(index, stop, ms, s). Inr (b + of_nat index, stop, e\<lparr> mcache := take off (mcache e) @ ms \<rparr>, s))"
      using hashed id b off by (auto simp add: VisitEntry_def Let_def split: option.split)
    moreover
    have "list_all2 (slot_hash p) (drop off (hcache e)) (map Some run @ rest)"
      using entry_hashes [OF e] run(1) by (metis list_all2_dropI)
    note hashes = visit_hashed_scan [OF this run(2)]
    moreover have "may_skip t ?sel run" using hashed(1) by (intro may_skip_map) auto
    ultimately show ?thesis
      unfolding drop_zip run(1)
      by (intro exI [of _ ?sel]) (simp add: hashes zip_map_self andThen_assoc case_prod_unfold pos)
  qed
qed

section \<open>The invariant of the cache\<close>

definition block_ok :: "platform \<Rightarrow> DataCache \<Rightarrow> slice \<Rightarrow> CacheEntry \<Rightarrow> bool" where
  "block_ok p dc k e \<longleftrightarrow> (\<exists>log b. k = cache_key p log b \<and> AlignToBlockStart (block_size dc) b = b
     \<and> b + block_size dc \<noteq> 0 \<and> entry_ok p dc log b e)"

definition blocks_ok :: "platform \<Rightarrow> DataCache \<Rightarrow> CacheEntry LRUCache \<Rightarrow> bool" where
  "blocks_ok p dc c \<longleftrightarrow> lru_inv c \<and> unpinned c \<and> (\<forall>k e. cached c k = Some e \<longrightarrow> block_ok p dc k e)"

definition dc_inv :: "platform \<Rightarrow> DataCache \<Rightarrow> bool" where
  "dc_inv p dc \<longleftrightarrow> cache_wf dc \<and> (\<forall>c. rs_cache dc = Some c \<longrightarrow> blocks_ok p dc c)"

definition block_content :: "platform \<Rightarrow> DataCache \<Rightarrow> CacheEntry LRUCache \<Rightarrow> u64 \<Rightarrow> SequenceNumber \<Rightarrow> MessageData option" where
  "block_content p dc c log n =
     (case cached c (cache_key p log (AlignToBlockStart (block_size dc) n)) of
        None \<Rightarrow> None
      | Some e \<Rightarrow> mcache e ! unat (n - AlignToBlockStart (block_size dc) n))"

text \<open>What a client can read: the message of a log at a sequence number.\<close>

definition content :: "platform \<Rightarrow> DataCache \<Rightarrow> u64 \<Rightarrow> SequenceNumber \<Rightarrow> MessageData option" where
  "content p dc log n = (case rs_cache dc of None \<Rightarrow> None | Some c \<Rightarrow> block_content p dc c log n)"

definition block_charge :: "platform \<Rightarrow> DataCache \<Rightarrow> CacheEntry LRUCache \<Rightarrow> slice \<Rightarrow> nat" where
  "block_charge p dc c key =
     (case umap_find (lc_table c) key of None \<Rightarrow> unat (GetInitialCharge p dc) | Some i \<Rightarrow> charge_of c i)"

lemma block_ok_key:
  assumes "block_ok p dc (cache_key p log b) e"
  shows "entry_ok p dc log b e" and "b + block_size dc \<noteq> 0" and "AlignToBlockStart (block_size dc) b = b"
  using assms by (auto simp: block_ok_def)

lemma block_ok_frame [simp]: "block_ok p (dc\<lparr> rs_cache := c \<rparr>) = block_ok p dc" "cache_wf (dc\<lparr> rs_cache := c \<rparr>) = cache_wf dc"
  "block_content p (dc\<lparr> rs_cache := c \<rparr>) = block_content p dc"
  by (auto simp: fun_eq_iff block_ok_def entry_ok_def filter_ok_def cache_wf_def block_content_def split: option.split)

lemma blocks_ok_frame [simp]: "blocks_ok p (dc\<lparr> rs_cache := c' \<rparr>) c = blocks_ok p dc c"
  by (simp add: blocks_ok_def)

lemma acquire_entry_spec:
  assumes ok: "blocks_ok p dc c" and wf: "cache_wf dc" and b: "AlignToBlockStart (block_size dc) b = b"
    and small: "charges c + unat (GetInitialCharge p dc) < 2 ^ 64"
  shows "\<exists>i e c'. acquire_entry p dc log b (cache_key p log b) c = Inr (i, e, c')
    \<and> pins c' i (cache_key p log b) e \<and> entry_ok p dc log b e
    \<and> e \<in> (case cached c (cache_key p log b) of Some e' \<Rightarrow> {e'} | None \<Rightarrow> {e. mcache e = replicate (unat (block_size dc)) None})
    \<and> cached c' \<subseteq>\<^sub>m (cached c)(cache_key p log b := Some e)
    \<and> charges c' \<le> charges c + unat (GetInitialCharge p dc) \<and> lc_capacity c' = lc_capacity c
    \<and> charge_of c' i = block_charge p dc c (cache_key p log b)"
proof -
  let ?k = "cache_key p log b"
  have inv: "lru_inv c" "unpinned c" and blocks: "cached c k = Some e \<Longrightarrow> block_ok p dc k e" for k e
    using ok by (simp_all add: blocks_ok_def)
  show ?thesis
  proof (cases "cached c ?k")
    case (Some e)
    from Lookup_pins [OF inv Some] obtain i c' where l: "LRUCache_Lookup c ?k = Inr (Some i, c')" "pins c' i ?k e"
      "cached c' = cached c" "lc_capacity c' = lc_capacity c" "charges c' = charges c"
      "umap_find (lc_table c) ?k = Some i" "charge_of c' i = charge_of c i" by blast
    have "acquire_entry p dc log b ?k c = Inr (i, e, c')"
      using l(1) pins_cached(2) [OF l(2)] by (simp add: acquire_entry_def)
    moreover have "entry_ok p dc log b e" using blocks [OF Some] by (rule block_ok_key)
    ultimately show ?thesis using l Some by (auto simp: block_charge_def map_le_def)
  next
    case None
    have g: "good_block (block_size dc)" using wf by (simp add: cache_wf_def)
    obtain e where e: "CacheEntry_new dc log b = Inr e" "entry_ok p dc log b e" "mcache e = replicate (unat (block_size dc)) None"
      using entry_ok_new [OF g] by blast
    from Insert_pins [OF inv None small, of e] obtain i c' where n:
      "LRUCache_Insert c ?k e (GetInitialCharge p dc) = Inr (i, c')" "pins c' i ?k e"
      "cached c' \<subseteq>\<^sub>m (cached c)(?k := Some e)" "charges c' \<le> charges c + unat (GetInitialCharge p dc)"
      "lc_capacity c' = lc_capacity c" "charge_of c' i = unat (GetInitialCharge p dc)" by blast
    have tab: "umap_find (lc_table c) ?k = None" using None inv(1) by (simp add: cached_None lru_inv_def)
    have "acquire_entry p dc log b ?k c = Inr (i, e, c')"
      using Lookup_absent [OF None inv(1)] e(1) n(1) by (simp add: acquire_entry_def)
    then show ?thesis using n e None tab by (auto simp: block_charge_def)
  qed
qed

lemma map_le_Some: "m \<subseteq>\<^sub>m m' \<Longrightarrow> m k = Some v \<Longrightarrow> m' k = Some v"
  by (auto simp: map_le_def dom_def)

lemma blocks_ok_le:
  assumes "lru_inv c'" and "unpinned c'" and "cached c' \<subseteq>\<^sub>m (cached c)(k := Some e)" and "blocks_ok p dc c" and "block_ok p dc k e"
  shows "blocks_ok p dc c'"
  unfolding blocks_ok_def
proof (intro conjI allI impI assms(1,2))
  fix k' e' assume "cached c' k' = Some e'"
  from map_le_Some [OF assms(3) this] show "block_ok p dc k' e'"
    using assms(4,5) by (auto simp: blocks_ok_def split: if_splits)
qed

text \<open>The steps of \<open>StoreData\<close> after the entry has been acquired.\<close>

lemma store_session:
  assumes "pins c i k e" and small: "charges c + unat delta < 2 ^ 64"
  shows "\<exists>c'. andThen (set_value c i e') (\<lambda>c. andThen (ChargeDelta c i delta) (\<lambda>c. LRUCache_Release c i)) = Inr c'
    \<and> lru_inv c' \<and> unpinned c' \<and> cached c' \<subseteq>\<^sub>m (cached c)(k := Some e') \<and> lc_capacity c' = lc_capacity c
    \<and> (charge_of c i + unat delta \<le> unat (lc_capacity c) \<longrightarrow> cached c' k = Some e')"
proof -
  from set_value_pins [OF assms(1), of e'] obtain c1 where c1: "set_value c i e' = Inr c1" "pins c1 i k e'"
    "cached c1 = (cached c)(k := Some e')" "lc_capacity c1 = lc_capacity c" "charges c1 = charges c" "charge_of c1 i = charge_of c i"
    by blast
  from ChargeDelta_pins [OF c1(2), of delta] small c1(5) obtain c2 where c2: "ChargeDelta c1 i delta = Inr c2" "pins c2 i k e'"
    "cached c2 \<subseteq>\<^sub>m cached c1" "lc_capacity c2 = lc_capacity c1" "charge_of c2 i \<le> charge_of c1 i + unat delta" by auto
  from Release_pins [OF c2(2)] obtain c3 where c3: "LRUCache_Release c2 i = Inr c3" "lru_inv c3" "unpinned c3"
    "cached c3 \<subseteq>\<^sub>m cached c2" "lc_usage c2 \<le> lc_capacity c2 \<longrightarrow> cached c3 = cached c2" "lc_capacity c3 = lc_capacity c2" by blast
  have "cached c3 \<subseteq>\<^sub>m (cached c)(k := Some e')" using c3(4) c2(3) c1(3) by (metis map_le_trans)
  moreover have "cached c3 k = Some e'" if "charge_of c i + unat delta \<le> unat (lc_capacity c)"
  proof -
    have "lc_usage c2 \<le> lc_capacity c2" using that c1(4,6) c2(4,5) by (intro pins_fits [OF c2(2)]) simp
    then show ?thesis using c3(5) pins_cached(1) [OF c2(2)] by simp
  qed
  ultimately show ?thesis using c1 c2 c3 by simp
qed

lemma StoreData_blocks:
  assumes ok: "blocks_ok p dc c" and wf: "cache_wf dc"
    and b: "b = AlignToBlockStart (block_size dc) (data_seqno m)" and last: "b + block_size dc \<noteq> 0"
    and small: "charges c + unat (GetInitialCharge p dc) + unat (GetTotalSize p m) < 2 ^ 64"
    and dup: "\<forall>old. block_content p dc c log (data_seqno m) = Some old \<longrightarrow> GetTotalSize p old = GetTotalSize p m"
  shows "\<exists>i e c1 delta e1 c'. acquire_entry p dc log b (cache_key p log b) c = Inr (i, e, c1)
    \<and> CacheEntry_StoreData p dc (data_topic_name m) log m e = Inr (delta, e1)
    \<and> andThen (set_value c1 i e1) (\<lambda>c. andThen (ChargeDelta c i delta) (\<lambda>c. LRUCache_Release c i)) = Inr c'
    \<and> blocks_ok p dc c' \<and> cached c' \<subseteq>\<^sub>m (cached c)(cache_key p log b := Some e1) \<and> lc_capacity c' = lc_capacity c
    \<and> (\<forall>n. AlignToBlockStart (block_size dc) n = b \<longrightarrow> mcache e1 ! unat (n - b) =
         (if n = data_seqno m \<and> block_content p dc c log n = None then Some m else block_content p dc c log n))
    \<and> (block_charge p dc c (cache_key p log b) + unat (GetTotalSize p m) \<le> unat (lc_capacity c)
         \<longrightarrow> cached c' (cache_key p log b) = Some e1)"
proof -
  let ?k = "cache_key p log b" and ?B = "unat (block_size dc)"
  have g: "good_block (block_size dc)" using wf by (simp add: cache_wf_def)
  have B: "0 < ?B" using block_bounds [OF g] by simp
  have al: "AlignToBlockStart (block_size dc) b = b" using align_idem [OF g] b by simp
  have room: "charges c + unat (GetInitialCharge p dc) < 2 ^ 64" using small by simp
  from acquire_entry_spec [OF ok wf al room, of log] obtain i e c1 where a: "acquire_entry p dc log b ?k c = Inr (i, e, c1)"
    "pins c1 i ?k e" "entry_ok p dc log b e"
    "e \<in> (case cached c ?k of Some e' \<Rightarrow> {e'} | None \<Rightarrow> {e. mcache e = replicate ?B None})"
    "cached c1 \<subseteq>\<^sub>m (cached c)(?k := Some e)" "charges c1 \<le> charges c + unat (GetInitialCharge p dc)"
    "lc_capacity c1 = lc_capacity c" "charge_of c1 i = block_charge p dc c ?k" by blast
  have off: "unat (n - b) < ?B" if "AlignToBlockStart (block_size dc) n = b" for n
    using that B align_offset [OF g, of n] by auto
  have old: "mcache e ! unat (n - b) = block_content p dc c log n" if "AlignToBlockStart (block_size dc) n = b" for n
    using a(4) off [OF that] that by (auto simp: block_content_def split: option.splits)
  have e': "entry_ok p dc log (AlignToBlockStart (block_size dc) (data_seqno m)) e" using a(3) b by simp
  have "GetTotalSize p o' = GetTotalSize p m" if "mcache e ! unat (data_seqno m - b) = Some o'" for o'
    using dup that old [of "data_seqno m"] b by simp
  from CacheEntry_StoreData_spec [OF e' g, folded b, OF refl this] obtain delta e1 where st:
    "CacheEntry_StoreData p dc (data_topic_name m) log m e = Inr (delta, e1)" "entry_ok p dc log b e1"
    "unat delta \<le> unat (GetTotalSize p m)"
    "mcache e1 = (case mcache e ! unat (data_seqno m - b) of None \<Rightarrow> (mcache e)[unat (data_seqno m - b) := Some m] | Some _ \<Rightarrow> mcache e)"
    by blast
  have "charges c1 + unat delta < 2 ^ 64" using a(6) st(3) small by linarith
  from store_session [OF a(2) this, of e1] obtain c' where c':
    "andThen (set_value c1 i e1) (\<lambda>c. andThen (ChargeDelta c i delta) (\<lambda>c. LRUCache_Release c i)) = Inr c'"
    "lru_inv c'" "unpinned c'" "cached c' \<subseteq>\<^sub>m (cached c1)(?k := Some e1)" "lc_capacity c' = lc_capacity c1"
    "charge_of c1 i + unat delta \<le> unat (lc_capacity c1) \<longrightarrow> cached c' ?k = Some e1" by blast
  have "(cached c1)(?k := Some e1) \<subseteq>\<^sub>m (cached c)(?k := Some e1)" using a(5) by (auto simp: map_le_def)
  then have le: "cached c' \<subseteq>\<^sub>m (cached c)(?k := Some e1)" using c'(4) map_le_trans by blast
  have "block_ok p dc ?k e1" using st(2) al last by (auto simp: block_ok_def)
  then have "blocks_ok p dc c'" by (rule blocks_ok_le [OF c'(2,3) le ok])
  moreover have "mcache e1 ! unat (n - b) =
      (if n = data_seqno m \<and> block_content p dc c log n = None then Some m else block_content p dc c log n)"
    if n: "AlignToBlockStart (block_size dc) n = b" for n
  proof -
    have len: "length (mcache e) = ?B" using a(3) by (simp add: entry_ok_def)
    have "unat (n - b) = unat (data_seqno m - b) \<longleftrightarrow> n = data_seqno m" by (simp add: word_unat_eq_iff [symmetric])
    then show ?thesis
      using st(4) old [OF n] old [of "data_seqno m"] off [OF n] len b by (auto simp: nth_list_update split: option.splits)
  qed
  moreover have "cached c' ?k = Some e1" if "block_charge p dc c ?k + unat (GetTotalSize p m) \<le> unat (lc_capacity c)"
    using that c'(6) a(7,8) st(3) by simp
  ultimately show ?thesis using a(1) st(1) c'(1) le c'(5) a(7) by metis
qed

text \<open>
  The contract of a client that stores a message: sequence numbers stay below the last block of the number space,
  the charges stay within 64 bits, and a message stored again is the message stored before.
\<close>

definition storable :: "platform \<Rightarrow> DataCache \<Rightarrow> u64 \<Rightarrow> MessageData \<Rightarrow> bool" where
  "storable p dc log m \<longleftrightarrow> (\<forall>c. rs_cache dc = Some c \<longrightarrow>
     AlignToBlockStart (block_size dc) (data_seqno m) + block_size dc \<noteq> 0
     \<and> charges c + unat (GetInitialCharge p dc) + unat (GetTotalSize p m) < 2 ^ 64
     \<and> (\<forall>old. block_content p dc c log (data_seqno m) = Some old \<longrightarrow> GetTotalSize p old = GetTotalSize p m))"

definition fits :: "platform \<Rightarrow> DataCache \<Rightarrow> slice \<Rightarrow> u64 \<Rightarrow> MessageData \<Rightarrow> bool" where
  "fits p dc ns log m \<longleftrightarrow> cache_wanted dc ns \<and> (\<exists>c. rs_cache dc = Some c
     \<and> block_charge p dc c (cache_key p log (AlignToBlockStart (block_size dc) (data_seqno m)))
         + unat (GetTotalSize p m) \<le> unat (lc_capacity c))"

lemma StoreData_spec:
  assumes inv: "dc_inv p dc" and st: "storable p dc log m"
  shows "\<exists>dc'. DataCache_StoreData p dc ns (data_topic_name m) log m = Inr dc' \<and> dc_inv p dc'
    \<and> (\<exists>c. dc' = dc\<lparr> rs_cache := c \<rparr>)
    \<and> (\<forall>l n x. content p dc' l n = Some x \<longrightarrow>
         content p dc l n = Some x \<or> l = log \<and> n = data_seqno m \<and> x = m \<and> content p dc l n = None)
    \<and> (fits p dc ns log m \<longrightarrow> content p dc' log (data_seqno m) =
         (case content p dc log (data_seqno m) of None \<Rightarrow> Some m | Some old \<Rightarrow> Some old))"
proof (cases "rs_cache dc")
  case None
  then show ?thesis using inv by (auto simp: DataCache_StoreData_def fits_def intro!: exI [of _ None])
next
  case (Some c)
  have wf: "cache_wf dc" and ok: "blocks_ok p dc c" using inv Some by (simp_all add: dc_inv_def)
  have pinned: "GetPinnedUsage c = Inr 0" using ok by (simp add: blocks_ok_def unpinned_pinned_usage)
  show ?thesis
  proof (cases "cache_wanted dc ns")
    case False
    then have "DataCache_StoreData p dc ns (data_topic_name m) log m = Inr dc"
      using Some pinned by (simp add: DataCache_StoreData_def)
    then show ?thesis using inv False by (auto simp: fits_def intro!: exI [of _ "rs_cache dc"])
  next
    case True
    let ?b = "AlignToBlockStart (block_size dc) (data_seqno m)"
    let ?k = "cache_key p log ?b"
    have g: "good_block (block_size dc)" using wf by (simp add: cache_wf_def)
    have side: "?b + block_size dc \<noteq> 0" "charges c + unat (GetInitialCharge p dc) + unat (GetTotalSize p m) < 2 ^ 64"
      "\<forall>old. block_content p dc c log (data_seqno m) = Some old \<longrightarrow> GetTotalSize p old = GetTotalSize p m"
      using st Some by (simp_all add: storable_def)
    from StoreData_blocks [OF ok wf refl side] obtain i e c1 delta e1 c' where r:
      "acquire_entry p dc log ?b ?k c = Inr (i, e, c1)" "CacheEntry_StoreData p dc (data_topic_name m) log m e = Inr (delta, e1)"
      "andThen (set_value c1 i e1) (\<lambda>c. andThen (ChargeDelta c i delta) (\<lambda>c. LRUCache_Release c i)) = Inr c'"
      "blocks_ok p dc c'" "cached c' \<subseteq>\<^sub>m (cached c)(?k := Some e1)" "lc_capacity c' = lc_capacity c"
      "\<forall>n. AlignToBlockStart (block_size dc) n = ?b \<longrightarrow> mcache e1 ! unat (n - ?b) =
         (if n = data_seqno m \<and> block_content p dc c log n = None then Some m else block_content p dc c log n)"
      "block_charge p dc c ?k + unat (GetTotalSize p m) \<le> unat (lc_capacity c) \<longrightarrow> cached c' ?k = Some e1"
      by - (elim exE conjE, rule that)
    have "GenerateKey p (block_size dc) log ?b = Inr ?k" using align_idem [OF g] by (simp add: GenerateKey_def)
    then have run: "DataCache_StoreData p dc ns (data_topic_name m) log m = Inr (dc\<lparr> rs_cache := Some c' \<rparr>)"
      using Some pinned True r(1,2) r(3) [unfolded andThen_Inr]
      by (auto simp: DataCache_StoreData_def Let_def)
    have "content p dc l n = Some x \<or> l = log \<and> n = data_seqno m \<and> x = m \<and> content p dc l n = None"
      if x: "content p (dc\<lparr> rs_cache := Some c' \<rparr>) l n = Some x" for l n x
    proof -
      let ?kn = "cache_key p l (AlignToBlockStart (block_size dc) n)"
      obtain e' where e': "cached c' ?kn = Some e'" "mcache e' ! unat (n - AlignToBlockStart (block_size dc) n) = Some x"
        using x by (auto simp: content_def block_content_def split: option.splits)
      from map_le_Some [OF r(5) e'(1)] have "if ?kn = ?k then e' = e1 else cached c ?kn = Some e'" by (auto split: if_splits)
      then show ?thesis
        using e'(2) r(7) Some by (auto simp: content_def block_content_def split: if_splits)
    qed
    moreover have "content p (dc\<lparr> rs_cache := Some c' \<rparr>) log (data_seqno m) =
        (case content p dc log (data_seqno m) of None \<Rightarrow> Some m | Some old \<Rightarrow> Some old)" if "fits p dc ns log m"
    proof -
      have "cached c' ?k = Some e1" using that r(8) Some by (auto simp: fits_def)
      then have "content p (dc\<lparr> rs_cache := Some c' \<rparr>) log (data_seqno m) = mcache e1 ! unat (data_seqno m - ?b)"
        by (simp add: content_def block_content_def)
      also have "\<dots> = (case block_content p dc c log (data_seqno m) of None \<Rightarrow> Some m | Some old \<Rightarrow> Some old)"
        using r(7) by (simp split: option.split)
      finally show ?thesis using Some by (simp add: content_def)
    qed
    moreover have "dc_inv p (dc\<lparr> rs_cache := Some c' \<rparr>)" using wf r(4) by (simp add: dc_inv_def)
    ultimately show ?thesis using run by blast
  qed
qed

end
