(* ===== verification/CacheVisit.thy ===== *)
theory CacheVisit
  imports DataCache
begin

text \<open>
  Reading the data cache: \<open>VisitCache\<close> of \<open>src/controltower/data_cache.cc\<close> is the reference scan of
  \<open>DataCache.thy\<close> over the run of consecutive messages that are cached from the start position
  on. It returns, leaves the contents as they are up to the changes the callback makes to
  the messages it is given, and the topic hashes and Bloom filters leave out messages of
  other topics only.
\<close>

section \<open>Runs of cached messages\<close>

definition is_run :: "platform \<Rightarrow> DataCache \<Rightarrow> CacheEntry LRUCache \<Rightarrow> u64 \<Rightarrow> SequenceNumber \<Rightarrow> MessageData list \<Rightarrow> bool" where
  "is_run p dc c log start run \<longleftrightarrow> unat start + length run < 2 ^ 64
     \<and> (\<forall>i < length run. block_content p dc c log (start + of_nat i) = Some (run ! i))
     \<and> block_content p dc c log (start + of_nat (length run)) = None"

lemma is_run_unique:
  assumes "is_run p dc c log start r" and "is_run p dc c log start r'"
  shows "r = r'"
proof -
  have "length r = length r'"
    using assms by (metis (no_types, lifting) is_run_def linorder_neqE_nat option.distinct(1))
  then show ?thesis
  proof (rule nth_equalityI)
    fix i assume "i < length r"
    then have "Some (r ! i) = Some (r' ! i)" using assms \<open>length r = length r'\<close> by (simp add: is_run_def)
    then show "r ! i = r' ! i" by simp
  qed
qed

lemma last_block_absent:
  assumes "blocks_ok p dc c" and "good_block (block_size dc)"
  shows "block_content p dc c log (- 1) = None"
proof (cases "cached c (cache_key p log (AlignToBlockStart (block_size dc) (- 1)))")
  case (Some e)
  let ?b = "AlignToBlockStart (block_size dc) (- 1)"
  have "block_ok p dc (cache_key p log ?b) e" using assms(1) Some by (simp add: blocks_ok_def)
  note ok = block_ok_key [OF this]
  have "unat (?b + block_size dc) = unat ?b + unat (block_size dc)" by (rule next_block [OF assms(2) ok(3,2)])
  moreover have "unat (- 1 - ?b) < unat (block_size dc)" using align_offset [OF assms(2), of "- 1"] block_bounds [OF assms(2)] by simp
  moreover have "unat (- 1 - ?b) = unat (- 1 :: u64) - unat ?b" by (rule unat_minus_le) (simp add: align_unat [OF assms(2)])
  moreover have "unat (- 1 :: u64) = 2 ^ 64 - 1" by (simp add: unsigned_minus_1_eq_mask mask_eq_exp_minus_1)
  moreover have "unat (?b + block_size dc) < 2 ^ 64" using unsigned_less [of "?b + block_size dc", where ?'a = nat] by simp
  ultimately show ?thesis by linarith
qed (simp add: block_content_def)

lemma is_run_exists:
  assumes "blocks_ok p dc c" and "good_block (block_size dc)"
  shows "\<exists>run. is_run p dc c log start run"
proof -
  let ?f = "\<lambda>k. block_content p dc c log (start + of_nat k)"
  define m where "m = 2 ^ 64 - 1 - unat start"
  have le: "unat start \<le> 2 ^ 64 - 1" using unsigned_less [of start, where ?'a = nat] by simp
  have "unat (start + of_nat m) = unat (- 1 :: u64)"
    using le by (simp add: unat_word_ariths unat_of_nat m_def unsigned_minus_1_eq_mask mask_eq_exp_minus_1)
  then have "start + of_nat m = - 1" by (simp add: word_unat_eq_iff)
  then have ex: "?f m = None" using last_block_absent [OF assms] by simp
  define k where "k = (LEAST k. ?f k = None)"
  have k: "?f k = None" unfolding k_def by (rule LeastI [of _ m]) (rule ex)
  have "k \<le> m" unfolding k_def by (rule Least_le) (rule ex)
  moreover have "?f i \<noteq> None" if "i < k" for i using that not_less_Least unfolding k_def by blast
  ultimately have "is_run p dc c log start (map (the \<circ> ?f) [0..<k])" using k le by (auto simp: is_run_def m_def)
  then show ?thesis by blast
qed

lemma block_content_at:
  assumes "good_block (block_size dc)" and "AlignToBlockStart (block_size dc) start = b" and "cached c (cache_key p log b) = Some e"
    and "length (mcache e) = unat (block_size dc)" and "i < length (drop (unat (start - b)) (mcache e))"
  shows "block_content p dc c log (start + of_nat i) = drop (unat (start - b)) (mcache e) ! i"
proof -
  let ?off = "unat (start - b)"
  have al: "AlignToBlockStart (block_size dc) b = b" using align_idem [OF assms(1)] assms(2) by auto
  have lt: "?off + i < unat (block_size dc)" using assms(4,5) by simp
  have eq: "start + of_nat i = b + of_nat (?off + i)" by simp
  note add = align_add [OF assms(1) al lt]
  have "unat (b + of_nat (?off + i) - b) = ?off + i" using add by (simp add: unat_minus_le)
  then show ?thesis using add(1) assms(3,4,5) unfolding eq by (simp add: block_content_def)
qed

text \<open>The run from a position starts with what its block holds.\<close>

lemma run_in_block:
  assumes ok: "blocks_ok p dc c" and g: "good_block (block_size dc)" and b: "AlignToBlockStart (block_size dc) start = b"
    and e: "cached c (cache_key p log b) = Some e" and split: "drop (unat (start - b)) (mcache e) = map Some r1 @ rest" "stops_at rest"
  shows "rest \<noteq> [] \<Longrightarrow> is_run p dc c log start r1 \<and> start + of_nat (length r1) < b + block_size dc"
    and "rest = [] \<Longrightarrow> is_run p dc c log (b + block_size dc) r2 \<Longrightarrow>
       is_run p dc c log start (r1 @ r2) \<and> start + of_nat (length r1) = b + block_size dc"
proof -
  let ?off = "unat (start - b)" and ?B = "unat (block_size dc)"
  have bo: "block_ok p dc (cache_key p log b) e" using ok e by (simp add: blocks_ok_def)
  note al = block_ok_key(3) [OF bo] and last = block_ok_key(2) [OF bo]
  have len: "length (mcache e) = ?B" using block_ok_key(1) [OF bo] by (simp add: entry_ok_def)
  have off: "?off < ?B" using align_offset [OF g, of start] b block_bounds [OF g] by auto
  have us: "unat start = unat b + ?off" using b align_unat [OF g, of start] by (auto simp: unat_minus_le)
  note nb = next_block [OF g al last]
  have top: "unat b + ?B < 2 ^ 64" using nb(1) unsigned_less [of "b + block_size dc", where ?'a = nat] by simp
  note at = block_content_at [OF g b e len]
  have n: "?off + length r1 + length rest = ?B" using arg_cong [OF split(1), of length] len off by simp
  have first: "block_content p dc c log (start + of_nat i) = Some (r1 ! i)" if "i < length r1" for i
    using at [of i] that n len split(1) by (simp add: nth_append)
  have pos: "unat (start + of_nat i) = unat start + i" if "i \<le> ?B - ?off" for i
    using that us top off by (simp add: unat_word_ariths unat_of_nat)
  show "is_run p dc c log start r1 \<and> start + of_nat (length r1) < b + block_size dc" if "rest \<noteq> []"
  proof -
    have "block_content p dc c log (start + of_nat (length r1)) = hd rest"
      using at [of "length r1"] that n len split(1) by (cases rest) (simp_all add: nth_append)
    then have "block_content p dc c log (start + of_nat (length r1)) = None" using that split(2) by (simp add: stops_at_def)
    moreover have "?off + length r1 < ?B" using that n by (cases rest) auto
    ultimately show ?thesis using first us top pos [of "length r1"] nb(1) by (simp add: is_run_def word_less_nat_alt)
  qed
  show "is_run p dc c log start (r1 @ r2) \<and> start + of_nat (length r1) = b + block_size dc"
    if "rest = []" and r2: "is_run p dc c log (b + block_size dc) r2"
  proof -
    have l: "?off + length r1 = ?B" using that n by simp
    then have eq: "start + of_nat (length r1) = b + block_size dc"
      using pos [of "length r1"] us nb(1) by (simp add: word_unat_eq_iff)
    have shift: "start + of_nat (length r1 + i) = b + block_size dc + of_nat i" for i
      using eq by (simp add: add.assoc [symmetric])
    have "block_content p dc c log (start + of_nat i) = Some ((r1 @ r2) ! i)" if "i < length (r1 @ r2)" for i
    proof (cases "i < length r1")
      case True
      then show ?thesis using first by (simp add: nth_append)
    next
      case False
      then obtain j where "i = length r1 + j" "j < length r2" using \<open>i < length (r1 @ r2)\<close>
        by (metis add_less_cancel_left le_add_diff_inverse length_append not_less)
      then show ?thesis using r2 by (simp add: is_run_def shift del: of_nat_add)
    qed
    moreover have "block_content p dc c log (start + of_nat (length (r1 @ r2))) = None"
      using r2 by (simp add: is_run_def shift del: of_nat_add)
    ultimately show ?thesis using r2 eq l us nb(1) by (simp add: is_run_def)
  qed
qed

section \<open>Callbacks\<close>

text \<open>A callback may change a message but not its identity.\<close>

definition same_message :: "MessageData \<Rightarrow> MessageData \<Rightarrow> bool" where
  "same_message m m' \<longleftrightarrow> data_seqno m' = data_seqno m \<and> data_topic_name m' = data_topic_name m"

definition gentle :: "'s visitor \<Rightarrow> bool" where
  "gentle visit \<longleftrightarrow> (\<forall>m s go m' s'. visit m s = Inr (go, m', s') \<longrightarrow> same_message m m')"

lemma gentleD: "gentle visit \<Longrightarrow> visit m s = Inr (go, m', s') \<Longrightarrow> same_message m m'"
  unfolding gentle_def by blast

lemma same_message_refl [simp]: "same_message m m"
  by (simp add: same_message_def)

lemma list_all2_same [simp]: "list_all2 same_message ms ms"
  by (simp add: list.rel_refl)

lemma scan_gentle:
  "gentle visit \<Longrightarrow> scan visit ms s = Inr (n, stop, ms', s') \<Longrightarrow> list_all2 same_message (map snd ms) ms'"
proof (induction visit ms s arbitrary: n stop ms' s' rule: scan.induct)
  case (2 visit sel m ms s)
  then show ?case
    by (auto simp: andThen_Inr split: if_splits prod.splits dest: gentleD)
qed simp

lemma present_count: "list_all2 (rel_option R) xs ys \<Longrightarrow> length (filter (\<lambda>m. m \<noteq> None) xs) = length (filter (\<lambda>m. m \<noteq> None) ys)"
  by (induction rule: list_all2_induct) (auto simp: option.rel_sel)

lemma same_topics: "list_all2 same_message ms ms' \<Longrightarrow> map data_topic_name ms' = map data_topic_name ms"
  by (induction rule: list_all2_induct) (auto simp: same_message_def)

lemma rel_map_Some: "list_all2 (rel_option R) (map Some ms) ys \<Longrightarrow> \<exists>ms'. ys = map Some ms' \<and> list_all2 R ms ms'"
proof (induction ms arbitrary: ys)
  case (Cons m ms)
  then obtain y ys' where ys: "ys = y # ys'" "rel_option R (Some m) y" "list_all2 (rel_option R) (map Some ms) ys'"
    by (auto simp: list_all2_Cons1)
  obtain m' where "y = Some m'" "R m m'" using ys(2) by (cases y) auto
  moreover obtain ms' where "ys' = map Some ms'" "list_all2 R ms ms'" using Cons.IH [OF ys(3)] by blast
  ultimately show ?case using ys(1) by (intro exI [of _ "m' # ms'"]) simp
qed simp

lemma entry_ok_revisited:
  assumes "entry_ok p dc log b e" and "list_all2 (rel_option same_message) (mcache e) mc"
  shows "entry_ok p dc log b (e\<lparr> mcache := mc \<rparr>)"
proof -
  have len: "length mc = length (mcache e)" using list_all2_lengthD [OF assms(2)] by simp
  have "slot_ok p b i (mc ! i) (hcache e ! i)" if "i < unat (block_size dc)" for i
  proof -
    have old: "slot_ok p b i (mcache e ! i) (hcache e ! i)" and l: "i < length (mcache e)" using assms(1) that by (auto simp: entry_ok_def)
    have "rel_option same_message (mcache e ! i) (mc ! i)" using assms(2) l by (rule list_all2_nthD)
    then show ?thesis using old
      by (cases "mcache e ! i"; cases "mc ! i") (auto simp: slot_ok_def same_message_def)
  qed
  moreover have "filter_ok dc (e\<lparr> mcache := mc \<rparr>)"
    using assms rel_map_Some [of same_message _ mc] same_topics
    by (auto simp: entry_ok_def filter_ok_def) metis
  ultimately show ?thesis using assms(1) len present_count [OF assms(2)] by (simp add: entry_ok_def)
qed

lemma visit_block_spec:
  assumes ok: "blocks_ok p dc c" and wf: "cache_wf dc" and gentle: "gentle visit"
    and b: "AlignToBlockStart (block_size dc) start = b" and e: "cached c (cache_key p log b) = Some e"
    and run: "drop (unat (start - b)) (mcache e) = map Some run @ rest" "stops_at rest"
  shows "\<exists>sel. may_skip t sel run \<and>
    (case scan visit (zip sel run) s of
       Inl err \<Rightarrow> visit_block p dc log t visit start b c s = Inl err
     | Inr (n, stop, ms, s') \<Rightarrow> \<exists>c'. visit_block p dc log t visit start b c s = Inr (Some (start + of_nat n, stop), c', s')
         \<and> blocks_ok p dc c'
         \<and> cached c' = (cached c)(cache_key p log b :=
             Some (e\<lparr> mcache := take (unat (start - b)) (mcache e) @ map Some ms @ rest \<rparr>)))"
proof -
  let ?k = "cache_key p log b" and ?off = "unat (start - b)"
  have inv: "lru_inv c" "unpinned c" and bo: "block_ok p dc ?k e" using ok e by (simp_all add: blocks_ok_def)
  note eok = block_ok_key(1) [OF bo]
  have key: "GenerateKey p (block_size dc) log b = Inr ?k" using block_ok_key(3) [OF bo] by (simp add: GenerateKey_def)
  from Lookup_pins [OF inv e] obtain i c1 where l: "LRUCache_Lookup c ?k = Inr (Some i, c1)" "pins c1 i ?k e"
    "cached c1 = cached c" "lc_capacity c1 = lc_capacity c" "lc_usage c1 = lc_usage c" by blast
  note val = pins_cached(2) [OF l(2)]
  from VisitEntry_spec [OF wf eok b refl run, of t visit s] obtain sel where sel: "may_skip t sel run"
    "VisitEntry p dc log start t visit e s = andThen (scan visit (zip sel run) s) (\<lambda>(n, stop, ms, s).
      Inr (start + of_nat n, stop, e\<lparr> mcache := take ?off (mcache e) @ map Some ms @ rest \<rparr>, s))" by blast
  show ?thesis
  proof (intro exI [of _ sel] conjI sel(1))
    show "case scan visit (zip sel run) s of
       Inl err \<Rightarrow> visit_block p dc log t visit start b c s = Inl err
     | Inr (n, stop, ms, s') \<Rightarrow> \<exists>c'. visit_block p dc log t visit start b c s = Inr (Some (start + of_nat n, stop), c', s')
         \<and> blocks_ok p dc c'
         \<and> cached c' = (cached c)(?k := Some (e\<lparr> mcache := take ?off (mcache e) @ map Some ms @ rest \<rparr>))"
    proof (cases "scan visit (zip sel run) s")
      case (Inl err)
      then show ?thesis using key l(1) val sel(2) by (simp add: visit_block_def)
    next
      case (Inr r)
      obtain n stop ms s' where r: "r = (n, stop, ms, s')" by (cases r)
      let ?e = "e\<lparr> mcache := take ?off (mcache e) @ map Some ms @ rest \<rparr>"
      from set_value_pins [OF l(2), of ?e] obtain c2 where c2: "set_value c1 i ?e = Inr c2" "pins c2 i ?k ?e"
        "cached c2 = (cached c1)(?k := Some ?e)" "lc_capacity c2 = lc_capacity c1" "lc_usage c2 = lc_usage c1" by blast
      from Release_pins [OF c2(2)] obtain c3 where c3: "LRUCache_Release c2 i = Inr c3" "lru_inv c3" "unpinned c3"
        "lc_usage c2 \<le> lc_capacity c2 \<longrightarrow> cached c3 = cached c2" by blast
      have "cached c3 = (cached c)(?k := Some ?e)"
        using c3(4) c2(3,4,5) l(3,4,5) unpinned_usage [OF inv] by simp
      moreover have "list_all2 same_message run ms"
        using scan_gentle [OF gentle Inr [unfolded r]] sel(1) by (simp add: may_skip_def)
      then have "list_all2 (rel_option same_message) (take ?off (mcache e) @ map Some run @ rest) (take ?off (mcache e) @ map Some ms @ rest)"
        by (intro list_all2_appendI) (auto simp: list.rel_map list.rel_refl option.rel_refl)
      then have "entry_ok p dc log b ?e" using run(1) append_take_drop_id [of ?off "mcache e"] by (intro entry_ok_revisited [OF eok]) simp
      then have "block_ok p dc ?k ?e" using block_ok_key(2,3) [OF bo] by (auto simp: block_ok_def)
      then have "blocks_ok p dc c3"
        using calculation by (intro blocks_ok_le [OF c3(2,3) _ ok]) simp_all
      moreover have "visit_block p dc log t visit start b c s = Inr (Some (start + of_nat n, stop), c3, s')"
        using key l(1) val sel(2) Inr r c2(1) c3(1) by (simp add: visit_block_def)
      ultimately show ?thesis using Inr r by auto
    qed
  qed
qed

section \<open>The loop\<close>

definition overwritten ::
  "platform \<Rightarrow> DataCache \<Rightarrow> CacheEntry LRUCache \<Rightarrow> u64 \<Rightarrow> SequenceNumber \<Rightarrow> MessageData list \<Rightarrow> u64 \<Rightarrow> SequenceNumber \<Rightarrow> MessageData option"
where
  "overwritten p dc c log start ms l x =
     (if l = log \<and> unat start \<le> unat x \<and> unat x < unat start + length ms
      then Some (ms ! (unat x - unat start)) else block_content p dc c l x)"

lemma in_block:
  assumes "good_block bs" and "AlignToBlockStart bs b = b" and "unat b \<le> unat x" and "unat x < unat b + unat bs"
  shows "AlignToBlockStart bs x = b" and "unat (x - b) = unat x - unat b"
proof -
  have "x = b + of_nat (unat x - unat b)" using assms(3) by (simp add: word_unat_eq_iff unat_word_ariths unat_of_nat mod_add_right_eq)
  then show "AlignToBlockStart bs x = b"
    using align_add(1) [OF assms(1,2), of "unat x - unat b"] assms(3,4) by simp
  show "unat (x - b) = unat x - unat b" using assms(3) by (rule unat_minus_le)
qed

lemma nth_middle:
  "i < length xs + length ys + length zs \<Longrightarrow>
     (xs @ map Some ys @ zs) ! i = (if i < length xs then xs ! i
        else if i < length xs + length ys then Some (ys ! (i - length xs)) else zs ! (i - length xs - length ys))"
  by (auto simp: nth_append)

lemma block_overwritten:
  assumes g: "good_block (block_size dc)" and b: "AlignToBlockStart (block_size dc) start = b"
    and e: "cached c (cache_key p log b) = Some e" "length (mcache e) = unat (block_size dc)"
    and run: "drop (unat (start - b)) (mcache e) = map Some run @ rest" and len: "length ms = length run"
    and c': "cached c' = (cached c)(cache_key p log b :=
         Some (e\<lparr> mcache := take (unat (start - b)) (mcache e) @ map Some ms @ rest \<rparr>))"
  shows "block_content p dc c' = overwritten p dc c log start ms"
proof (intro ext)
  fix l x
  let ?bs = "block_size dc" and ?off = "unat (start - b)"
  have al: "AlignToBlockStart ?bs b = b" using align_idem [OF g] b by auto
  have off: "?off < unat ?bs" using align_offset [OF g, of start] b block_bounds [OF g] by auto
  have us: "unat start = unat b + ?off" using b align_unat [OF g, of start] by (auto simp: unat_minus_le)
  have n: "?off + length run + length rest = unat ?bs" using arg_cong [OF run, of length] e(2) off by simp
  show "block_content p dc c' l x = overwritten p dc c log start ms l x"
  proof (cases "l = log \<and> AlignToBlockStart ?bs x = b")
    case True
    then have ux: "unat (x - b) = unat x - unat b" "unat b \<le> unat x" "unat (x - b) < unat ?bs"
      using align_unat [OF g, of x] align_offset [OF g, of x] block_bounds [OF g] by (auto simp: unat_minus_le)
    have mc: "mcache e = take ?off (mcache e) @ map Some run @ rest" using run append_take_drop_id [of ?off "mcache e"] by simp
    have i: "unat (x - b) < length (take ?off (mcache e)) + length ms + length rest"
      "unat (x - b) < length (take ?off (mcache e)) + length run + length rest" using ux(3) n len e(2) off by simp_all
    have old: "block_content p dc c log x = (take ?off (mcache e) @ map Some run @ rest) ! unat (x - b)"
      using True e(1) mc by (simp add: block_content_def)
    have "block_content p dc c' l x = (take ?off (mcache e) @ map Some ms @ rest) ! unat (x - b)"
      using True by (simp add: block_content_def c')
    then show ?thesis
      using True old nth_middle [OF i(1)] nth_middle [OF i(2)] ux us len off e(2)
      by (auto simp: overwritten_def)
  next
    case False
    have "\<not> (l = log \<and> unat start \<le> unat x \<and> unat x < unat start + length ms)"
      using False in_block(1) [OF g al, of x] us n len by auto
    moreover have "block_content p dc c' l x = block_content p dc c l x" using False by (auto simp: block_content_def c')
    ultimately show ?thesis by (simp only: overwritten_def if_False)
  qed
qed

lemma overwritten_append:
  assumes "unat start2 = unat start + length ms1" and "block_content p dc c1 = overwritten p dc c log start ms1"
  shows "overwritten p dc c1 log start2 ms2 = overwritten p dc c log start (ms1 @ ms2)"
  by (intro ext) (use assms in \<open>auto simp: overwritten_def nth_append\<close>)

lemma is_run_later:
  assumes "block_content p dc c1 = overwritten p dc c log start ms1" and "unat start2 = unat start + length ms1"
    and "is_run p dc c log start2 run"
  shows "is_run p dc c1 log start2 run"
proof -
  have "unat (start2 + of_nat i) = unat start2 + i" if "i \<le> length run" for i
    using that assms(3) by (simp add: is_run_def unat_word_ariths unat_of_nat)
  then have "block_content p dc c1 log (start2 + of_nat i) = block_content p dc c log (start2 + of_nat i)" if "i \<le> length run" for i
    using that assms(1,2) by (simp add: overwritten_def)
  then show ?thesis using assms(3) by (simp add: is_run_def)
qed

lemma overwritten_same:
  assumes "is_run p dc c log start2 r2" and "unat start2 = unat start + length ms"
  shows "overwritten p dc c log start (ms @ r2) = overwritten p dc c log start ms"
proof (intro ext)
  fix l x
  show "overwritten p dc c log start (ms @ r2) l x = overwritten p dc c log start ms l x"
  proof (cases "l = log \<and> unat start2 \<le> unat x \<and> unat x < unat start2 + length r2")
    case True
    then have "x = start2 + of_nat (unat x - unat start2)" by (simp add: word_unat_eq_iff unat_word_ariths unat_of_nat mod_add_right_eq)
    then have "block_content p dc c log x = Some (r2 ! (unat x - unat start2))"
      using assms(1) True unfolding is_run_def by (metis add_diff_inverse_nat nat_add_left_cancel_less not_less)
    then show ?thesis using True assms(2) by (auto simp: overwritten_def nth_append)
  next
    case False
    then show ?thesis using assms(2) by (auto simp: overwritten_def nth_append)
  qed
qed

text \<open>What the visit of a run does, given the outcome of the reference scan.\<close>

definition visits ::
  "platform \<Rightarrow> DataCache \<Rightarrow> CacheEntry LRUCache \<Rightarrow> u64 \<Rightarrow> SequenceNumber \<Rightarrow> failure + nat \<times> bool \<times> MessageData list \<times> 's \<Rightarrow>
     (failure + SequenceNumber \<times> CacheEntry LRUCache \<times> 's) option \<Rightarrow> bool"
where
  "visits p dc c log start scanned result \<longleftrightarrow>
     (case scanned of
        Inl err \<Rightarrow> result = Some (Inl err)
      | Inr (n, stop, ms, s') \<Rightarrow> \<exists>c'. result = Some (Inr (start + of_nat n, c', s')) \<and> blocks_ok p dc c'
          \<and> block_content p dc c' = overwritten p dc c log start ms)"

lemma visit_loop_absent:
  assumes "blocks_ok p dc c" and "cached c (cache_key p log b) = None" and "AlignToBlockStart (block_size dc) b = b"
  shows "visit_loop p dc log t visit start b c s = Some (Inr (start, c, s))"
proof -
  have "LRUCache_Lookup c (cache_key p log b) = Inr (None, c)"
    using assms(1,2) by (intro Lookup_absent) (simp_all add: blocks_ok_def)
  then show ?thesis using assms(3) by (subst visit_loop.simps) (simp add: visit_block_def GenerateKey_def)
qed

lemma run_Nil: "is_run p dc c log start run \<Longrightarrow> block_content p dc c log start = None \<Longrightarrow> run = []"
  by (cases run) (auto simp: is_run_def)

lemma overwritten_Nil: "overwritten p dc c log start [] = block_content p dc c"
  by (intro ext) (auto simp: overwritten_def)

lemma run_pos: "is_run p dc c log start run \<Longrightarrow> i \<le> length run \<Longrightarrow> unat (start + of_nat i) = unat start + i"
  by (simp add: is_run_def unat_word_ariths unat_of_nat)

text \<open>The run ends inside the block.\<close>

lemma visit_loop_inside:
  assumes ok: "blocks_ok p dc c" and wf: "cache_wf dc" and gentle: "gentle visit"
    and b: "AlignToBlockStart (block_size dc) start = b" and e: "cached c (cache_key p log b) = Some e"
    and split: "drop (unat (start - b)) (mcache e) = map Some run @ rest" "stops_at rest" and "rest \<noteq> []"
  shows "\<exists>sel. may_skip t sel run \<and> visits p dc c log start (scan visit (zip sel run) s) (visit_loop p dc log t visit start b c s)"
proof -
  have g: "good_block (block_size dc)" using wf by (simp add: cache_wf_def)
  have bo: "block_ok p dc (cache_key p log b) e" using ok e by (simp add: blocks_ok_def)
  have len: "length (mcache e) = unat (block_size dc)" using block_ok_key(1) [OF bo] by (simp add: entry_ok_def)
  have r: "is_run p dc c log start run" "start + of_nat (length run) < b + block_size dc"
    using run_in_block(1) [OF ok g b e split] assms(8) by simp_all
  from visit_block_spec [OF ok wf gentle b e split, of t s] obtain sel where sel: "may_skip t sel run"
    "case scan visit (zip sel run) s of
       Inl err \<Rightarrow> visit_block p dc log t visit start b c s = Inl err
     | Inr (n, stop, ms, s') \<Rightarrow> \<exists>c'. visit_block p dc log t visit start b c s = Inr (Some (start + of_nat n, stop), c', s')
         \<and> blocks_ok p dc c' \<and> cached c' = (cached c)(cache_key p log b :=
             Some (e\<lparr> mcache := take (unat (start - b)) (mcache e) @ map Some ms @ rest \<rparr>))" by blast
  have "visits p dc c log start (scan visit (zip sel run) s) (visit_loop p dc log t visit start b c s)"
  proof (cases "scan visit (zip sel run) s")
    case (Inl err)
    then show ?thesis using sel(2) by (subst visit_loop.simps) (simp add: visits_def)
  next
    case (Inr x)
    obtain n stop ms s' where x: "x = (n, stop, ms, s')" by (cases x)
    obtain c' where c': "visit_block p dc log t visit start b c s = Inr (Some (start + of_nat n, stop), c', s')"
      "blocks_ok p dc c'" "cached c' = (cached c)(cache_key p log b :=
         Some (e\<lparr> mcache := take (unat (start - b)) (mcache e) @ map Some ms @ rest \<rparr>))" using sel(2) Inr x by auto
    have n: "length ms = length run" "n \<le> length run" using scan_result [OF Inr [unfolded x]] sel(1) by (simp_all add: may_skip_def)
    have "start + of_nat n \<le> start + of_nat (length run)" using run_pos [OF r(1) n(2)] run_pos [OF r(1) order_refl] n(2) by (simp add: word_le_nat_alt)
    then have "visit_loop p dc log t visit start b c s = Some (Inr (start + of_nat n, c', s'))"
      using c'(1) r(2) by (subst visit_loop.simps) auto
    then show ?thesis using Inr x c'(2) block_overwritten [OF g b e len split(1) n(1) c'(3)] by (simp add: visits_def)
  qed
  then show ?thesis using sel(1) by blast
qed

text \<open>The run goes on in the next block.\<close>

lemma visit_loop_through:
  assumes ok: "blocks_ok p dc c" and wf: "cache_wf dc" and gentle: "gentle visit"
    and b: "AlignToBlockStart (block_size dc) start = b" and e: "cached c (cache_key p log b) = Some e"
    and split: "drop (unat (start - b)) (mcache e) = map Some r1 @ []" and r2: "is_run p dc c log (b + block_size dc) r2"
    and rest: "\<And>c' s'. blocks_ok p dc c' \<Longrightarrow> is_run p dc c' log (b + block_size dc) r2 \<Longrightarrow> \<exists>sel. may_skip t sel r2 \<and>
        visits p dc c' log (b + block_size dc) (scan visit (zip sel r2) s') (visit_loop p dc log t visit (b + block_size dc) (b + block_size dc) c' s')"
  shows "\<exists>sel. may_skip t sel (r1 @ r2) \<and>
    visits p dc c log start (scan visit (zip sel (r1 @ r2)) s) (visit_loop p dc log t visit start b c s)"
proof -
  have g: "good_block (block_size dc)" using wf by (simp add: cache_wf_def)
  have bo: "block_ok p dc (cache_key p log b) e" using ok e by (simp add: blocks_ok_def)
  have len: "length (mcache e) = unat (block_size dc)" using block_ok_key(1) [OF bo] by (simp add: entry_ok_def)
  note nb = next_block [OF g block_ok_key(3,2) [OF bo]]
  have stops: "stops_at []" by (simp add: stops_at_def)
  have r: "is_run p dc c log start (r1 @ r2)" "start + of_nat (length r1) = b + block_size dc"
    using run_in_block(2) [OF ok g b e split stops refl r2] by simp_all
  have pos: "unat (b + block_size dc) = unat start + length r1" using run_pos [OF r(1), of "length r1"] r(2) by simp
  let ?keep = "replicate (length r2) True"
  have keep: "may_skip t sel1 r1 \<Longrightarrow> may_skip t (sel1 @ ?keep) (r1 @ r2)" for sel1
    by (rule may_skip_append) (simp_all add: may_skip_def)
  from visit_block_spec [OF ok wf gentle b e split stops, of t s] obtain sel1 where sel1: "may_skip t sel1 r1"
    "case scan visit (zip sel1 r1) s of
       Inl err \<Rightarrow> visit_block p dc log t visit start b c s = Inl err
     | Inr (n, stop, ms, s') \<Rightarrow> \<exists>c'. visit_block p dc log t visit start b c s = Inr (Some (start + of_nat n, stop), c', s')
         \<and> blocks_ok p dc c' \<and> cached c' = (cached c)(cache_key p log b :=
             Some (e\<lparr> mcache := take (unat (start - b)) (mcache e) @ map Some ms @ [] \<rparr>))" by blast
  have z: "zip (sel1 @ sel2) (r1 @ r2) = zip sel1 r1 @ zip sel2 r2" for sel2 using sel1(1) by (simp add: may_skip_def zip_append)
  show ?thesis
  proof (cases "scan visit (zip sel1 r1) s")
    case (Inl err)
    then have "visits p dc c log start (scan visit (zip (sel1 @ ?keep) (r1 @ r2)) s) (visit_loop p dc log t visit start b c s)"
      using sel1(2) by (subst visit_loop.simps) (simp add: visits_def z scan_append)
    then show ?thesis using keep [OF sel1(1)] by blast
  next
    case (Inr x)
    obtain n stop ms s' where x: "x = (n, stop, ms, s')" by (cases x)
    obtain c' where c': "visit_block p dc log t visit start b c s = Inr (Some (start + of_nat n, stop), c', s')"
      "blocks_ok p dc c'" "cached c' = (cached c)(cache_key p log b :=
         Some (e\<lparr> mcache := take (unat (start - b)) (mcache e) @ map Some ms @ [] \<rparr>))" using sel1(2) Inr x by auto
    have n: "length ms = length r1" "\<not> stop \<longrightarrow> n = length r1" using scan_result [OF Inr [unfolded x]] sel1(1) by (simp_all add: may_skip_def)
    note ov = block_overwritten [OF g b e len split n(1) c'(3)]
    show ?thesis
    proof (cases stop)
      case True
      then have "visit_loop p dc log t visit start b c s = Some (Inr (start + of_nat n, c', s'))"
        using c'(1) by (subst visit_loop.simps) simp
      moreover have "overwritten p dc c log start (ms @ r2) = overwritten p dc c log start ms"
        using pos n(1) by (intro overwritten_same [OF r2]) simp
      ultimately have "visits p dc c log start (scan visit (zip (sel1 @ ?keep) (r1 @ r2)) s) (visit_loop p dc log t visit start b c s)"
        using True Inr x c'(2) ov by (simp add: visits_def z scan_append)
      then show ?thesis using keep [OF sel1(1)] by blast
    next
      case False
      have loop: "visit_loop p dc log t visit start b c s = visit_loop p dc log t visit (b + block_size dc) (b + block_size dc) c' s'"
        using c'(1) False n(2) r(2) nb(2) by (subst visit_loop.simps) simp
      have "is_run p dc c' log (b + block_size dc) r2" using pos n(1) by (intro is_run_later [OF ov _ r2]) simp
      from rest [OF c'(2) this] obtain sel2 where sel2: "may_skip t sel2 r2"
        "visits p dc c' log (b + block_size dc) (scan visit (zip sel2 r2) s') (visit_loop p dc log t visit (b + block_size dc) (b + block_size dc) c' s')"
        by blast
      have ap: "overwritten p dc c' log (b + block_size dc) ms2 = overwritten p dc c log start (ms @ ms2)" for ms2
        using pos n(1) by (intro overwritten_append [OF _ ov]) simp
      have pos2: "b + block_size dc + of_nat k = start + of_nat (n + k)" for k using r(2) n(2) False by (simp add: add.assoc)
      have "visits p dc c log start (scan visit (zip (sel1 @ sel2) (r1 @ r2)) s) (visit_loop p dc log t visit start b c s)"
        using sel2(2) False Inr x
        by (auto simp: visits_def z scan_append loop ap pos2 split: sum.splits)
      then show ?thesis using may_skip_append [OF sel1(1) sel2(1)] by blast
    qed
  qed
qed

lemma visit_loop_spec:
  assumes "blocks_ok p dc c" and wf: "cache_wf dc" and gentle: "gentle visit"
    and "AlignToBlockStart (block_size dc) start = b" and "is_run p dc c log start run"
  shows "\<exists>sel. may_skip t sel run \<and> visits p dc c log start (scan visit (zip sel run) s) (visit_loop p dc log t visit start b c s)"
  using assms(1,4,5)
proof (induction "2 ^ 64 - unat b" arbitrary: b start c s run rule: less_induct)
  case less
  note ok = less.prems(1) and b = less.prems(2) and isrun = less.prems(3)
  have g: "good_block (block_size dc)" using wf by (simp add: cache_wf_def)
  have al: "AlignToBlockStart (block_size dc) b = b" using align_idem [OF g] b by auto
  show ?case
  proof (cases "cached c (cache_key p log b)")
    case None
    then have "block_content p dc c log start = None" using b by (simp add: block_content_def)
    then have "run = []" by (rule run_Nil [OF isrun])
    then show ?thesis using ok
      by (intro exI [of _ "[]"]) (simp add: may_skip_def visits_def overwritten_Nil visit_loop_absent [OF ok None al])
  next
    case (Some e)
    have bo: "block_ok p dc (cache_key p log b) e" using ok Some by (simp add: blocks_ok_def)
    note nb = next_block [OF g al block_ok_key(2) [OF bo]]
    obtain r1 rest where split: "drop (unat (start - b)) (mcache e) = map Some r1 @ rest" "stops_at rest"
      using split_run by blast
    show ?thesis
    proof (cases "rest = []")
      case False
      then have "run = r1" using run_in_block(1) [OF ok g b Some split] is_run_unique [OF isrun] by blast
      then show ?thesis using visit_loop_inside [OF ok wf gentle b Some split False] by simp
    next
      case True
      obtain r2 where r2: "is_run p dc c log (b + block_size dc) r2" using is_run_exists [OF ok g] by blast
      then have run: "run = r1 @ r2" using run_in_block(2) [OF ok g b Some split True r2] is_run_unique [OF isrun] by blast
      have "2 ^ 64 - unat (b + block_size dc) < 2 ^ 64 - unat b"
        using nb(1) conjunct1 [OF block_bounds [OF g]] unsigned_less [of "b + block_size dc", where ?'a = nat]
        by (intro diff_less_mono2) simp_all
      note IH = less.hyps [OF this _ nb(2)]
      show ?thesis unfolding run
        by (rule visit_loop_through [OF ok wf gentle b Some split(1) [unfolded True] r2]) (rule IH)
    qed
  qed
qed

section \<open>The operations on the contents\<close>

definition cached_run :: "platform \<Rightarrow> DataCache \<Rightarrow> u64 \<Rightarrow> SequenceNumber \<Rightarrow> MessageData list \<Rightarrow> bool" where
  "cached_run p dc log start run \<longleftrightarrow> unat start + length run < 2 ^ 64
     \<and> (\<forall>i < length run. content p dc log (start + of_nat i) = Some (run ! i))
     \<and> content p dc log (start + of_nat (length run)) = None"

definition rewritten :: "platform \<Rightarrow> DataCache \<Rightarrow> u64 \<Rightarrow> SequenceNumber \<Rightarrow> MessageData list \<Rightarrow> u64 \<Rightarrow> SequenceNumber \<Rightarrow> MessageData option" where
  "rewritten p dc log start ms l x =
     (if l = log \<and> unat start \<le> unat x \<and> unat x < unat start + length ms
      then Some (ms ! (unat x - unat start)) else content p dc l x)"

text \<open>A visit agrees with the reference scan.\<close>

definition visit_agrees ::
  "platform \<Rightarrow> DataCache \<Rightarrow> u64 \<Rightarrow> SequenceNumber \<Rightarrow> failure + nat \<times> bool \<times> MessageData list \<times> 's \<Rightarrow>
     (failure + SequenceNumber \<times> DataCache \<times> 's) option \<Rightarrow> bool"
where
  "visit_agrees p dc log start scanned result \<longleftrightarrow>
     (case scanned of
        Inl err \<Rightarrow> result = Some (Inl err)
      | Inr (n, stop, ms, s') \<Rightarrow> \<exists>c. result = Some (Inr (start + of_nat n, dc\<lparr> rs_cache := c \<rparr>, s'))
          \<and> dc_inv p (dc\<lparr> rs_cache := c \<rparr>) \<and> content p (dc\<lparr> rs_cache := c \<rparr>) = rewritten p dc log start ms)"

lemma content_Some: "rs_cache dc = Some c \<Longrightarrow> content p dc = block_content p dc c"
  by (intro ext) (simp add: content_def)

lemma VisitCache_spec:
  assumes inv: "dc_inv p dc" and gentle: "gentle visit"
  shows "\<exists>run sel. cached_run p dc log start run \<and> may_skip t sel run
    \<and> visit_agrees p dc log start (scan visit (zip sel run) s) (VisitCache p dc log start t visit s)"
proof (cases "rs_cache dc")
  case None
  have same: "dc\<lparr> rs_cache := None \<rparr> = dc" using None by (cases dc) simp
  have "unat start < 2 ^ 64" using unsigned_less [of start, where ?'a = nat] by simp
  then have "cached_run p dc log start []" using None by (simp add: cached_run_def content_def)
  moreover have "rewritten p dc log start [] = content p dc" by (intro ext) (auto simp: rewritten_def)
  then have "visit_agrees p dc log start (scan visit (zip [] []) s) (VisitCache p dc log start t visit s)"
    using None inv by (auto simp: visit_agrees_def VisitCache_def same intro!: exI [of _ None])
  ultimately show ?thesis by (intro exI [of _ "[]"]) (simp add: may_skip_def)
next
  case (Some c)
  have wf: "cache_wf dc" and ok: "blocks_ok p dc c" using inv Some by (simp_all add: dc_inv_def)
  have g: "good_block (block_size dc)" using wf by (simp add: cache_wf_def)
  have pinned: "GetPinnedUsage c = Inr 0" using ok by (simp add: blocks_ok_def unpinned_pinned_usage)
  obtain run where run: "is_run p dc c log start run" using is_run_exists [OF ok g] by blast
  obtain sel where sel: "may_skip t sel run" "visits p dc c log start (scan visit (zip sel run) s)
      (visit_loop p dc log t visit start (AlignToBlockStart (block_size dc) start) c s)"
    using visit_loop_spec [OF ok wf gentle refl run] by blast
  have "cached_run p dc log start run" using run by (simp add: is_run_def cached_run_def content_Some [OF Some])
  moreover have ov: "overwritten p dc c log start ms = rewritten p dc log start ms" for ms
    by (intro ext) (simp add: overwritten_def rewritten_def content_Some [OF Some])
  have "visit_agrees p dc log start (scan visit (zip sel run) s) (VisitCache p dc log start t visit s)"
  proof (cases "scan visit (zip sel run) s")
    case (Inl err)
    then show ?thesis using sel(2) Some pinned by (simp add: visits_def visit_agrees_def VisitCache_def)
  next
    case (Inr x)
    obtain n stop ms s' where x: "x = (n, stop, ms, s')" by (cases x)
    obtain c' where c': "visit_loop p dc log t visit start (AlignToBlockStart (block_size dc) start) c s = Some (Inr (start + of_nat n, c', s'))"
      "blocks_ok p dc c'" "block_content p dc c' = overwritten p dc c log start ms"
      using sel(2) Inr x by (auto simp: visits_def)
    have "content p (dc\<lparr> rs_cache := Some c' \<rparr>) = rewritten p dc log start ms"
      using c'(3) ov by (intro ext) (simp add: content_def)
    moreover have "dc_inv p (dc\<lparr> rs_cache := Some c' \<rparr>)" using wf c'(2) by (simp add: dc_inv_def)
    moreover have "VisitCache p dc log start t visit s = Some (Inr (start + of_nat n, dc\<lparr> rs_cache := Some c' \<rparr>, s'))"
      using Some pinned c'(1) by (simp add: VisitCache_def)
    ultimately show ?thesis using Inr x by (auto simp: visit_agrees_def)
  qed
  ultimately show ?thesis using sel(1) by blast
qed

text \<open>A callback that passes over the messages of other topics cannot tell which of them it is spared.\<close>

definition ignores_others :: "slice \<Rightarrow> 's visitor \<Rightarrow> bool" where
  "ignores_others t visit \<longleftrightarrow> t = [] \<or> (\<forall>m s. data_topic_name m \<noteq> t \<longrightarrow> visit m s = Inr (True, m, s))"

lemma scan_ignores:
  assumes "ignores_others t visit"
  shows "may_skip t sel run \<Longrightarrow> scan visit (zip sel run) s = scan visit (map (Pair True) run) s"
proof (induction run arbitrary: sel s)
  case (Cons m run)
  then obtain b bs where sel: "sel = b # bs" by (cases sel) (auto simp: may_skip_def)
  have bs: "may_skip t bs run" using Cons.prems unfolding sel may_skip_def by auto
  then have snds: "map snd (zip bs run) = run" by (simp add: may_skip_def)
  note IH = Cons.IH [OF bs]
  show ?case
  proof (cases b)
    case True
    then show ?thesis using IH sel snds by (simp add: case_prod_unfold comp_def cong: if_cong)
  next
    case False
    then have "t \<noteq> []" "data_topic_name m \<noteq> t" using Cons.prems sel unfolding may_skip_def by force+
    then have "visit m s = Inr (True, m, s)" using assms by (simp add: ignores_others_def)
    then show ?thesis using IH sel False by simp
  qed
qed (simp add: may_skip_def)

lemma cache_unchanged: "\<exists>c. dc = dc\<lparr> rs_cache := c \<rparr>"
  by (rule exI [of _ "rs_cache dc"]) simp

lemma HasEntry_spec:
  assumes inv: "dc_inv p dc"
  shows "\<exists>dc'. DataCache_HasEntry p dc log n = Inr (content p dc log n \<noteq> None, dc') \<and> dc_inv p dc' \<and> content p dc' = content p dc
    \<and> (\<exists>c. dc' = dc\<lparr> rs_cache := c \<rparr>)"
proof (cases "rs_cache dc")
  case None
  then show ?thesis using inv cache_unchanged by (auto simp: DataCache_HasEntry_def content_def)
next
  case (Some c)
  let ?b = "AlignToBlockStart (block_size dc) n"
  let ?k = "cache_key p log ?b"
  have wf: "cache_wf dc" and ok: "blocks_ok p dc c" using inv Some by (simp_all add: dc_inv_def)
  have g: "good_block (block_size dc)" using wf by (simp add: cache_wf_def)
  have lru: "lru_inv c" "unpinned c" using ok by (simp_all add: blocks_ok_def)
  have key: "GenerateKey p (block_size dc) log ?b = Inr ?k" using align_idem [OF g] by (simp add: GenerateKey_def)
  show ?thesis
  proof (cases "cached c ?k")
    case None
    have same: "dc\<lparr> rs_cache := Some c \<rparr> = dc" using Some by (cases dc) simp
    have "DataCache_HasEntry p dc log n = Inr (False, dc)"
      using Some key Lookup_absent [OF None lru(1)] by (simp add: DataCache_HasEntry_def Let_def same)
    then show ?thesis using None Some inv cache_unchanged by (auto simp: content_def block_content_def)
  next
    case e: (Some e)
    from Lookup_pins [OF lru e] obtain i c1 where l: "LRUCache_Lookup c ?k = Inr (Some i, c1)" "pins c1 i ?k e"
      "cached c1 = cached c" "lc_capacity c1 = lc_capacity c" "lc_usage c1 = lc_usage c" by blast
    from Release_pins [OF l(2)] obtain c2 where c2: "LRUCache_Release c1 i = Inr c2" "lru_inv c2" "unpinned c2"
      "lc_usage c1 \<le> lc_capacity c1 \<longrightarrow> cached c2 = cached c1" by blast
    have same: "cached c2 = cached c" using c2(4) l(3,4,5) unpinned_usage [OF lru] by simp
    have "block_ok p dc ?k e" using ok e by (simp add: blocks_ok_def)
    then have "slot_ok p ?b (unat (n - ?b)) (mcache e ! unat (n - ?b)) (hcache e ! unat (n - ?b))"
      using align_offset [OF g, of n] block_bounds [OF g] block_ok_key(1) by (auto simp: entry_ok_def)
    then have "CacheEntry_HasEntry (unat (n - ?b)) e = Inr (mcache e ! unat (n - ?b) \<noteq> None)"
      by (auto simp: CacheEntry_HasEntry_def slot_ok_def split: option.splits)
    then have "DataCache_HasEntry p dc log n = Inr (mcache e ! unat (n - ?b) \<noteq> None, dc\<lparr> rs_cache := Some c2 \<rparr>)"
      using Some key l(1) pins_cached(2) [OF l(2)] c2(1) by (simp add: DataCache_HasEntry_def Let_def)
    moreover have "dc_inv p (dc\<lparr> rs_cache := Some c2 \<rparr>)" using wf ok c2(2,3) same by (simp add: dc_inv_def blocks_ok_def)
    moreover have "block_content p dc c2 = block_content p dc c" by (simp add: block_content_def [abs_def] same)
    then have "content p (dc\<lparr> rs_cache := Some c2 \<rparr>) = content p dc" using Some by (intro ext) (simp add: content_def)
    moreover have "content p dc log n = mcache e ! unat (n - ?b)" using Some e by (simp add: content_def block_content_def)
    ultimately show ?thesis by auto
  qed
qed

lemma blocks_ok_new: "blocks_ok p dc (LRUCache_new cap)" "cached (LRUCache_new cap) = Map.empty"
proof -
  show e: "cached (LRUCache_new cap) = Map.empty" by (intro ext) (simp add: cached_def LRUCache_new_def)
  show "blocks_ok p dc (LRUCache_new cap)" by (simp add: blocks_ok_def lru_inv_new unpinned_new e)
qed

lemma content_new: "content p (dc\<lparr> rs_cache := Some (LRUCache_new cap) \<rparr>) l n = None"
  by (simp add: content_def block_content_def blocks_ok_new)

lemma ClearCache_spec:
  assumes "dc_inv p dc"
  shows "dc_inv p (ClearCache dc) \<and> content p (ClearCache dc) l n = None"
proof (cases "rs_cache dc")
  case None
  then show ?thesis using assms by (simp add: ClearCache_def content_def)
next
  case (Some c)
  then show ?thesis using assms content_new by (simp add: ClearCache_def dc_inv_def blocks_ok_new)
qed

lemma SetCapacity_content:
  assumes "dc_inv p dc"
  shows "\<exists>dc'. DataCache_SetCapacity dc cap = Inr dc' \<and> dc_inv p dc' \<and> DataCache_GetCapacity dc' = cap
    \<and> DataCache_GetUsage dc' \<le> cap
    \<and> (\<forall>l n m. content p dc' l n = Some m \<longrightarrow> content p dc l n = Some m)"
proof -
  have wf: "cache_wf dc" using assms by (simp add: dc_inv_def)
  consider (off) "cap = 0" | (start) "cap \<noteq> 0" "rs_cache dc = None" | (change) c where "cap \<noteq> 0" "rs_cache dc = Some c"
    by (cases "rs_cache dc") auto
  then show ?thesis
  proof cases
    case off
    then show ?thesis using wf
      by (simp add: DataCache_SetCapacity_def dc_inv_def content_def DataCache_GetCapacity_def DataCache_GetUsage_def)
  next
    case start
    then show ?thesis using wf content_new
      by (simp add: DataCache_SetCapacity_def dc_inv_def blocks_ok_new DataCache_GetCapacity_def DataCache_GetUsage_def
          GetUsage_def LRUCache_new_def) (simp add: LRUCache_new_def [symmetric] blocks_ok_new)
  next
    case change
    have ok: "blocks_ok p dc c" using assms change by (simp add: dc_inv_def)
    then have lru: "lru_inv c" "unpinned c" by (simp_all add: blocks_ok_def)
    from SetCapacity_spec [OF lru(1), of cap] obtain c' where c': "LRUCache_SetCapacity c cap = Inr c'" "lru_inv c'"
      "evicted (c\<lparr> lc_capacity := cap \<rparr>) c'" by blast
    have "call_ok c (CallSetCapacity cap)" by (rule call_ok_all [OF lru(1)]) simp
    then have le: "cached c' \<subseteq>\<^sub>m cached c" using c'(1) by (simp add: call_ok_def)
    have un: "unpinned c'" using evicted_unheld [OF c'(3)] lru(2) by (simp add: unpinned_def)
    have ok': "blocks_ok p dc c'" using ok c'(2) un map_le_Some [OF le] by (auto simp: blocks_ok_def)
    have cap: "lc_capacity c' = cap" using c'(3) by (simp add: evicted_def)
    have "lc_usage c' \<le> cap" using unpinned_usage [OF c'(2) un] cap by simp
    moreover have "content p dc l n = Some m" if "content p (dc\<lparr> rs_cache := Some c' \<rparr>) l n = Some m" for l n m
      using that map_le_Some [OF le] change by (auto simp: content_def block_content_def split: option.splits)
    ultimately show ?thesis
      using change c'(1) cap ok' wf
      by (simp add: DataCache_SetCapacity_def dc_inv_def DataCache_GetCapacity_def DataCache_GetUsage_def GetUsage_def)
  qed
qed

lemma DataCache_new_inv:
  assumes "good_block bs" and "bits < 2 ^ 31"
  shows "\<exists>dc. DataCache_new bytes sys bits bs probes = Inr dc \<and> dc_inv p dc \<and> (\<forall>l n. content p dc l n = None)"
proof -
  have "unat (word_of_int bits :: u64) < 2 ^ 31" if "0 < bits"
  proof -
    have "uint (word_of_int bits :: u64) = bits" using that assms(2) by (simp add: uint_word_of_int)
    then show ?thesis using assms(2) that by (simp add: unat_eq_nat_uint nat_less_iff)
  qed
  moreover have "bloom_initialize probes \<le> 30" by (auto simp: bloom_initialize_def Let_def not_less)
  ultimately show ?thesis
    using assms(1)
    by (auto simp: DataCache_new_def Let_def dc_inv_def cache_wf_def good_block_def blocks_ok_new BloomFilterPolicy_new_def
        content_def block_content_def)
qed

lemma content_seqno:
  assumes "dc_inv p dc" and "content p dc log n = Some x"
  shows "data_seqno x = n"
proof -
  let ?b = "AlignToBlockStart (block_size dc) n"
  obtain c e where c: "rs_cache dc = Some c" "cached c (cache_key p log ?b) = Some e" "mcache e ! unat (n - ?b) = Some x"
    using assms(2) by (auto simp: content_def block_content_def split: option.splits)
  have g: "good_block (block_size dc)" and "block_ok p dc (cache_key p log ?b) e"
    using assms(1) c by (auto simp: dc_inv_def cache_wf_def blocks_ok_def)
  then have "slot_ok p ?b (unat (n - ?b)) (mcache e ! unat (n - ?b)) (hcache e ! unat (n - ?b))"
    using align_offset [OF g, of n] block_bounds [OF g] block_ok_key(1) by (auto simp: entry_ok_def)
  then show ?thesis using c(3) by (simp add: slot_ok_def)
qed

section \<open>An example\<close>

definition example_platform :: platform where
  "example_platform = \<lparr> cpu = XXH_littleEndian, sizeof_MessageData = 200, sizeof_CacheEntry = 64, sizeof_unique_ptr = 8 \<rparr>"

definition example_message :: "SequenceNumber \<Rightarrow> MessageData" where
  "example_message n = \<lparr> msg_type = 0x44, tenantid = 1, data_seqno_prev = 0, data_seqno = n, data_msgid = \<lparr> guid_hi = 0, guid_lo = 0 \<rparr>,
     data_topic_name = [116], data_payload = [1, 2, 3], data_namespace_id = [110], storage_slice = [] \<rparr>"

definition example_cache :: DataCache where
  "example_cache = \<lparr> bloom_bits_per_msg = 10, block_size = 8, characteristics = 15, rs_cache = Some (LRUCache_new 1000),
     bloom_filter = Some (BloomFilterPolicy_new 10 6) \<rparr>"

definition stored_cache :: DataCache where
  "stored_cache = (case DataCache_StoreData example_platform example_cache [110] [116] 1 (example_message 8) of
     Inl _ \<Rightarrow> example_cache | Inr dc \<Rightarrow> dc)"

lemma example_cache_new: "DataCache_new 1000 True 10 8 6 = Inr example_cache"
  by (simp add: DataCache_new_def example_cache_def StoreUserTopics_def StoreSystemTopics_def StoreDataRecords_def StoreGapRecords_def)

lemma example_inv: "dc_inv example_platform example_cache"
  using DataCache_new_inv [of 8 10 1000 True 6 example_platform] by (simp add: good_block_def example_cache_new)

lemma example_storable: "storable example_platform example_cache 1 (example_message 8)"
  by (simp add: storable_def example_cache_def example_message_def example_platform_def AlignToBlockStart_def LRUCache_new_def
      charges_def GetInitialCharge_def GetTotalSize_def block_content_def cached_def)

lemma example_fits: "fits example_platform example_cache [110] 1 (example_message 8)"
  by (simp add: fits_def cache_wanted_def IsReserved_def example_cache_def example_message_def example_platform_def
      StoreUserTopics_def StoreDataRecords_def LRUCache_new_def block_charge_def GetInitialCharge_def GetTotalSize_def)

lemma stored_inv: "dc_inv example_platform stored_cache"
  "content example_platform stored_cache 1 8 = Some (example_message 8)"
proof -
  have "content example_platform example_cache 1 8 = None"
    by (simp add: example_cache_def content_def block_content_def blocks_ok_new)
  then show "dc_inv example_platform stored_cache" "content example_platform stored_cache 1 8 = Some (example_message 8)"
    using StoreData_spec [OF example_inv example_storable, of "[110]"] example_fits
    by (auto simp: stored_cache_def example_message_def)
qed

section \<open>Properties\<close>

text \<open>
  C11. \<open>VisitCache\<close> always returns, and does what the reference scan does: the callback sees, in order, messages of the
  run of consecutive cached messages that begins at the start position, until it returns
  false or the run ends; the messages left out all belong to another topic than the one
  asked for. The position returned is the one after the last message passed, and afterwards the
  cache holds what it held before, with the messages as the callback left them.
\<close>

theorem visit_cache_is_scan:
  assumes "dc_inv p dc" and "gentle visit"
  shows "\<exists>run sel. cached_run p dc log start run \<and> may_skip t sel run
    \<and> visit_agrees p dc log start (scan visit (zip sel run) s) (VisitCache p dc log start t visit s)"
  using assms by (rule VisitCache_spec)

theorem visit_cache_is_scan_witness:
  "content example_platform stored_cache 1 8 = Some (example_message 8)
   \<and> (\<exists>run sel. cached_run example_platform stored_cache 1 8 run \<and> may_skip [116] sel run
     \<and> visit_agrees example_platform stored_cache 1 8 (scan (\<lambda>m s. Inr (True, m, s + 1)) (zip sel run) (0 :: nat))
         (VisitCache example_platform stored_cache 1 8 [116] (\<lambda>m s. Inr (True, m, s + 1)) 0))"
  by (intro conjI stored_inv(2) visit_cache_is_scan [OF stored_inv(1)]) (simp add: gentle_def)

text \<open>
  C12. The topic hashes and the Bloom filters cannot be observed: for a callback that passes over messages of
  other topics than the one asked for, \<open>VisitCache\<close> does exactly what a visit of every message of the run does.
\<close>

theorem visit_cache_filters_invisible:
  assumes "dc_inv p dc" and "gentle visit" and "ignores_others t visit"
  shows "\<exists>run. cached_run p dc log start run
    \<and> visit_agrees p dc log start (scan visit (map (Pair True) run) s) (VisitCache p dc log start t visit s)"
proof -
  obtain run sel where "cached_run p dc log start run" "may_skip t sel run"
    "visit_agrees p dc log start (scan visit (zip sel run) s) (VisitCache p dc log start t visit s)"
    using VisitCache_spec [OF assms(1,2)] by blast
  then show ?thesis using scan_ignores [OF assms(3)] by metis
qed

theorem visit_cache_filters_invisible_witness:
  "\<exists>run. cached_run example_platform stored_cache 1 8 run
     \<and> visit_agrees example_platform stored_cache 1 8
         (scan (\<lambda>m s. Inr (True, m, if data_topic_name m = [116] then s + 1 else s)) (map (Pair True) run) (0 :: nat))
         (VisitCache example_platform stored_cache 1 8 [116] (\<lambda>m s. Inr (True, m, if data_topic_name m = [116] then s + 1 else s)) 0)"
  by (rule visit_cache_filters_invisible [OF stored_inv(1)]) (simp_all add: gentle_def ignores_others_def)

text \<open>
  C13. The cache keeps its invariant under every operation the control tower calls, and no assertion
  fails. A message stored under the client's contract is there afterwards if its block fits
  the capacity, nothing else appears, and a message already there stays as it is; \<open>HasEntry\<close>
  answers exactly whether a message is there; clearing removes everything; setting the capacity
  removes messages at most and brings the usage within it. Every message is found at its own
  sequence number.
\<close>

theorem data_cache_operations:
  assumes "dc_inv p dc"
  shows "(storable p dc log m \<longrightarrow>
      (\<exists>dc'. DataCache_StoreData p dc ns (data_topic_name m) log m = Inr dc' \<and> dc_inv p dc'
         \<and> (\<forall>l n x. content p dc' l n = Some x \<longrightarrow>
              content p dc l n = Some x \<or> l = log \<and> n = data_seqno m \<and> x = m \<and> content p dc l n = None)
         \<and> (fits p dc ns log m \<longrightarrow> content p dc' log (data_seqno m) =
              (case content p dc log (data_seqno m) of None \<Rightarrow> Some m | Some old \<Rightarrow> Some old))))
   \<and> (\<exists>dc'. DataCache_HasEntry p dc log n = Inr (content p dc log n \<noteq> None, dc') \<and> dc_inv p dc' \<and> content p dc' = content p dc)
   \<and> (dc_inv p (ClearCache dc) \<and> content p (ClearCache dc) log n = None)
   \<and> (\<exists>dc'. DataCache_SetCapacity dc cap = Inr dc' \<and> dc_inv p dc' \<and> DataCache_GetCapacity dc' = cap
        \<and> DataCache_GetUsage dc' \<le> cap \<and> (\<forall>l n x. content p dc' l n = Some x \<longrightarrow> content p dc l n = Some x))
   \<and> (\<forall>x. content p dc log n = Some x \<longrightarrow> data_seqno x = n)"
proof (intro conjI)
  show "storable p dc log m \<longrightarrow>
      (\<exists>dc'. DataCache_StoreData p dc ns (data_topic_name m) log m = Inr dc' \<and> dc_inv p dc'
         \<and> (\<forall>l n x. content p dc' l n = Some x \<longrightarrow>
              content p dc l n = Some x \<or> l = log \<and> n = data_seqno m \<and> x = m \<and> content p dc l n = None)
         \<and> (fits p dc ns log m \<longrightarrow> content p dc' log (data_seqno m) =
              (case content p dc log (data_seqno m) of None \<Rightarrow> Some m | Some old \<Rightarrow> Some old)))"
    using StoreData_spec [OF assms, of log m ns] by (intro impI) (elim meta_impE exE conjE, assumption, intro exI conjI)
  show "\<exists>dc'. DataCache_HasEntry p dc log n = Inr (content p dc log n \<noteq> None, dc') \<and> dc_inv p dc' \<and> content p dc' = content p dc"
    using HasEntry_spec [OF assms, of log n] by blast
  show "\<exists>dc'. DataCache_SetCapacity dc cap = Inr dc' \<and> dc_inv p dc' \<and> DataCache_GetCapacity dc' = cap
        \<and> DataCache_GetUsage dc' \<le> cap \<and> (\<forall>l n x. content p dc' l n = Some x \<longrightarrow> content p dc l n = Some x)"
    by (rule SetCapacity_content [OF assms])
qed (use ClearCache_spec [OF assms] content_seqno [OF assms] in auto)

theorem data_cache_operations_witness:
  "\<exists>dc'. DataCache_StoreData example_platform example_cache [110] (data_topic_name (example_message 8)) 1 (example_message 8) = Inr dc'
     \<and> dc_inv example_platform dc' \<and> content example_platform dc' 1 (data_seqno (example_message 8)) =
         (case content example_platform example_cache 1 (data_seqno (example_message 8)) of None \<Rightarrow> Some (example_message 8) | Some old \<Rightarrow> Some old)"
  using data_cache_operations [OF example_inv, of 1 "example_message 8" "[110]"] example_storable example_fits by blast



end
