(* ===== verification/FlowControl.thy ===== *)
theory FlowControl
  imports TimeoutList
begin

text \<open>
  \<open>src/messages/flow_control.{h,cc}\<close> and the sink with overflow of \<open>src/util/common/flow.h\<close>: backpressure from sinks to
  the sources that write to them. A source is disabled while some sink blocks it; a
  sink that could not take a write has an event armed, which lifts the backpressure once the sink has flushed.
  Sources and sinks are named by numbers. What a sink answers is an argument of the operations, the flag that
  \<open>SetReadEnabled\<close> sets and whether a read callback is registered belong to the state;
  statistics and logging are left out.
\<close>

section \<open>Sinks with overflow\<close>

text \<open>
  \<open>TryWrite\<close> is virtual: it answers whether the value was written and returns the new state of the
  sink. The overflow queue is the list of the values not yet written.
\<close>

type_synonym ('q, 't) TryWrite = "'q \<Rightarrow> 't \<Rightarrow> bool \<times> 'q"

fun FlushPending :: "('q, 't) TryWrite \<Rightarrow> 'q \<Rightarrow> 't list \<Rightarrow> bool \<times> 'q \<times> 't list" where
  "FlushPending try_write q [] = (True, q, [])"
| "FlushPending try_write q (v # overflow) =
     (let (written, q) = try_write q v
      in if written then FlushPending try_write q overflow else (False, q, v # overflow))"

definition Sink_Write :: "('q, 't) TryWrite \<Rightarrow> 'q \<Rightarrow> 't list \<Rightarrow> 't \<Rightarrow> bool \<times> 'q \<times> 't list" where
  "Sink_Write try_write q overflow value =
     (let (flushed, q, overflow) = FlushPending try_write q overflow
      in if flushed
         then let (written, q) = try_write q value
              in if written then (True, q, overflow) else (False, q, overflow @ [value])
         else (False, q, overflow @ [value]))"

section \<open>Flow control\<close>

type_synonym source_ptr = nat
type_synonym sink_ptr = nat

text \<open>The sets of pointers are lists without repetition. The write event of a sink is created lazily; it is enabled or not.\<close>

record SinkState =
  backpressure :: "source_ptr list"
  write_event :: "bool option"

record SourceState =
  blockers :: "sink_ptr list"
  blocked_since :: clock

record FlowControl =
  sinks :: "(sink_ptr, SinkState) umap"
  sources :: "(source_ptr, SourceState) umap"
  warning_timer :: bool
  blocked_sources :: "source_ptr TimeoutList"
  read_enabled :: "source_ptr \<Rightarrow> bool"
  has_read_callback :: "source_ptr \<Rightarrow> bool"

definition FlowControl_new :: FlowControl where
  "FlowControl_new = \<lparr> sinks = [], sources = [], warning_timer = False, blocked_sources = linked_new,
     read_enabled = (\<lambda>_. False), has_read_callback = (\<lambda>_. False) \<rparr>"

definition SetReadEnabled :: "source_ptr \<Rightarrow> bool \<Rightarrow> FlowControl \<Rightarrow> FlowControl" where
  "SetReadEnabled source enabled fc = fc\<lparr> read_enabled := (read_enabled fc)(source := enabled) \<rparr>"

definition Register :: "source_ptr \<Rightarrow> FlowControl \<Rightarrow> failure + FlowControl" where
  "Register source fc =
     andThen (rs_assert (\<not> has_read_callback fc source)) (\<lambda>_.
       Inr (SetReadEnabled source True (fc\<lparr> has_read_callback := (has_read_callback fc)(source := True) \<rparr>)))"

text \<open>\<open>sinks_[sink]\<close> and \<open>sources_[source]\<close> create an empty state when there is none.\<close>

definition sink_state :: "FlowControl \<Rightarrow> sink_ptr \<Rightarrow> SinkState" where
  "sink_state fc sink = (case umap_find (sinks fc) sink of None \<Rightarrow> \<lparr> backpressure = [], write_event = None \<rparr> | Some s \<Rightarrow> s)"

definition source_state :: "FlowControl \<Rightarrow> source_ptr \<Rightarrow> SourceState" where
  "source_state fc source = (case umap_find (sources fc) source of None \<Rightarrow> \<lparr> blockers = [], blocked_since = 0 \<rparr> | Some s \<Rightarrow> s)"

definition set_sink :: "sink_ptr \<Rightarrow> SinkState \<Rightarrow> FlowControl \<Rightarrow> FlowControl" where
  "set_sink sink s fc = fc\<lparr> sinks := umap_set (sinks fc) sink s \<rparr>"

definition set_source :: "source_ptr \<Rightarrow> SourceState \<Rightarrow> FlowControl \<Rightarrow> FlowControl" where
  "set_source source s fc = fc\<lparr> sources := umap_set (sources fc) source s \<rparr>"

text \<open>\<open>GetSinkWriteEvent(sink)->Enable()\<close>.\<close>

definition EnableSinkWriteEvent :: "sink_ptr \<Rightarrow> FlowControl \<Rightarrow> FlowControl" where
  "EnableSinkWriteEvent sink fc = set_sink sink ((sink_state fc sink)\<lparr> write_event := Some True \<rparr>) fc"

definition ApplyBackpressure :: "clock \<Rightarrow> sink_ptr \<Rightarrow> source_ptr \<Rightarrow> FlowControl \<Rightarrow> FlowControl" where
  "ApplyBackpressure now sink source fc =
     (let fc = set_source source (source_state fc source) (set_sink sink (sink_state fc sink) fc);
          fc = SetReadEnabled source False fc;
          fc = (if blockers (source_state fc source) = []
                then set_source source ((source_state fc source)\<lparr> blocked_since := now \<rparr>)
                       (fc\<lparr> blocked_sources := TimeoutList_Add now source (blocked_sources fc), warning_timer := True \<rparr>)
                else fc);
          ks = sink_state fc sink
      in if source \<in> set (backpressure ks) then fc
         else let fc = set_sink sink (ks\<lparr> backpressure := backpressure ks @ [source] \<rparr>) fc;
                  ss = source_state fc source
              in set_source source (ss\<lparr> blockers := List.insert sink (blockers ss) \<rparr>) fc)"

text \<open>\<open>FlowControl::Write\<close>; \<open>accepted\<close> is what \<open>sink->Write(value)\<close> returns.\<close>

definition FlowControl_Write ::
  "clock \<Rightarrow> source_ptr option \<Rightarrow> sink_ptr \<Rightarrow> bool \<Rightarrow> FlowControl \<Rightarrow> bool \<times> FlowControl" where
  "FlowControl_Write now source sink accepted fc =
     (if \<not> accepted
      then let fc = (case source of None \<Rightarrow> fc | Some s \<Rightarrow> ApplyBackpressure now sink s fc)
           in (False, EnableSinkWriteEvent sink fc)
      else (True, fc))"

record Flow =
  flow_source :: "source_ptr option"
  write_failed :: bool

definition Flow_new :: "source_ptr option \<Rightarrow> Flow" where
  "Flow_new source = \<lparr> flow_source = source, write_failed = False \<rparr>"

definition Flow_Write ::
  "clock \<Rightarrow> sink_ptr \<Rightarrow> bool \<Rightarrow> Flow \<Rightarrow> FlowControl \<Rightarrow> bool \<times> Flow \<times> FlowControl" where
  "Flow_Write now sink accepted flow fc =
     (let (written, fc) = FlowControl_Write now (flow_source flow) sink accepted fc;
          flow = flow\<lparr> write_failed := write_failed flow \<or> \<not> written \<rparr>
      in (\<not> write_failed flow, flow, fc))"

definition WriteHasFailed :: "Flow \<Rightarrow> bool" where
  "WriteHasFailed flow = write_failed flow"

text \<open>One round of the loop of \<open>RemoveBackpressure\<close>.\<close>

definition remove_blocker :: "sink_ptr \<Rightarrow> source_ptr \<Rightarrow> FlowControl \<Rightarrow> failure + FlowControl" where
  "remove_blocker sink source fc =
     (case umap_find (sources fc) source of
        None \<Rightarrow> Inl Assert_failed
      | Some ss \<Rightarrow>
          andThen (rs_assert (blockers ss \<noteq> [])) (\<lambda>_.
          andThen (rs_assert (sink \<in> set (blockers ss))) (\<lambda>_.
            let ss = ss\<lparr> blockers := removeAll sink (blockers ss) \<rparr>;
                fc = set_source source ss fc
            in Inr (if blockers ss = []
                    then (SetReadEnabled source True fc)\<lparr> blocked_sources := snd (TimeoutList_Erase source (blocked_sources fc)) \<rparr>
                    else fc))))"

fun remove_blockers :: "sink_ptr \<Rightarrow> source_ptr list \<Rightarrow> FlowControl \<Rightarrow> failure + FlowControl" where
  "remove_blockers sink [] fc = Inr fc"
| "remove_blockers sink (source # rest) fc = andThen (remove_blocker sink source fc) (remove_blockers sink rest)"

definition RemoveBackpressure :: "sink_ptr \<Rightarrow> FlowControl \<Rightarrow> failure + FlowControl" where
  "RemoveBackpressure sink fc =
     (let fc = set_sink sink (sink_state fc sink) fc;
          blocked = backpressure (sink_state fc sink)
      in andThen (remove_blockers sink blocked fc) (\<lambda>fc.
           Inr (if blocked \<noteq> [] then set_sink sink ((sink_state fc sink)\<lparr> backpressure := [] \<rparr>) fc else fc)))"

text \<open>The callback of the write event of a sink; \<open>flushed\<close> is what \<open>sink->FlushPending()\<close> returns.\<close>

definition on_write_event :: "sink_ptr \<Rightarrow> bool \<Rightarrow> FlowControl \<Rightarrow> failure + FlowControl" where
  "on_write_event sink flushed fc =
     (case write_event (sink_state fc sink) of
        None \<Rightarrow> Inl Assert_failed
      | Some _ \<Rightarrow>
          let fc = set_sink sink ((sink_state fc sink)\<lparr> write_event := Some False \<rparr>) fc
          in if flushed then RemoveBackpressure sink fc
             else Inr (set_sink sink ((sink_state fc sink)\<lparr> write_event := Some True \<rparr>) fc))"

text \<open>The loop of \<open>UnregisterSource\<close> over the sinks that block the source.\<close>

fun unblock_sinks :: "source_ptr \<Rightarrow> sink_ptr list \<Rightarrow> FlowControl \<Rightarrow> failure + FlowControl" where
  "unblock_sinks source [] fc = Inr fc"
| "unblock_sinks source (sink # rest) fc =
     (case umap_find (sinks fc) sink of
        None \<Rightarrow> Inl Assert_failed
      | Some ks \<Rightarrow>
          andThen (rs_assert (source \<in> set (backpressure ks))) (\<lambda>_.
            unblock_sinks source rest (set_sink sink (ks\<lparr> backpressure := removeAll source (backpressure ks) \<rparr>) fc)))"

definition UnregisterSource :: "source_ptr \<Rightarrow> FlowControl \<Rightarrow> failure + FlowControl" where
  "UnregisterSource source fc =
     (let fc = SetReadEnabled source False fc
      in case umap_find (sources fc) source of
           None \<Rightarrow> Inr fc
         | Some ss \<Rightarrow>
             andThen (unblock_sinks source (blockers ss) fc) (\<lambda>fc.
               Inr (fc\<lparr> blocked_sources := snd (TimeoutList_Erase source (blocked_sources fc)),
                        sources := umap_erase (sources fc) source \<rparr>)))"

definition UnregisterSink :: "sink_ptr \<Rightarrow> FlowControl \<Rightarrow> failure + FlowControl" where
  "UnregisterSink sink fc =
     (case umap_find (sinks fc) sink of
        None \<Rightarrow> Inr fc
      | Some _ \<Rightarrow> andThen (RemoveBackpressure sink fc) (\<lambda>fc. Inr (fc\<lparr> sinks := umap_erase (sinks fc) sink \<rparr>)))"

definition warn_source :: "clock \<Rightarrow> source_ptr \<Rightarrow> FlowControl \<Rightarrow> FlowControl" where
  "warn_source now source fc =
     (set_source source (source_state fc source) fc)\<lparr> blocked_sources := TimeoutList_Add now source (blocked_sources fc) \<rparr>"

definition WarnOnBlockedSources :: "clock \<Rightarrow> clock \<Rightarrow> FlowControl \<Rightarrow> FlowControl" where
  "WarnOnBlockedSources now warn_period fc =
     (let (expired, bs) = TimeoutList_GetExpired now warn_period (- 1) (blocked_sources fc)
      in fold (warn_source now) expired (fc\<lparr> blocked_sources := bs \<rparr>))"


section \<open>The state the operations work on\<close>

abbreviation blockers_of :: "FlowControl \<Rightarrow> source_ptr \<Rightarrow> sink_ptr list" where
  "blockers_of fc s \<equiv> blockers (source_state fc s)"

abbreviation backpressure_of :: "FlowControl \<Rightarrow> sink_ptr \<Rightarrow> source_ptr list" where
  "backpressure_of fc k \<equiv> backpressure (sink_state fc k)"

abbreviation armed :: "FlowControl \<Rightarrow> sink_ptr \<Rightarrow> bool" where
  "armed fc k \<equiv> write_event (sink_state fc k) = Some True"

definition waiting :: "FlowControl \<Rightarrow> source_ptr set" where
  "waiting fc = fst ` set (linked_abs (blocked_sources fc))"

lemma state_set [simp]:
  "source_state (set_source s x fc) s' = (if s' = s then x else source_state fc s')"
  "source_state (set_sink k y fc) s' = source_state fc s'"
  "sink_state (set_sink k y fc) k' = (if k' = k then y else sink_state fc k')"
  "sink_state (set_source s x fc) k' = sink_state fc k'"
  by (simp_all add: source_state_def sink_state_def set_source_def set_sink_def)

lemma state_update [simp]:
  "source_state (fc\<lparr> blocked_sources := b \<rparr>) = source_state fc" "sink_state (fc\<lparr> blocked_sources := b \<rparr>) = sink_state fc"
  "source_state (fc\<lparr> warning_timer := w \<rparr>) = source_state fc" "sink_state (fc\<lparr> warning_timer := w \<rparr>) = sink_state fc"
  "source_state (fc\<lparr> read_enabled := e \<rparr>) = source_state fc" "sink_state (fc\<lparr> read_enabled := e \<rparr>) = sink_state fc"
  "source_state (fc\<lparr> has_read_callback := c \<rparr>) = source_state fc"
  "sink_state (fc\<lparr> has_read_callback := c \<rparr>) = sink_state fc"
  "source_state (fc\<lparr> sinks := ks \<rparr>) = source_state fc" "sink_state (fc\<lparr> sources := ss \<rparr>) = sink_state fc"
  by (simp_all add: fun_eq_iff source_state_def sink_state_def)

lemma state_erase [simp]:
  "source_state (fc\<lparr> sources := umap_erase (sources fc) s \<rparr>) s' =
     (if s' = s then \<lparr> blockers = [], blocked_since = 0 \<rparr> else source_state fc s')"
  "sink_state (fc\<lparr> sinks := umap_erase (sinks fc) k \<rparr>) k' =
     (if k' = k then \<lparr> backpressure = [], write_event = None \<rparr> else sink_state fc k')"
  by (simp_all add: source_state_def sink_state_def)

lemma set_fields [simp]:
  "read_enabled (set_source s x fc) = read_enabled fc" "read_enabled (set_sink k y fc) = read_enabled fc"
  "has_read_callback (set_source s x fc) = has_read_callback fc" "has_read_callback (set_sink k y fc) = has_read_callback fc"
  "blocked_sources (set_source s x fc) = blocked_sources fc" "blocked_sources (set_sink k y fc) = blocked_sources fc"
  "sinks (set_source s x fc) = sinks fc" "sources (set_sink k y fc) = sources fc"
  by (simp_all add: set_source_def set_sink_def)

lemma SetReadEnabled_simps [simp]:
  "source_state (SetReadEnabled s e fc) = source_state fc" "sink_state (SetReadEnabled s e fc) = sink_state fc"
  "read_enabled (SetReadEnabled s e fc) = (read_enabled fc)(s := e)"
  "has_read_callback (SetReadEnabled s e fc) = has_read_callback fc"
  "blocked_sources (SetReadEnabled s e fc) = blocked_sources fc"
  "sinks (SetReadEnabled s e fc) = sinks fc" "sources (SetReadEnabled s e fc) = sources fc"
  by (simp_all add: SetReadEnabled_def)

lemma find_source: "blockers_of fc s \<noteq> [] \<Longrightarrow> umap_find (sources fc) s = Some (source_state fc s)"
  by (simp add: source_state_def split: option.splits)

lemma find_sink: "backpressure_of fc k \<noteq> [] \<Longrightarrow> umap_find (sinks fc) k = Some (sink_state fc k)"
  by (simp add: sink_state_def split: option.splits)

lemma Add_waiting:
  assumes "linked_inv fst b"
  shows "linked_inv fst (TimeoutList_Add now s b)"
    and "fst ` set (linked_abs (TimeoutList_Add now s b)) = insert s (fst ` set (linked_abs b))"
  using Add_refines [OF assms, of now s] by auto

lemma Erase_waiting:
  assumes "linked_inv fst b"
  shows "linked_inv fst (snd (TimeoutList_Erase s b))"
    and "fst ` set (linked_abs (snd (TimeoutList_Erase s b))) = fst ` set (linked_abs b) - {s}"
  using linked_erase_refines [OF assms, of s] by (auto simp: TimeoutList_Erase_def)

text \<open>
  The invariant, for a set of live sources: those registered and not unregistered since. Blocking is recorded on both
  sides; a live source is enabled exactly when nothing blocks it; a sink that blocks a source has its event
  armed; the sources on the list of blocked sources are those that are blocked.
\<close>

definition fc_inv :: "FlowControl \<Rightarrow> source_ptr set \<Rightarrow> bool" where
  "fc_inv fc live \<longleftrightarrow>
     linked_inv fst (blocked_sources fc) \<and> waiting fc = {s. blockers_of fc s \<noteq> []}
   \<and> (\<forall>s. distinct (blockers_of fc s)) \<and> (\<forall>k. distinct (backpressure_of fc k))
   \<and> (\<forall>s k. k \<in> set (blockers_of fc s) \<longleftrightarrow> s \<in> set (backpressure_of fc k))
   \<and> (\<forall>k. backpressure_of fc k \<noteq> [] \<longrightarrow> armed fc k)
   \<and> (\<forall>s. s \<notin> live \<longrightarrow> blockers_of fc s = [])
   \<and> (\<forall>s \<in> live. has_read_callback fc s \<and> (read_enabled fc s \<longleftrightarrow> blockers_of fc s = []))"

lemma fc_inv_new: "fc_inv FlowControl_new {}"
  by (simp add: fc_inv_def FlowControl_new_def source_state_def sink_state_def waiting_def)

lemma fc_invD:
  assumes "fc_inv fc live"
  shows "linked_inv fst (blocked_sources fc)" "fst ` set (linked_abs (blocked_sources fc)) = {s. blockers_of fc s \<noteq> []}"
    and "distinct (blockers_of fc s)" "distinct (backpressure_of fc k)"
    and "k \<in> set (blockers_of fc s) \<longleftrightarrow> s \<in> set (backpressure_of fc k)"
    and "backpressure_of fc k \<noteq> [] \<Longrightarrow> armed fc k" "s \<notin> live \<Longrightarrow> blockers_of fc s = []"
    and "s \<in> live \<Longrightarrow> has_read_callback fc s" "s \<in> live \<Longrightarrow> read_enabled fc s \<longleftrightarrow> blockers_of fc s = []"
  using assms by (auto simp: fc_inv_def waiting_def)

section \<open>Every operation keeps the invariant\<close>

lemma Register_inv:
  assumes "fc_inv fc live" and "\<not> has_read_callback fc s"
  shows "\<exists>fc'. Register s fc = Inr fc' \<and> fc_inv fc' (insert s live)"
proof -
  have "s \<notin> live" using fc_invD(8) [OF assms(1)] assms(2) by blast
  then show ?thesis using assms by (auto simp: Register_def fc_inv_def waiting_def)
qed

lemma EnableSinkWriteEvent_inv: "fc_inv fc live \<Longrightarrow> fc_inv (EnableSinkWriteEvent k fc) live"
  by (simp add: EnableSinkWriteEvent_def fc_inv_def waiting_def)

text \<open>\<open>ApplyBackpressure\<close> adds one pair to the relation; its sink is armed by the caller afterwards.\<close>

lemma ApplyBackpressure_state:
  fixes now :: clock and k :: sink_ptr and s :: source_ptr
  assumes "fc_inv fc live"
  defines "fc' \<equiv> ApplyBackpressure now k s fc"
  shows "blockers_of fc' s' = (if s' = s then List.insert k (blockers_of fc s) else blockers_of fc s')"
    and "backpressure_of fc' k' = (if k' = k \<and> s \<notin> set (backpressure_of fc k) then backpressure_of fc k @ [s] else backpressure_of fc k')"
    and "write_event (sink_state fc' k') = write_event (sink_state fc k')"
    and "read_enabled fc' = (read_enabled fc)(s := False)" and "has_read_callback fc' = has_read_callback fc"
    and "linked_inv fst (blocked_sources fc')" and "waiting fc' = insert s (waiting fc)"
  using fc_invD(5) [OF assms(1), of k s] fc_invD(1,2) [OF assms(1)] Add_waiting [OF fc_invD(1) [OF assms(1)], of now s]
  by (auto simp: fc'_def ApplyBackpressure_def Let_def waiting_def in_set_insert)

lemma FlowControl_Write_inv:
  assumes "fc_inv fc live" and "\<And>s. src = Some s \<Longrightarrow> s \<in> live"
  shows "fc_inv (snd (FlowControl_Write now src k accepted fc)) live"
proof (cases "accepted \<or> src = None")
  case True
  then show ?thesis
    using assms(1) EnableSinkWriteEvent_inv by (auto simp: FlowControl_Write_def)
next
  case False
  then obtain s where s: "src = Some s" "\<not> accepted" by auto
  let ?fc = "ApplyBackpressure now k s fc"
  note st = ApplyBackpressure_state [OF assms(1), of now k s]
  note D = fc_invD [OF assms(1)]
  have "fc_inv (EnableSinkWriteEvent k ?fc) live"
    unfolding fc_inv_def
  proof (intro conjI allI ballI)
    show "waiting (EnableSinkWriteEvent k ?fc) = {s'. blockers_of (EnableSinkWriteEvent k ?fc) s' \<noteq> []}"
      using st(7) D(2) by (auto simp: EnableSinkWriteEvent_def st(1) waiting_def List.insert_def)
    show "distinct (blockers_of (EnableSinkWriteEvent k ?fc) s')" for s'
      using D(3) by (simp add: EnableSinkWriteEvent_def st(1))
    show "distinct (backpressure_of (EnableSinkWriteEvent k ?fc) k')" for k'
      using D(4) by (auto simp: EnableSinkWriteEvent_def st(2))
    show "(k' \<in> set (blockers_of (EnableSinkWriteEvent k ?fc) s')) = (s' \<in> set (backpressure_of (EnableSinkWriteEvent k ?fc) k'))"
      for s' k' using D(5) by (auto simp: EnableSinkWriteEvent_def st(1,2))
    show "backpressure_of (EnableSinkWriteEvent k ?fc) k' \<noteq> [] \<longrightarrow> armed (EnableSinkWriteEvent k ?fc) k'" for k'
      using D(6) by (auto simp: EnableSinkWriteEvent_def st(2,3))
  qed (use s assms(2) D(1,7,8,9) st(6) in \<open>auto simp: EnableSinkWriteEvent_def st(1,4,5) List.insert_def\<close>)
  then show ?thesis using s by (simp add: FlowControl_Write_def)
qed

lemma remove_blockers_state:
  fixes k :: sink_ptr
  assumes "distinct xs" and "\<And>s. s \<in> set xs \<Longrightarrow> k \<in> set (blockers_of fc s)" and "linked_inv fst (blocked_sources fc)"
  obtains fc' where "remove_blockers k xs fc = Inr fc'"
    and "\<And>s. blockers_of fc' s = (if s \<in> set xs then removeAll k (blockers_of fc s) else blockers_of fc s)"
    and "sinks fc' = sinks fc" and "has_read_callback fc' = has_read_callback fc"
    and "\<And>s. read_enabled fc' s = (read_enabled fc s \<or> s \<in> set xs \<and> removeAll k (blockers_of fc s) = [])"
    and "linked_inv fst (blocked_sources fc')"
    and "waiting fc' = waiting fc - {s \<in> set xs. removeAll k (blockers_of fc s) = []}"
  using assms
proof (induction xs arbitrary: fc thesis)
  case Nil
  show ?case by (rule Nil(1)) (use Nil in \<open>simp_all\<close>)
next
  case (Cons s xs)
  have k: "k \<in> set (blockers_of fc s)" using Cons.prems(3) by simp
  then have find: "umap_find (sources fc) s = Some (source_state fc s)" by (intro find_source) auto
  let ?ss = "(source_state fc s)\<lparr> blockers := removeAll k (blockers_of fc s) \<rparr>"
  let ?fc = "if removeAll k (blockers_of fc s) = []
    then (SetReadEnabled s True (set_source s ?ss fc))\<lparr> blocked_sources := snd (TimeoutList_Erase s (blocked_sources fc)) \<rparr>
    else set_source s ?ss fc"
  have step: "remove_blocker k s fc = Inr ?fc"
  proof -
    have "blockers_of fc s \<noteq> []" using k by auto
    then show ?thesis using find k by (simp add: remove_blocker_def Let_def)
  qed
  have bl: "blockers_of ?fc s' = (if s' = s then removeAll k (blockers_of fc s) else blockers_of fc s')" for s'
    by simp
  have inv: "linked_inv fst (blocked_sources ?fc)"
    using Cons.prems(4) by (simp add: Erase_waiting(1) [OF Cons.prems(4)])
  have w: "waiting ?fc = waiting fc - (if removeAll k (blockers_of fc s) = [] then {s} else {})"
    using Erase_waiting(2) [OF Cons.prems(4)] by (simp add: waiting_def)
  have s: "s \<notin> set xs" "distinct xs" using Cons.prems(2) by auto
  have kx: "k \<in> set (blockers_of ?fc s')" if "s' \<in> set xs" for s'
    using that s Cons.prems(3) [of s'] by (auto simp: bl)
  show ?case
  proof (rule Cons.IH [OF _ s(2) _ inv])
    show "k \<in> set (blockers_of ?fc s')" if "s' \<in> set xs" for s' using kx [OF that] .
  next
    fix fc' assume fc': "remove_blockers k xs ?fc = Inr fc'"
      "\<And>s'. blockers_of fc' s' = (if s' \<in> set xs then removeAll k (blockers_of ?fc s') else blockers_of ?fc s')"
      "sinks fc' = sinks ?fc" "has_read_callback fc' = has_read_callback ?fc"
      "\<And>s'. read_enabled fc' s' = (read_enabled ?fc s' \<or> s' \<in> set xs \<and> removeAll k (blockers_of ?fc s') = [])"
      "linked_inv fst (blocked_sources fc')"
      "waiting fc' = waiting ?fc - {s' \<in> set xs. removeAll k (blockers_of ?fc s') = []}"
    show thesis
    proof (rule Cons.prems(1) [of fc'])
      show "remove_blockers k (s # xs) fc = Inr fc'" using step fc'(1) by simp
      show "waiting fc' = waiting fc - {s' \<in> set (s # xs). removeAll k (blockers_of fc s') = []}"
        unfolding fc'(7) w bl using s by auto
    qed (use fc'(3-6) s in \<open>auto simp: fc'(2) bl\<close>)
  qed
qed

lemma RemoveBackpressure_state:
  assumes "linked_inv fst (blocked_sources fc)" and "distinct (backpressure_of fc k)"
    and "\<And>s. s \<in> set (backpressure_of fc k) \<Longrightarrow> k \<in> set (blockers_of fc s)"
  obtains fc' where "RemoveBackpressure k fc = Inr fc'"
    and "\<And>s. blockers_of fc' s = (if s \<in> set (backpressure_of fc k) then removeAll k (blockers_of fc s) else blockers_of fc s)"
    and "\<And>k'. sink_state fc' k' = (if k' = k then (sink_state fc k)\<lparr> backpressure := [] \<rparr> else sink_state fc k')"
    and "has_read_callback fc' = has_read_callback fc"
    and "\<And>s. read_enabled fc' s = (read_enabled fc s \<or> s \<in> set (backpressure_of fc k) \<and> removeAll k (blockers_of fc s) = [])"
    and "linked_inv fst (blocked_sources fc')"
    and "waiting fc' = waiting fc - {s \<in> set (backpressure_of fc k). removeAll k (blockers_of fc s) = []}"
proof -
  let ?fc = "set_sink k (sink_state fc k) fc" and ?xs = "backpressure_of fc k"
  obtain fc' where fc': "remove_blockers k ?xs ?fc = Inr fc'"
    "\<And>s. blockers_of fc' s = (if s \<in> set ?xs then removeAll k (blockers_of ?fc s) else blockers_of ?fc s)"
    "sinks fc' = sinks ?fc" "has_read_callback fc' = has_read_callback ?fc"
    "\<And>s. read_enabled fc' s = (read_enabled ?fc s \<or> s \<in> set ?xs \<and> removeAll k (blockers_of ?fc s) = [])"
    "linked_inv fst (blocked_sources fc')"
    "waiting fc' = waiting ?fc - {s \<in> set ?xs. removeAll k (blockers_of ?fc s) = []}"
    using remove_blockers_state [of ?xs k ?fc] assms by auto
  have sink: "sink_state fc' = sink_state ?fc" by (simp add: fun_eq_iff sink_state_def fc'(3))
  let ?fc' = "if ?xs \<noteq> [] then set_sink k ((sink_state fc' k)\<lparr> backpressure := [] \<rparr>) fc' else fc'"
  show thesis
  proof (rule that [of ?fc'])
    show "RemoveBackpressure k fc = Inr ?fc'" using fc'(1) by (simp add: RemoveBackpressure_def Let_def)
    show "sink_state ?fc' k' = (if k' = k then (sink_state fc k)\<lparr> backpressure := [] \<rparr> else sink_state fc k')" for k'
      by (auto simp: sink)
    show "waiting ?fc' = waiting fc - {s \<in> set ?xs. removeAll k (blockers_of fc s) = []}"
      using fc'(7) by (auto simp: waiting_def)
  qed (use fc'(2,4-6) in auto)
qed

text \<open>Removing the backpressure of a sink: it blocks nothing afterwards, everything else stays.\<close>

lemma RemoveBackpressure_inv:
  assumes "fc_inv fc live"
  obtains fc' where "RemoveBackpressure k (fc\<lparr> sinks := umap_set (sinks fc) k ((sink_state fc k)\<lparr> write_event := w \<rparr>) \<rparr>) = Inr fc'"
    and "fc_inv fc' live" and "backpressure_of fc' k = []" and "\<And>s. blockers_of fc' s = removeAll k (blockers_of fc s)"
    and "has_read_callback fc' = has_read_callback fc"
proof -
  note D = fc_invD [OF assms]
  let ?fc = "set_sink k ((sink_state fc k)\<lparr> write_event := w \<rparr>) fc"
  obtain fc' where fc': "RemoveBackpressure k ?fc = Inr fc'"
    "\<And>s. blockers_of fc' s = (if s \<in> set (backpressure_of ?fc k) then removeAll k (blockers_of ?fc s) else blockers_of ?fc s)"
    "\<And>k'. sink_state fc' k' = (if k' = k then (sink_state ?fc k)\<lparr> backpressure := [] \<rparr> else sink_state ?fc k')"
    "has_read_callback fc' = has_read_callback ?fc"
    "\<And>s. read_enabled fc' s = (read_enabled ?fc s \<or> s \<in> set (backpressure_of ?fc k) \<and> removeAll k (blockers_of ?fc s) = [])"
    "linked_inv fst (blocked_sources fc')"
    "waiting fc' = waiting ?fc - {s \<in> set (backpressure_of ?fc k). removeAll k (blockers_of ?fc s) = []}"
    using RemoveBackpressure_state [of ?fc k] D(1,4) D(5) by auto
  have bl: "blockers_of fc' s = removeAll k (blockers_of fc s)" for s
    using D(5) [of k s] by (simp add: fc'(2))
  have blocked: "s \<in> set (backpressure_of fc k) \<longleftrightarrow> k \<in> set (blockers_of fc s)" for s using D(5) by simp
  have gone: "removeAll k (blockers_of fc s) = [] \<Longrightarrow> blockers_of fc s = [] \<or> k \<in> set (blockers_of fc s)" for s
    by (metis removeAll_id)
  have "fc_inv fc' live"
    unfolding fc_inv_def
  proof (intro conjI allI ballI)
    show "waiting fc' = {s. blockers_of fc' s \<noteq> []}"
    proof -
      have w: "waiting ?fc = {s. blockers_of fc s \<noteq> []}" using D(2) by (simp add: waiting_def)
      show ?thesis unfolding fc'(7) w using gone by (auto simp: bl blocked)
    qed
    show "(k' \<in> set (blockers_of fc' s)) = (s \<in> set (backpressure_of fc' k'))" for s k'
      using D(5) by (simp add: bl fc'(3))
    show "backpressure_of fc' k' \<noteq> [] \<longrightarrow> armed fc' k'" for k' using D(6) by (simp add: fc'(3))
    show "read_enabled fc' s = (blockers_of fc' s = [])" if "s \<in> live" for s
      using D(9) [OF that] gone [of s] by (auto simp: fc'(5) bl blocked)
  qed (use D(3,4,7,8) fc'(6) in \<open>auto simp: bl fc'(3,4) distinct_removeAll\<close>)
  then show thesis using that [of fc'] fc'(1,3,4) bl by (simp add: set_sink_def)
qed

lemma set_sink_same: "set_sink k (sink_state fc k) fc = fc\<lparr> sinks := umap_set (sinks fc) k ((sink_state fc k)\<lparr> write_event := write_event (sink_state fc k) \<rparr>) \<rparr>"
  by (simp add: set_sink_def)

lemma on_write_event_inv:
  assumes "fc_inv fc live" and "armed fc k"
  obtains fc' where "on_write_event k flushed fc = Inr fc'" and "fc_inv fc' live"
    and "\<And>s. blockers_of fc' s = (if flushed then removeAll k (blockers_of fc s) else blockers_of fc s)"
    and "has_read_callback fc' = has_read_callback fc"
proof (cases flushed)
  case True
  then show thesis
    using RemoveBackpressure_inv [OF assms(1), of k "Some False"] that assms(2)
    by (force simp: on_write_event_def set_sink_def)
next
  case False
  let ?fc = "set_sink k ((sink_state fc k)\<lparr> write_event := Some True \<rparr>) (set_sink k ((sink_state fc k)\<lparr> write_event := Some False \<rparr>) fc)"
  have "fc_inv ?fc live" using assms by (simp add: fc_inv_def waiting_def)
  then show thesis using that [of ?fc] False assms(2) by (simp add: on_write_event_def)
qed

lemma unblock_sinks_state:
  fixes s :: source_ptr
  assumes "distinct ks" and "\<forall>k \<in> set ks. s \<in> set (backpressure_of fc k)"
  shows "\<exists>fc'. unblock_sinks s ks fc = Inr fc' \<and> fc' = fc\<lparr> sinks := sinks fc' \<rparr>
    \<and> (\<forall>k. sink_state fc' k = (if k \<in> set ks then (sink_state fc k)\<lparr> backpressure := removeAll s (backpressure_of fc k) \<rparr>
                                 else sink_state fc k))"
  using assms
proof (induction ks arbitrary: fc)
  case (Cons k ks)
  have s: "s \<in> set (backpressure_of fc k)" using Cons.prems(2) by simp
  then have find: "umap_find (sinks fc) k = Some (sink_state fc k)" by (intro find_sink) auto
  let ?fc = "set_sink k ((sink_state fc k)\<lparr> backpressure := removeAll s (backpressure_of fc k) \<rparr>) fc"
  have "\<forall>k' \<in> set ks. s \<in> set (backpressure_of ?fc k')" using Cons.prems by auto
  then obtain fc' where fc': "unblock_sinks s ks ?fc = Inr fc'" "fc' = ?fc\<lparr> sinks := sinks fc' \<rparr>"
    "\<forall>k'. sink_state fc' k' = (if k' \<in> set ks then (sink_state ?fc k')\<lparr> backpressure := removeAll s (backpressure_of ?fc k') \<rparr>
        else sink_state ?fc k')"
    using Cons.IH [of ?fc] Cons.prems(1) by auto
  have "fc' = fc\<lparr> sinks := sinks fc' \<rparr>" by (subst fc'(2)) (simp add: set_sink_def)
  then show ?case using fc'(1,3) Cons.prems(1) find s by auto
qed simp

lemma UnregisterSource_inv:
  assumes "fc_inv fc live"
  obtains fc' where "UnregisterSource s fc = Inr fc'" and "fc_inv fc' (live - {s})"
    and "\<And>k. s \<notin> set (backpressure_of fc' k)" and "\<not> read_enabled fc' s" and "has_read_callback fc' = has_read_callback fc"
proof (cases "umap_find (sources fc) s")
  case None
  then have none: "blockers_of fc s = []" by (simp add: source_state_def)
  let ?fc = "SetReadEnabled s False fc"
  have "fc_inv ?fc (live - {s})" using assms none by (auto simp: fc_inv_def waiting_def)
  moreover have "s \<notin> set (backpressure_of ?fc k)" for k using fc_invD(5) [OF assms, of k s] none by simp
  ultimately show thesis using that [of ?fc] None by (simp add: UnregisterSource_def Let_def)
next
  case (Some ss)
  note D = fc_invD [OF assms]
  let ?fc = "SetReadEnabled s False fc"
  have ss: "ss = source_state fc s" using Some by (simp add: source_state_def)
  obtain fc1 where fc1: "unblock_sinks s (blockers ss) ?fc = Inr fc1" "fc1 = ?fc\<lparr> sinks := sinks fc1 \<rparr>"
    "\<And>k. sink_state fc1 k = (if k \<in> set (blockers ss) then (sink_state ?fc k)\<lparr> backpressure := removeAll s (backpressure_of ?fc k) \<rparr>
       else sink_state ?fc k)"
    using unblock_sinks_state [of "blockers ss" s ?fc] D(3,5) ss by auto
  define fc' where "fc' = fc1\<lparr> blocked_sources := snd (TimeoutList_Erase s (blocked_sources fc1)), sources := umap_erase (sources fc1) s \<rparr>"
  have bp: "backpressure_of fc' k = removeAll s (backpressure_of fc k)" for k
    using D(5) [of k s] by (simp add: fc'_def fc1(3) ss)
  have we: "write_event (sink_state fc' k) = write_event (sink_state fc k)" for k by (simp add: fc'_def fc1(3))
  have same: "sources fc1 = sources fc" "blocked_sources fc1 = blocked_sources fc"
    "read_enabled fc1 = (read_enabled fc)(s := False)" "has_read_callback fc1 = has_read_callback fc"
    by (subst fc1(2); simp)+
  have src: "source_state fc1 = source_state fc" by (simp add: source_state_def fun_eq_iff same(1))
  have bl: "blockers_of fc' s' = (if s' = s then [] else blockers_of fc s')" for s'
    using src by (simp add: fc'_def same(1) source_state_def fun_eq_iff)
  have w: "waiting fc' = waiting fc - {s}" using Erase_waiting(2) [OF D(1), of s] by (simp add: fc'_def waiting_def same)
  have rest: "read_enabled fc' = (read_enabled fc)(s := False)" "has_read_callback fc' = has_read_callback fc"
    by (simp_all add: fc'_def same)
  have "fc_inv fc' (live - {s})"
    unfolding fc_inv_def
  proof (intro conjI allI ballI)
    show "linked_inv fst (blocked_sources fc')" using Erase_waiting(1) [OF D(1)] by (simp add: fc'_def same)
    show "waiting fc' = {s'. blockers_of fc' s' \<noteq> []}"
      unfolding w bl using D(2) by (auto simp: waiting_def)
    show "(k \<in> set (blockers_of fc' s')) = (s' \<in> set (backpressure_of fc' k))" for s' k
      unfolding bl bp using D(5) by auto
    show "distinct (backpressure_of fc' k)" for k unfolding bp using D(4) by (simp add: distinct_removeAll)
    show "backpressure_of fc' k \<noteq> [] \<longrightarrow> armed fc' k" for k unfolding bp we using D(6) [of k] by (cases "backpressure_of fc k") auto
  qed (use D(3,7,8,9) rest in \<open>auto simp: bl\<close>)
  then show thesis
    using that [of fc'] fc1(1) Some bp rest by (simp add: UnregisterSource_def Let_def fc'_def)
qed

lemma UnregisterSink_inv:
  assumes "fc_inv fc live"
  obtains fc' where "UnregisterSink k fc = Inr fc'" and "fc_inv fc' live"
    and "\<And>s. blockers_of fc' s = removeAll k (blockers_of fc s)" and "has_read_callback fc' = has_read_callback fc"
proof (cases "umap_find (sinks fc) k")
  case None
  then have "k \<notin> set (blockers_of fc s)" for s
    using fc_invD(5) [OF assms, of k s] by (simp add: sink_state_def)
  then show thesis using that [of fc] None assms by (simp add: UnregisterSink_def)
next
  case (Some ks)
  let ?fc = "fc\<lparr> sinks := umap_set (sinks fc) k ((sink_state fc k)\<lparr> write_event := write_event (sink_state fc k) \<rparr>) \<rparr>"
  have "?fc = set_sink k (sink_state fc k) fc" by (simp add: set_sink_def)
  then have again: "RemoveBackpressure k ?fc = RemoveBackpressure k fc"
    by (simp add: RemoveBackpressure_def Let_def) (simp add: set_sink_def umap_set_def update_last)
  obtain fc' where fc': "RemoveBackpressure k fc = Inr fc'" "fc_inv fc' live" "backpressure_of fc' k = []"
    "\<And>s. blockers_of fc' s = removeAll k (blockers_of fc s)" "has_read_callback fc' = has_read_callback fc"
    using RemoveBackpressure_inv [OF assms, of k "write_event (sink_state fc k)"] unfolding again by blast
  have "fc_inv (fc'\<lparr> sinks := umap_erase (sinks fc') k \<rparr>) live"
    using fc'(2,3) fc_invD(5) [OF fc'(2), of k] by (simp add: fc_inv_def waiting_def)
  then show thesis
    using that [of "fc'\<lparr> sinks := umap_erase (sinks fc') k \<rparr>"] fc'(1,4,5) Some by (simp add: UnregisterSink_def)
qed

lemma warn_sources_state:
  assumes "linked_inv fst (blocked_sources fc)"
  shows "linked_inv fst (blocked_sources (fold (warn_source now) xs fc))
    \<and> waiting (fold (warn_source now) xs fc) = set xs \<union> waiting fc
    \<and> source_state (fold (warn_source now) xs fc) = source_state fc \<and> sink_state (fold (warn_source now) xs fc) = sink_state fc
    \<and> read_enabled (fold (warn_source now) xs fc) = read_enabled fc
    \<and> has_read_callback (fold (warn_source now) xs fc) = has_read_callback fc"
  using assms
proof (induction xs arbitrary: fc)
  case (Cons s xs)
  have "source_state (warn_source now s fc) = source_state fc" "sink_state (warn_source now s fc) = sink_state fc"
    by (simp_all add: warn_source_def fun_eq_iff)
  then show ?case
    using Cons.IH [of "warn_source now s fc"] Add_waiting [OF Cons.prems, of now s]
    by (auto simp: warn_source_def waiting_def)
qed (simp add: waiting_def)

lemma expire_keys: "set (fst (expire now timeout limit xs)) \<union> fst ` set (snd (expire now timeout limit xs)) = fst ` set xs"
  by (induction now timeout limit xs rule: expire.induct) (auto simp: split_beta)

lemma WarnOnBlockedSources_inv:
  assumes "fc_inv fc live"
  shows "fc_inv (WarnOnBlockedSources now period fc) live"
    and "blockers_of (WarnOnBlockedSources now period fc) s = blockers_of fc s"
proof -
  obtain bs where bs: "TimeoutList_GetExpired now period (- 1) (blocked_sources fc)
      = (fst (expire now period (- 1) (linked_abs (blocked_sources fc))), bs)"
    "linked_inv fst bs" "linked_abs bs = snd (expire now period (- 1) (linked_abs (blocked_sources fc)))"
    using ProcessExpired_refines [OF fc_invD(1) [OF assms], of now period "- 1"] by (auto simp: TimeoutList_GetExpired_def)
  let ?xs = "fst (expire now period (- 1) (linked_abs (blocked_sources fc)))" and ?fc = "fc\<lparr> blocked_sources := bs \<rparr>"
  have warn: "WarnOnBlockedSources now period fc = fold (warn_source now) ?xs ?fc"
    by (simp add: WarnOnBlockedSources_def bs(1))
  have "set ?xs \<union> waiting ?fc = waiting fc" using expire_keys bs(3) by (simp add: waiting_def)
  then show "fc_inv (WarnOnBlockedSources now period fc) live"
    and "blockers_of (WarnOnBlockedSources now period fc) s = blockers_of fc s"
    unfolding warn using warn_sources_state [of ?fc now ?xs] bs(2) assms by (auto simp: fc_inv_def)
qed

section \<open>Reachable states\<close>

text \<open>
  The sequences of calls: a source is registered once, a flow that writes is sourceless or belongs to a live source,
  and an event fires only while it is armed.
\<close>

inductive fc_reach :: "FlowControl \<Rightarrow> source_ptr set \<Rightarrow> bool" where
  start: "fc_reach FlowControl_new {}"
| register: "fc_reach fc live \<Longrightarrow> \<not> has_read_callback fc s \<Longrightarrow> Register s fc = Inr fc' \<Longrightarrow> fc_reach fc' (insert s live)"
| flow_write: "fc_reach fc live \<Longrightarrow> case flow_source flow of None \<Rightarrow> True | Some s \<Rightarrow> s \<in> live
    \<Longrightarrow> Flow_Write now k accepted flow fc = (ok, flow', fc') \<Longrightarrow> fc_reach fc' live"
| event: "fc_reach fc live \<Longrightarrow> armed fc k \<Longrightarrow> on_write_event k flushed fc = Inr fc' \<Longrightarrow> fc_reach fc' live"
| unregister_source: "fc_reach fc live \<Longrightarrow> UnregisterSource s fc = Inr fc' \<Longrightarrow> fc_reach fc' (live - {s})"
| unregister_sink: "fc_reach fc live \<Longrightarrow> UnregisterSink k fc = Inr fc' \<Longrightarrow> fc_reach fc' live"
| warn: "fc_reach fc live \<Longrightarrow> fc_reach (WarnOnBlockedSources now period fc) live"

lemma fc_reach_inv: "fc_reach fc live \<Longrightarrow> fc_inv fc live"
proof (induction rule: fc_reach.induct)
  case (register fc live s fc')
  then show ?case using Register_inv by force
next
  case (flow_write fc live flow now k accepted ok flow' fc')
  have "fc' = snd (FlowControl_Write now (flow_source flow) k accepted fc)"
    using flow_write(3) by (auto simp: Flow_Write_def Let_def split: prod.splits)
  moreover have "s \<in> live" if "flow_source flow = Some s" for s using flow_write(2) that by simp
  ultimately show ?case using FlowControl_Write_inv [OF flow_write(4), of "flow_source flow"] by blast
next
  case (event fc live k flushed fc')
  then show ?case using on_write_event_inv [OF event(4,2), of flushed] by auto
next
  case (unregister_source fc live s fc')
  then show ?case using UnregisterSource_inv [OF unregister_source(3), of s] by auto
next
  case (unregister_sink fc live k fc')
  then show ?case using UnregisterSink_inv [OF unregister_sink(3), of k] by auto
qed (simp_all add: fc_inv_new WarnOnBlockedSources_inv)

text \<open>The events of several sinks fire, each with everything flushed.\<close>

fun flush_sinks :: "sink_ptr list \<Rightarrow> FlowControl \<Rightarrow> failure + FlowControl" where
  "flush_sinks [] fc = Inr fc"
| "flush_sinks (k # ks) fc = andThen (on_write_event k True fc) (flush_sinks ks)"

lemma flush_sinks_unblock:
  assumes "fc_reach fc live" and "distinct ks" and "set ks = set (blockers_of fc s)"
  shows "\<exists>fc'. flush_sinks ks fc = Inr fc' \<and> fc_reach fc' live \<and> blockers_of fc' s = []"
  using assms
proof (induction ks arbitrary: fc)
  case (Cons k ks)
  have inv: "fc_inv fc live" using fc_reach_inv [OF Cons.prems(1)] .
  have "k \<in> set (blockers_of fc s)" using Cons.prems(3) by auto
  then have "backpressure_of fc k \<noteq> []" using fc_invD(5) [OF inv, of k s] by auto
  then have armed: "armed fc k" using fc_invD(6) [OF inv] by blast
  obtain fc1 where fc1: "on_write_event k True fc = Inr fc1" "\<And>s. blockers_of fc1 s = removeAll k (blockers_of fc s)"
    using on_write_event_inv [OF inv armed, of True] by auto
  have "set ks = set (blockers_of fc1 s)" using Cons.prems(2,3) by (auto simp: fc1(2))
  then show ?case
    using Cons.IH [OF event [OF Cons.prems(1) armed fc1(1)]] Cons.prems(2) fc1(1) by simp
qed auto

section \<open>Properties\<close>

text \<open>
  C14. In every state the calls can lead to: a live source is enabled exactly when no sink has backpressure on it; a sink with
  backpressure on some source has its write event armed, so that the backpressure will be looked at again; and none of the
  assertions on the two sides of the relation fails, when an event fires and when a source or a sink is removed. A
  source that has been removed is referred to by no sink any more.
\<close>

theorem flow_control_consistent:
  assumes "fc_reach fc live"
  shows "(\<forall>s \<in> live. read_enabled fc s \<longleftrightarrow> (\<forall>k. s \<notin> set (backpressure_of fc k)))
   \<and> (\<forall>k. backpressure_of fc k \<noteq> [] \<longrightarrow> armed fc k)
   \<and> (\<forall>k flushed. armed fc k \<longrightarrow> (\<exists>fc'. on_write_event k flushed fc = Inr fc'))
   \<and> (\<forall>k. \<exists>fc'. UnregisterSink k fc = Inr fc' \<and> (\<forall>s. k \<notin> set (blockers_of fc' s)))
   \<and> (\<forall>s. \<exists>fc'. UnregisterSource s fc = Inr fc' \<and> (\<forall>k. s \<notin> set (backpressure_of fc' k)))"
proof -
  have inv: "fc_inv fc live" using assms by (rule fc_reach_inv)
  have "blockers_of fc s = [] \<longleftrightarrow> (\<forall>k. s \<notin> set (backpressure_of fc k))" for s
    using fc_invD(5) [OF inv, of _ s] by (cases "blockers_of fc s") auto
  then have "\<forall>s \<in> live. read_enabled fc s \<longleftrightarrow> (\<forall>k. s \<notin> set (backpressure_of fc k))" using fc_invD(9) [OF inv] by blast
  moreover have "\<exists>fc'. on_write_event k flushed fc = Inr fc'" if "armed fc k" for k flushed
    using on_write_event_inv [OF inv that, of flushed] by blast
  moreover have "\<exists>fc'. UnregisterSink k fc = Inr fc' \<and> (\<forall>s. k \<notin> set (blockers_of fc' s))" for k
    using UnregisterSink_inv [OF inv, of k] by (metis Diff_iff singletonI set_removeAll)
  moreover have "\<exists>fc'. UnregisterSource s fc = Inr fc' \<and> (\<forall>k. s \<notin> set (backpressure_of fc' k))" for s
    using UnregisterSource_inv [OF inv, of s] by metis
  ultimately show ?thesis using fc_invD(6) [OF inv] by blast
qed

text \<open>
  A concrete run: source 3 is registered and writes to sink 7, which is full.
\<close>

definition example_flow_control :: FlowControl where
  "example_flow_control =
     (case Register 3 FlowControl_new of
        Inl _ \<Rightarrow> FlowControl_new
      | Inr fc \<Rightarrow> snd (snd (Flow_Write 5 7 False (Flow_new (Some 3)) fc)))"

lemma example_flow_control_reach: "fc_reach example_flow_control {3}"
proof -
  obtain fc where fc: "Register 3 FlowControl_new = Inr fc" by (simp add: Register_def FlowControl_new_def)
  have reach: "fc_reach fc {3}"
    using register [OF start, of 3 fc] fc by (simp add: FlowControl_new_def)
  have "fc_reach (snd (snd (Flow_Write 5 7 False (Flow_new (Some 3)) fc))) {3}"
    by (rule flow_write [OF reach, of "Flow_new (Some 3)" 5 7 False "fst (Flow_Write 5 7 False (Flow_new (Some 3)) fc)"
          "fst (snd (Flow_Write 5 7 False (Flow_new (Some 3)) fc))"]) (simp_all add: Flow_new_def)
  then show ?thesis using fc by (simp add: example_flow_control_def)
qed

lemma example_flow_control_blocked:
  "blockers_of example_flow_control 3 = [7]" "backpressure_of example_flow_control 7 = [3]"
  by (simp_all add: example_flow_control_def Register_def FlowControl_new_def Flow_Write_def FlowControl_Write_def Flow_new_def
      ApplyBackpressure_def EnableSinkWriteEvent_def Let_def) (simp_all add: source_state_def sink_state_def)

theorem flow_control_consistent_witness:
  "\<not> read_enabled example_flow_control 3 \<and> armed example_flow_control 7
   \<and> (\<exists>fc'. UnregisterSource 3 example_flow_control = Inr fc' \<and> 3 \<notin> set (backpressure_of fc' 7))"
proof -
  note P = flow_control_consistent [OF example_flow_control_reach]
  have "read_enabled example_flow_control 3 \<longleftrightarrow> (\<forall>k. 3 \<notin> set (backpressure_of example_flow_control k))" using P by blast
  moreover have "3 \<in> set (backpressure_of example_flow_control 7)" by (simp add: example_flow_control_blocked)
  moreover have "armed example_flow_control 7" using P by (simp add: example_flow_control_blocked)
  moreover have "\<exists>fc'. UnregisterSource 3 example_flow_control = Inr fc' \<and> 3 \<notin> set (backpressure_of fc' 7)" using P by blast
  ultimately show ?thesis by blast
qed

text \<open>
  C15. No source is blocked for ever: when the write events of the sinks that block it have fired, in any order, and their pending
  writes have been flushed, the source is enabled again.
\<close>

theorem blocked_source_resumes:
  assumes "fc_reach fc live" and "s \<in> live" and "distinct ks" and "set ks = set (blockers_of fc s)"
  shows "\<exists>fc'. flush_sinks ks fc = Inr fc' \<and> fc_reach fc' live \<and> read_enabled fc' s"
proof -
  obtain fc' where fc': "flush_sinks ks fc = Inr fc'" "fc_reach fc' live" "blockers_of fc' s = []"
    using flush_sinks_unblock [OF assms(1,3,4)] by blast
  then show ?thesis using fc_invD(9) [OF fc_reach_inv [OF fc'(2)] assms(2)] by auto
qed

theorem blocked_source_resumes_witness:
  "\<exists>fc'. flush_sinks [7] example_flow_control = Inr fc' \<and> read_enabled fc' 3"
  using blocked_source_resumes [OF example_flow_control_reach, of 3 "[7]"] by (auto simp: example_flow_control_blocked)

section \<open>Order of the values of a sink with overflow\<close>

datatype 't sink_call = Call_Write 't | Call_FlushPending

fun sink_run :: "('q, 't) TryWrite \<Rightarrow> 't sink_call list \<Rightarrow> 'q \<Rightarrow> 't list \<Rightarrow> 'q \<times> 't list" where
  "sink_run try_write [] q overflow = (q, overflow)"
| "sink_run try_write (Call_Write v # calls) q overflow = (let (_, q, overflow) = Sink_Write try_write q overflow v in sink_run try_write calls q overflow)"
| "sink_run try_write (Call_FlushPending # calls) q overflow = (let (_, q, overflow) = FlushPending try_write q overflow in sink_run try_write calls q overflow)"

fun written_values :: "'t sink_call list \<Rightarrow> 't list" where
  "written_values [] = []"
| "written_values (Call_Write v # calls) = v # written_values calls"
| "written_values (Call_FlushPending # calls) = written_values calls"

text \<open>The contract of \<open>TryWrite\<close>: the value is added at the end of what the sink has taken if and only if it answers true.\<close>

definition appends :: "('q, 't) TryWrite \<Rightarrow> ('q \<Rightarrow> 't list) \<Rightarrow> bool" where
  "appends try_write taken \<longleftrightarrow> (\<forall>q v. taken (snd (try_write q v)) = taken q @ (if fst (try_write q v) then [v] else []))"

lemma appendsD: "appends try_write taken \<Longrightarrow> try_write q v = (ok, q') \<Longrightarrow> taken q' = taken q @ (if ok then [v] else [])"
  by (metis appends_def fst_conv snd_conv)

lemma FlushPending_order:
  assumes "appends try_write taken" and "FlushPending try_write q overflow = (ok, q', overflow')"
  shows "taken q' @ overflow' = taken q @ overflow" and "ok \<longleftrightarrow> overflow' = []"
  using assms(2)
proof (atomize (full), induction overflow arbitrary: q)
  case (Cons v overflow)
  obtain w q1 where w: "try_write q v = (w, q1)" by (cases "try_write q v")
  show ?case using Cons.IH [of q1] Cons.prems appendsD [OF assms(1) w] by (cases w) (auto simp: w)
qed auto

lemma Sink_Write_order:
  assumes "appends try_write taken" and "Sink_Write try_write q overflow v = (ok, q', overflow')"
  shows "taken q' @ overflow' = taken q @ overflow @ [v]" and "ok \<longleftrightarrow> overflow' = []"
proof -
  obtain f q1 ov1 where f: "FlushPending try_write q overflow = (f, q1, ov1)" by (cases "FlushPending try_write q overflow") auto
  obtain w q2 where w: "try_write q1 v = (w, q2)" by (cases "try_write q1 v")
  note order = FlushPending_order [OF assms(1) f]
  show "taken q' @ overflow' = taken q @ overflow @ [v]" and "ok \<longleftrightarrow> overflow' = []"
    using assms(2) f w order appendsD [OF assms(1) w]
    by (auto simp: Sink_Write_def append_assoc [symmetric] simp del: append_assoc split: if_splits)
qed

text \<open>
  C27. A sink with overflow neither loses nor reorders values: after any sequence of writes and flushes, what the
  sink has taken followed by what is pending are the values written, in order. A write answers true exactly when nothing is
  left pending, which is when the writer may go on.
\<close>

theorem overflow_sink_keeps_order:
  assumes "appends try_write taken"
  shows "(\<forall>q' overflow'. sink_run try_write calls q overflow = (q', overflow') \<longrightarrow>
           taken q' @ overflow' = taken q @ overflow @ written_values calls)
    \<and> (fst (Sink_Write try_write q overflow v) \<longleftrightarrow> snd (snd (Sink_Write try_write q overflow v)) = [])"
proof (intro conjI allI impI)
  show "fst (Sink_Write try_write q overflow v) \<longleftrightarrow> snd (snd (Sink_Write try_write q overflow v)) = []"
    using Sink_Write_order(2) [OF assms, of q overflow v] by (metis prod.collapse)
  fix q' overflow' assume "sink_run try_write calls q overflow = (q', overflow')"
  then show "taken q' @ overflow' = taken q @ overflow @ written_values calls"
  proof (induction calls arbitrary: q overflow)
    case (Cons call calls)
    show ?case
    proof (cases call)
      case (Call_Write w)
      obtain ok q1 ov1 where "Sink_Write try_write q overflow w = (ok, q1, ov1)" by (cases "Sink_Write try_write q overflow w") auto
      then show ?thesis using Cons.IH [of q1 ov1] Cons.prems Call_Write Sink_Write_order(1) [OF assms, of q overflow w] by simp
    next
      case Call_FlushPending
      obtain ok q1 ov1 where "FlushPending try_write q overflow = (ok, q1, ov1)" by (cases "FlushPending try_write q overflow") auto
      then show ?thesis using Cons.IH [of q1 ov1] Cons.prems Call_FlushPending FlushPending_order(1) [OF assms, of q overflow]
        by (metis append_assoc case_prod_conv sink_run.simps(3) written_values.simps(3))
    qed
  qed simp
qed

theorem overflow_sink_keeps_order_witness:
  "let try_write = (\<lambda>q v. if length q < 2 then (True, q @ [v]) else (False, q));
       (q, overflow) = sink_run try_write [Call_Write 1, Call_Write 2, Call_Write 3, Call_FlushPending, Call_Write (4 :: nat)] [] []
   in q = [1, 2] \<and> overflow = [3, 4] \<and> q @ overflow = [1, 2, 3, 4]"
proof -
  define try_write where "try_write = (\<lambda>q (v :: nat). if length q < 2 then (True, q @ [v]) else (False, q))"
  have "appends try_write (\<lambda>q. q)" by (simp add: appends_def try_write_def)
  from overflow_sink_keeps_order [OF this, of "[Call_Write 1, Call_Write 2, Call_Write 3, Call_FlushPending, Call_Write 4]" "[]" "[]"]
  show ?thesis unfolding try_write_def [symmetric]
    by (simp add: Sink_Write_def try_write_def split_beta)
qed

end
