(* ===== verification/ObservableMap.thy ===== *)
theory ObservableMap
  imports OrderedDict
begin

text \<open>
  \<open>src/messages/observable_map.h\<close>: a map whose entries an event loop reads in the order of their first insertion. An
  event descriptor tells the event loop that there is something to read; it is modelled by its counter
  (\<open>eventfd(2)\<close> in non-blocking mode: a write that would exceed the maximum and a read of zero fail). A failed read leaves the
  variable it should set uninitialised, so the assertion on that variable counts as failed.
  The theorems: the descriptor is readable exactly when the map has entries, so no entry waits
  without the event loop being woken, and draining hands over the entries in order up to the first one
  after which the reader asks for a pause.
\<close>

section \<open>Definitions\<close>

record ('k, 'v) ObservableMap =
  om_map :: "('k, 'v) odict"
  read_ready_fd :: u64

definition ObservableMap_new :: "('k, 'v) ObservableMap" where
  "ObservableMap_new = \<lparr> om_map = [], read_ready_fd = 0 \<rparr>"

definition write_event_fd :: "u64 \<Rightarrow> u64 \<Rightarrow> bool \<times> u64" where
  "write_event_fd value fd = (if unat fd + unat value < 2 ^ 64 - 1 then (True, fd + value) else (False, fd))"

definition read_event_fd :: "u64 \<Rightarrow> u64 option \<times> u64" where
  "read_event_fd fd = (if fd = 0 then (None, 0) else (Some fd, 0))"

definition ObservableMap_Write :: "'k \<Rightarrow> 'v \<Rightarrow> ('k, 'v) ObservableMap \<Rightarrow> ('k, 'v) ObservableMap" where
  "ObservableMap_Write key value om =
     (case od_find (om_map om) key of
        None \<Rightarrow>
          let om = (if om_map om = [] then om\<lparr> read_ready_fd := snd (write_event_fd 1 (read_ready_fd om)) \<rparr> else om)
          in om\<lparr> om_map := od_emplace_back key value (om_map om) \<rparr>
      | Some _ \<Rightarrow> om\<lparr> om_map := od_assign key value (om_map om) \<rparr>)"

text \<open>The block that clears the read readiness, at the end of \<open>Remove\<close> and of \<open>Drain\<close>.\<close>

definition clear_readiness :: "('k, 'v) ObservableMap \<Rightarrow> failure + ('k, 'v) ObservableMap" where
  "clear_readiness om =
     (let (value, fd) = read_event_fd (read_ready_fd om)
      in andThen (rs_assert (case value of None \<Rightarrow> False | Some v \<Rightarrow> 0 < v)) (\<lambda>_. Inr (om\<lparr> read_ready_fd := fd \<rparr>)))"

definition ObservableMap_Remove :: "'k \<Rightarrow> ('k, 'v) ObservableMap \<Rightarrow> failure + ('k, 'v) ObservableMap" where
  "ObservableMap_Remove key om =
     (let erased = (od_find (om_map om) key \<noteq> None);
          om = om\<lparr> om_map := od_erase key (om_map om) \<rparr>
      in if erased \<and> om_map om = [] then clear_readiness om else Inr om)"

text \<open>
  \<open>Drain\<close>. An iterator is named by its key, \<open>None\<close> is the end. The iterator moves on before the entry is handed over, and
  the reader may change the map: an iterator whose entry it removes is invalid. The reader has a
  state of its own; the loop may not end when it keeps writing.
\<close>

type_synonym ('k, 'v, 's) reader =
  "'k \<times> 'v \<Rightarrow> ('k, 'v) ObservableMap \<Rightarrow> 's \<Rightarrow> (failure + bool \<times> ('k, 'v) ObservableMap \<times> 's) option"

definition od_begin :: "('k, 'v) odict \<Rightarrow> 'k option" where
  "od_begin m = (case m of [] \<Rightarrow> None | e # _ \<Rightarrow> Some (fst e))"

fun od_next :: "'k \<Rightarrow> ('k, 'v) odict \<Rightarrow> 'k option" where
  "od_next k [] = None"
| "od_next k (e # m) = (if fst e = k then od_begin m else od_next k m)"

partial_function (option) drain_loop ::
  "('k, 'v, 's) reader \<Rightarrow> 'k option \<Rightarrow> ('k, 'v) ObservableMap \<Rightarrow> 's \<Rightarrow> (failure + ('k, 'v) ObservableMap \<times> 's) option"
where
  "drain_loop DrainOne it om s =
     (case it of
        None \<Rightarrow> Some (Inr (om, s))
      | Some k \<Rightarrow>
          (case od_find (om_map om) k of
             None \<Rightarrow> Some (Inl Assert_failed)
           | Some v \<Rightarrow>
               (case DrainOne (k, v) (om\<lparr> om_map := od_erase k (om_map om) \<rparr>) s of
                  None \<Rightarrow> None
                | Some (Inl e) \<Rightarrow> Some (Inl e)
                | Some (Inr (go, om', s)) \<Rightarrow>
                    if go then drain_loop DrainOne (od_next k (om_map om)) om' s else Some (Inr (om', s)))))"

declare drain_loop.simps [code]

definition Drain :: "('k, 'v, 's) reader \<Rightarrow> ('k, 'v) ObservableMap \<Rightarrow> 's \<Rightarrow> (failure + ('k, 'v) ObservableMap \<times> 's) option" where
  "Drain DrainOne om s =
     (if om_map om = [] then Some (Inr (om, s))
      else case drain_loop DrainOne (od_begin (om_map om)) om s of
             None \<Rightarrow> None
           | Some (Inl e) \<Rightarrow> Some (Inl e)
           | Some (Inr (om, s)) \<Rightarrow>
               Some (if om_map om = [] then andThen (clear_readiness om) (\<lambda>om. Inr (om, s)) else Inr (om, s)))"

section \<open>Readiness\<close>

definition om_ok :: "('k, 'v) ObservableMap \<Rightarrow> bool" where
  "om_ok om \<longleftrightarrow> od_wf (om_map om) \<and> (read_ready_fd om \<noteq> 0 \<longleftrightarrow> om_map om \<noteq> [])"

lemma om_ok_new [simp]: "om_ok ObservableMap_new"
  by (simp add: om_ok_def ObservableMap_new_def)

lemma write_event_nonzero:
  shows "fd \<noteq> 0 \<Longrightarrow> snd (write_event_fd 1 fd) \<noteq> 0" and "snd (write_event_fd 1 0) \<noteq> 0"
proof -
  show "snd (write_event_fd 1 0) \<noteq> 0" by (simp add: write_event_fd_def)
  assume "fd \<noteq> 0"
  moreover have "unat (fd + 1) = unat fd + 1" if "unat fd + 1 < 2 ^ 64 - 1"
    using that by (subst unat_add_lem [THEN iffD1]) simp_all
  ultimately show "snd (write_event_fd 1 fd) \<noteq> 0"
    by (auto simp: write_event_fd_def unat_eq_0 [symmetric])
qed

lemma Write_map:
  "om_map (ObservableMap_Write k v om) =
     (if od_find (om_map om) k = None then om_map om @ [(k, v)] else od_assign k v (om_map om))"
  by (simp add: ObservableMap_Write_def od_emplace_back_def Let_def split: option.splits)

lemma Write_nonempty [simp]: "om_map (ObservableMap_Write k v om) \<noteq> []"
  by (auto simp: Write_map od_assign_def)

lemma Write_wf: "od_wf (om_map om) \<Longrightarrow> od_wf (om_map (ObservableMap_Write k v om))"
  using od_wf_emplace(2) [of "om_map om" k v] by (auto simp: Write_map od_emplace_back_def)

lemma Write_fd: "read_ready_fd om \<noteq> 0 \<or> om_map om = [] \<Longrightarrow> read_ready_fd (ObservableMap_Write k v om) \<noteq> 0"
  using write_event_nonzero
  by (cases "read_ready_fd om = 0") (auto simp: ObservableMap_Write_def Let_def split: option.splits)

lemma Write_ok: "om_ok om \<Longrightarrow> om_ok (ObservableMap_Write k v om)"
  using Write_wf [of om k v] Write_fd [of om k v] by (auto simp: om_ok_def)

lemma Write_find: "od_find (om_map (ObservableMap_Write k v om)) = (od_find (om_map om))(k \<mapsto> v)"
  by (auto simp: fun_eq_iff Write_map map_add_def split: option.splits)

lemma clear_readiness_ok: "read_ready_fd om \<noteq> 0 \<Longrightarrow> clear_readiness om = Inr (om\<lparr> read_ready_fd := 0 \<rparr>)"
  by (simp add: clear_readiness_def read_event_fd_def word_neq_0_conv)

lemma Remove_ok:
  assumes "om_ok om"
  obtains om' where "ObservableMap_Remove k om = Inr om'" and "om_ok om'" and "om_map om' = od_erase k (om_map om)"
proof (cases "od_find (om_map om) k \<noteq> None \<and> od_erase k (om_map om) = []")
  case True
  then have "om_map om \<noteq> []" by auto
  then have "read_ready_fd om \<noteq> 0" using assms by (simp add: om_ok_def)
  then show thesis
    using that [of "om\<lparr> om_map := [], read_ready_fd := 0 \<rparr>"] True
    by (simp add: ObservableMap_Remove_def clear_readiness_ok om_ok_def Let_def)
next
  case False
  have "od_erase k (om_map om) = om_map om" if "od_find (om_map om) k = None"
    using that by (auto simp: od_erase_def filter_id_conv map_of_eq_None_iff)
  then have "om_ok (om\<lparr> om_map := od_erase k (om_map om) \<rparr>)"
    using assms False by (cases "od_find (om_map om) k = None") (auto simp: om_ok_def)
  then show thesis using that [of "om\<lparr> om_map := od_erase k (om_map om) \<rparr>"] False
    by (auto simp: ObservableMap_Remove_def Let_def)
qed

section \<open>Draining\<close>

text \<open>
  The reference: the entries are handed over one after the other, each once, until the reader asks for a pause.
\<close>

fun serve :: "('k, 'v, 's) reader \<Rightarrow> u64 \<Rightarrow> ('k \<times> 'v) list \<Rightarrow> 's \<Rightarrow> (failure + ('k, 'v) ObservableMap \<times> 's) option" where
  "serve DrainOne fd [] s = Some (Inr (\<lparr> om_map = [], read_ready_fd = fd \<rparr>, s))"
| "serve DrainOne fd (e # es) s =
     (case DrainOne e \<lparr> om_map = es, read_ready_fd = fd \<rparr> s of
        None \<Rightarrow> None
      | Some (Inl x) \<Rightarrow> Some (Inl x)
      | Some (Inr (go, om, s)) \<Rightarrow> if go then serve DrainOne fd es s else Some (Inr (om, s)))"

text \<open>What the readers do with the map: write to it, and then only together with asking for a pause.\<close>

definition pauses_on_write :: "('k, 'v, 's) reader \<Rightarrow> bool" where
  "pauses_on_write DrainOne \<longleftrightarrow>
     (\<forall>e om s go om' s'. DrainOne e om s = Some (Inr (go, om', s')) \<longrightarrow>
        (if go then om' = om else \<exists>kvs. om' = fold (\<lambda>(k, v). ObservableMap_Write k v) kvs om))"

lemma pauses_on_writeD:
  assumes "pauses_on_write DrainOne"
  shows "DrainOne e om s = Some (Inr (True, om', s')) \<Longrightarrow> om' = om"
    and "DrainOne e om s = Some (Inr (False, om', s')) \<Longrightarrow> \<exists>kvs. om' = fold (\<lambda>(k, v). ObservableMap_Write k v) kvs om"
proof -
  have D: "DrainOne e om s = Some (Inr (go, om', s')) \<longrightarrow>
      (if go then om' = om else \<exists>kvs. om' = fold (\<lambda>(k, v). ObservableMap_Write k v) kvs om)" for go
    using assms unfolding pauses_on_write_def by (elim allE)
  show "DrainOne e om s = Some (Inr (True, om', s')) \<Longrightarrow> om' = om" using D [of True] by simp
  show "DrainOne e om s = Some (Inr (False, om', s')) \<Longrightarrow> \<exists>kvs. om' = fold (\<lambda>(k, v). ObservableMap_Write k v) kvs om"
    using D [of False] by simp
qed

lemma od_erase_first: "od_wf (e # es) \<Longrightarrow> od_erase (fst e) (e # es) = es"
  by (auto simp: od_wf_def od_erase_def filter_id_conv) (metis fst_conv image_eqI)

lemma drain_loop_serve:
  assumes "pauses_on_write DrainOne" and "od_wf es"
  shows "drain_loop DrainOne (od_begin es) \<lparr> om_map = es, read_ready_fd = fd \<rparr> s = serve DrainOne fd es s"
  using assms(2)
proof (induction es arbitrary: s)
  case Nil
  show ?case by (subst drain_loop.simps) (simp add: od_begin_def)
next
  case (Cons e es)
  have wf: "od_wf es" using Cons.prems by (simp add: od_wf_def)
  have find: "od_find (e # es) (fst e) = Some (snd e)" by (cases e) simp
  have "DrainOne e \<lparr> om_map = es, read_ready_fd = fd \<rparr> s = Some (Inr (True, om', s')) \<Longrightarrow>
      om' = \<lparr> om_map = es, read_ready_fd = fd \<rparr>" for om' s'
    using pauses_on_writeD(1) [OF assms(1)] .
  then show ?case
    by (subst drain_loop.simps)
      (auto simp: od_begin_def [of "e # es"] od_erase_first [OF Cons.prems] Cons.IH [OF wf] simp del: map_of.simps
        simp: find split: option.splits sum.splits if_splits)
qed

lemma writes_ok:
  assumes "read_ready_fd om \<noteq> 0" and "od_wf (om_map om)"
  shows "read_ready_fd (fold (\<lambda>(k, v). ObservableMap_Write k v) kvs om) \<noteq> 0 \<and> od_wf (om_map (fold (\<lambda>(k, v). ObservableMap_Write k v) kvs om))"
  using assms
proof (induction kvs arbitrary: om)
  case (Cons kv kvs)
  obtain k v where kv: "kv = (k, v)" by (cases kv)
  show ?case
    using Cons.IH [of "ObservableMap_Write k v om"] Write_fd [of om k v] Write_wf [of om k v] Cons.prems by (simp add: kv)
qed simp

lemma serve_ready:
  assumes "pauses_on_write DrainOne" and "od_wf es" and "fd \<noteq> 0" and "serve DrainOne fd es s = Some (Inr (om, s'))"
  shows "read_ready_fd om \<noteq> 0 \<and> od_wf (om_map om)"
  using assms(2,4)
proof (induction es arbitrary: s)
  case (Cons e es)
  obtain go om1 s1 where one: "DrainOne e \<lparr> om_map = es, read_ready_fd = fd \<rparr> s = Some (Inr (go, om1, s1))"
    using Cons.prems(2) by (auto split: option.splits sum.splits)
  have wf: "od_wf es" using Cons.prems(1) by (simp add: od_wf_def)
  show ?case
  proof (cases go)
    case True
    then show ?thesis using Cons.IH [OF wf] Cons.prems(2) one by simp
  next
    case False
    then have "DrainOne e \<lparr> om_map = es, read_ready_fd = fd \<rparr> s = Some (Inr (False, om1, s1))" using one by simp
    from pauses_on_writeD(2) [OF assms(1) this] obtain kvs where "om1 = fold (\<lambda>(k, v). ObservableMap_Write k v) kvs \<lparr> om_map = es, read_ready_fd = fd \<rparr>" ..
    then show ?thesis using writes_ok [of "\<lparr> om_map = es, read_ready_fd = fd \<rparr>" kvs] wf assms(3) Cons.prems(2) one False by simp
  qed
qed (use assms(3) in auto)

lemma Drain_serve:
  assumes "om_ok om" and "pauses_on_write DrainOne"
  shows "case serve DrainOne (read_ready_fd om) (om_map om) s of
      None \<Rightarrow> Drain DrainOne om s = None
    | Some (Inl e) \<Rightarrow> Drain DrainOne om s = Some (Inl e)
    | Some (Inr (om1, s')) \<Rightarrow> \<exists>om'. Drain DrainOne om s = Some (Inr (om', s')) \<and> om_ok om' \<and> om_map om' = om_map om1"
proof (cases "om_map om = []")
  case True
  then show ?thesis using assms(1) by (simp add: Drain_def)
next
  case False
  have wf: "od_wf (om_map om)" and fd: "read_ready_fd om \<noteq> 0" using assms(1) False by (auto simp: om_ok_def)
  have loop: "drain_loop DrainOne (od_begin (om_map om)) om s = serve DrainOne (read_ready_fd om) (om_map om) s"
    using drain_loop_serve [OF assms(2) wf, of "read_ready_fd om" s] by (cases om) simp
  show ?thesis
    using serve_ready [OF assms(2) wf fd, of s]
    by (auto simp: Drain_def loop False om_ok_def clear_readiness_ok split: option.split sum.split)
qed

text \<open>A reader that writes an entry and removes it again makes \<open>Drain\<close> read a descriptor that has been cleared.\<close>

lemma drain_write_remove_fails:
  "Drain (\<lambda>e om s. Some (andThen (ObservableMap_Remove (2 :: nat) (ObservableMap_Write 2 () om)) (\<lambda>om. Inr (True, om, s))))
     (ObservableMap_Write 1 () ObservableMap_new) () = Some (Inl Assert_failed)"
  by (simp add: Drain_def ObservableMap_Write_def ObservableMap_Remove_def ObservableMap_new_def clear_readiness_def
      write_event_fd_def read_event_fd_def od_begin_def od_emplace_back_def od_erase_def drain_loop.simps)

section \<open>Properties\<close>

text \<open>
  C16. The descriptor of the map is readable exactly when the map has entries, and stays so under writing, removing and draining,
  without a failed assertion: no entry is left waiting unnoticed. A write makes its value the one found under its
  key; removing removes just that. Draining hands over the entries in the order of their insertion, each
  once, up to the first after which the reader asks for a pause, and returns, provided that readers that write to the map ask for one.
\<close>

theorem observable_map_no_lost_wakeup:
  assumes "om_ok om" and "pauses_on_write DrainOne"
  shows "(read_ready_fd om \<noteq> 0 \<longleftrightarrow> om_map om \<noteq> [])
   \<and> om_ok (ObservableMap_Write k v om) \<and> od_find (om_map (ObservableMap_Write k v om)) = (od_find (om_map om))(k \<mapsto> v)
   \<and> (\<exists>om'. ObservableMap_Remove k om = Inr om' \<and> om_ok om' \<and> om_map om' = od_erase k (om_map om))
   \<and> (case serve DrainOne (read_ready_fd om) (om_map om) s of
        None \<Rightarrow> Drain DrainOne om s = None
      | Some (Inl e) \<Rightarrow> Drain DrainOne om s = Some (Inl e)
      | Some (Inr (om1, s')) \<Rightarrow> \<exists>om'. Drain DrainOne om s = Some (Inr (om', s')) \<and> om_ok om' \<and> om_map om' = om_map om1)"
proof (intro conjI)
  show "read_ready_fd om \<noteq> 0 \<longleftrightarrow> om_map om \<noteq> []" using assms(1) by (simp add: om_ok_def)
  show "\<exists>om'. ObservableMap_Remove k om = Inr om' \<and> om_ok om' \<and> om_map om' = od_erase k (om_map om)"
    using Remove_ok [OF assms(1), of k] by metis
qed (use Write_ok [OF assms(1)] Write_find Drain_serve [OF assms] in auto)

text \<open>The second entry is put back by a reader that asks for a pause.\<close>

theorem observable_map_no_lost_wakeup_witness:
  "let om = ObservableMap_Write ''c'' 3 (ObservableMap_Write ''a'' 9 (ObservableMap_Write ''b'' 2 (ObservableMap_Write ''a'' (1 :: nat) ObservableMap_new)));
       DrainOne = (\<lambda>e om seen. Some (Inr (if fst e = ''b'' then (False, ObservableMap_Write ''b'' 7 om, seen @ [e]) else (True, om, seen @ [e]))))
   in \<exists>om'. Drain DrainOne om [] = Some (Inr (om', [(''a'', 9), (''b'', 2)])) \<and> om_ok om'
        \<and> om_map om' = [(''c'', 3), (''b'', 7)] \<and> read_ready_fd om' \<noteq> 0"
proof -
  define om where "om = ObservableMap_Write ''c'' 3 (ObservableMap_Write ''a'' 9 (ObservableMap_Write ''b'' 2
    (ObservableMap_Write ''a'' (1 :: nat) ObservableMap_new)))"
  define D where "D = (\<lambda>e om seen. Some (Inr (if fst e = ''b'' then (False, ObservableMap_Write ''b'' 7 om, seen @ [e]) else (True, om, seen @ [e])))
    :: (failure + bool \<times> (string, nat) ObservableMap \<times> (string \<times> nat) list) option)"
  have "om_ok om" unfolding om_def by (intro Write_ok om_ok_new)
  moreover have "pauses_on_write D"
    by (auto simp: pauses_on_write_def D_def intro!: exI [of _ "[(''b'', 7)]"])
  ultimately have "case serve D (read_ready_fd om) (om_map om) [] of
        None \<Rightarrow> Drain D om [] = None
      | Some (Inl e) \<Rightarrow> Drain D om [] = Some (Inl e)
      | Some (Inr (om1, s')) \<Rightarrow> \<exists>om'. Drain D om [] = Some (Inr (om', s')) \<and> om_ok om' \<and> om_map om' = om_map om1"
    using observable_map_no_lost_wakeup [of om D "''a''" 0 "[]"] by blast
  moreover have "om_map om = [(''a'', 9), (''b'', 2), (''c'', 3)]" by (simp add: om_def Write_map od_assign_def ObservableMap_new_def)
  ultimately have "\<exists>om'. Drain D om [] = Some (Inr (om', [(''a'', 9), (''b'', 2)])) \<and> om_ok om' \<and> om_map om' = [(''c'', 3), (''b'', 7)]"
    by (simp add: D_def Write_map)
  then show ?thesis unfolding om_def [symmetric] D_def [symmetric] Let_def by (auto simp: om_ok_def)
qed

end
