(* ===== verification/TopicTailer.thy ===== *)
theory TopicTailer
  imports TopicManager LogReader CacheVisit ObservableMap
begin

text \<open>
  \<open>TopicTailer\<close> of \<open>src/controltower/topic_tailer.{h,cc}\<close>: the part of a control tower that reads logs for the
  subscribers of topics. It composes the log readers, the topic managers, the subscription map, the data cache and the
  queues of pending work. The handlers are functions on the state. Messages to the subscribers, calls of the log tailer and requests for the
  latest sequence number are recorded, in order, as the effects of the tailer; what comes back from outside
  is a parameter: the log of a topic, the worker of a subscriber, whether the sinks accept a message, and the status of the
  log tailer. A topic is keyed by the bytes of its \<open>TopicUUID\<close>. A reader of \<open>log_readers_\<close> is named by its index.
  \<open>None\<close> stands for a call that does not return. Logging, statistics and the thread checks are left out.
\<close>

section \<open>State\<close>

datatype effect =
    On_message AnyMessage "CopilotSub list"
  | On_tailer tailer_call
  | Find_latest_seqno LogID

record PendingSubscription =
  ps_logid :: LogID
  ps_seqno :: SequenceNumber

datatype CacheRead = kNoneRead | kReadContinue | kReadBackoff

record TopicTailer =
  log_readers :: "LogReader list"
  pending_reader :: LogReader
  topic_map :: "(LogID, TopicManager) umap"
  stream_subscriptions :: "topic_uuid SubscriptionMap"
  tail_seqno_cached :: "(LogID, SequenceNumber) umap"
  pending_find_time_response :: "(LogID, CopilotSub list) umap"
  pending_find_time_requests :: "LogID list"
  data_cache :: DataCache
  reentry_cache_readers :: "(LogID \<times> nat, unit) ObservableMap"
  cache_readers :: "(CopilotSub, PendingSubscription) ObservableMap option list"
  effects :: "effect list"
  flow_failed :: bool

text \<open>
  \<open>flow_failed\<close> is the flag of the flow of the callback being run. \<open>accepts\<close> says whether the sinks
  take the last message of a history without asking for backpressure.
\<close>

record tower_env =
  te_platform :: platform
  GetLogID :: "topic_uuid \<Rightarrow> Status \<times> LogID"
  copilot_worker :: "CopilotSub \<Rightarrow> int"
  max_find_time_requests :: u64
  accepts :: "effect list \<Rightarrow> bool"
  tailer_status :: "effect list \<Rightarrow> Status"

text \<open>Sequencing of calls that can fail or not return.\<close>

definition andThenO :: "(failure + 'a) option \<Rightarrow> ('a \<Rightarrow> (failure + 'b) option) \<Rightarrow> (failure + 'b) option" where
  "andThenO m f = (case m of None \<Rightarrow> None | Some (Inl e) \<Rightarrow> Some (Inl e) | Some (Inr x) \<Rightarrow> f x)"

definition TopicTailer_new :: "DataCache \<Rightarrow> TopicTailer" where
  "TopicTailer_new dc =
     \<lparr> log_readers = [], pending_reader = LogReader_new True 0 0, topic_map = [], stream_subscriptions = [], tail_seqno_cached = [],
       pending_find_time_response = [], pending_find_time_requests = [], data_cache = dc,
       reentry_cache_readers = ObservableMap_new, cache_readers = [], effects = [], flow_failed = False \<rparr>"

definition TopicTailer_Initialize :: "u64 list \<Rightarrow> u64 \<Rightarrow> TopicTailer \<Rightarrow> TopicTailer" where
  "TopicTailer_Initialize reader_ids lag t =
     t\<lparr> log_readers := log_readers t @ map (\<lambda>reader_id. LogReader_new False reader_id lag) reader_ids,
        pending_reader := LogReader_new True 0 lag \<rparr>"

section \<open>Messages and subscribers\<close>

definition kGuestTenant :: TenantID where "kGuestTenant = 1"

definition MessageGap_new ::
  "TenantID \<Rightarrow> NamespaceID \<Rightarrow> Topic \<Rightarrow> GapType \<Rightarrow> SequenceNumber \<Rightarrow> SequenceNumber \<Rightarrow> MessageGap" where
  "MessageGap_new tenant ns topic type from to =
     \<lparr> msg_type = MessageType_value mGap, tenantid = tenant, gap_namespace_id = ns, gap_topic_name = topic,
       gap_gap_type = GapType_value type, gap_from = from, gap_to = to \<rparr>"

definition uuid_topic_id :: "topic_uuid \<Rightarrow> failure + NamespaceID \<times> Topic" where
  "uuid_topic_id u = (case fst (GetTopicID u) of None \<Rightarrow> Inl Assert_failed | Some topic_id \<Rightarrow> Inr topic_id)"

definition gap_message :: "topic_uuid \<Rightarrow> GapType \<Rightarrow> SequenceNumber \<Rightarrow> SequenceNumber \<Rightarrow> failure + MessageGap" where
  "gap_message topic type from to =
     andThen (uuid_topic_id topic) (\<lambda>(ns, name). Inr (MessageGap_new kGuestTenant ns name type from to))"

definition data_uuid :: "MessageData \<Rightarrow> topic_uuid" where
  "data_uuid m = PutTopicID [] (data_namespace_id m) (data_topic_name m)"

definition SetPreviousSequenceNumber :: "SequenceNumber \<Rightarrow> MessageData \<Rightarrow> MessageData" where
  "SetPreviousSequenceNumber prev m = m\<lparr> data_seqno_prev := prev \<rparr>"

text \<open>\<open>on_message_\<close> with the flow of the callback, or with a sourceless one.\<close>

definition on_message :: "tower_env \<Rightarrow> AnyMessage \<Rightarrow> CopilotSub list \<Rightarrow> TopicTailer \<Rightarrow> TopicTailer" where
  "on_message env m recipients t =
     (let t = t\<lparr> effects := effects t @ [On_message m recipients] \<rparr>
      in t\<lparr> flow_failed := flow_failed t \<or> \<not> accepts env (effects t) \<rparr>)"

definition on_message_sourceless :: "AnyMessage \<Rightarrow> CopilotSub list \<Rightarrow> TopicTailer \<Rightarrow> TopicTailer" where
  "on_message_sourceless m recipients t = t\<lparr> effects := effects t @ [On_message m recipients] \<rparr>"

definition tailer_calls :: "tailer_call list \<Rightarrow> TopicTailer \<Rightarrow> TopicTailer" where
  "tailer_calls calls t = t\<lparr> effects := effects t @ map On_tailer calls \<rparr>"

definition set_reader :: "nat \<Rightarrow> LogReader \<Rightarrow> TopicTailer \<Rightarrow> TopicTailer" where
  "set_reader i r t = t\<lparr> log_readers := (log_readers t)[i := r] \<rparr>"

text \<open>\<open>topic_map_[log_id]\<close>, and the visit of the subscribers of a topic every handler makes.\<close>

definition topic_manager :: "TopicTailer \<Rightarrow> LogID \<Rightarrow> TopicManager" where
  "topic_manager t log_id = (case umap_find (topic_map t) log_id of None \<Rightarrow> [] | Some tm \<Rightarrow> tm)"

definition advance_subscribers ::
  "LogID \<Rightarrow> topic_uuid \<Rightarrow> SequenceNumber \<Rightarrow> SequenceNumber \<Rightarrow> TopicTailer \<Rightarrow> CopilotSub list \<times> TopicTailer" where
  "advance_subscribers log_id topic from to t =
     (let (tm, recipients) = VisitSubscribers (topic_manager t log_id) topic from to
            (\<lambda>sub recipients. (SetSequenceNumber (to + 1) sub, recipients @ [ts_id sub])) []
      in (recipients, t\<lparr> topic_map := umap_set (topic_map t) log_id tm \<rparr>))"

text \<open>The estimate of the tail of a log grows with the records and gaps that are read.\<close>

definition update_tail :: "LogID \<Rightarrow> SequenceNumber \<Rightarrow> TopicTailer \<Rightarrow> TopicTailer" where
  "update_tail log_id seqno t =
     (case umap_find (tail_seqno_cached t) log_id of
        None \<Rightarrow> t
      | Some tail \<Rightarrow> if tail \<le> seqno then t\<lparr> tail_seqno_cached := umap_set (tail_seqno_cached t) log_id (seqno + 1) \<rparr> else t)"

definition GetTailSeqnoEstimate :: "TopicTailer \<Rightarrow> LogID \<Rightarrow> SequenceNumber" where
  "GetTailSeqnoEstimate t log_id = (case umap_find (tail_seqno_cached t) log_id of None \<Rightarrow> 0 | Some s \<Rightarrow> s)"

section \<open>Readers\<close>

definition FindLogReader :: "TopicTailer \<Rightarrow> u64 \<Rightarrow> nat option" where
  "FindLogReader t rid =
     (case filter (\<lambda>i. reader_id (log_readers t ! i) = rid) [0..<length (log_readers t)] of [] \<Rightarrow> None | i # _ \<Rightarrow> Some i)"

datatype reader_ref = Pending_reader | Log_reader nat

fun best_reader :: "topic_uuid \<Rightarrow> LogID \<Rightarrow> SequenceNumber \<Rightarrow> (nat \<times> LogReader) list \<Rightarrow> reader_ref \<times> u64 \<Rightarrow> reader_ref" where
  "best_reader topic logid seqno [] (best, best_cost) = best"
| "best_reader topic logid seqno ((i, r) # rs) (best, best_cost) =
     (let reader_cost = SubscriptionCost r topic logid seqno
      in best_reader topic logid seqno rs (if reader_cost < best_cost then (Log_reader i, reader_cost) else (best, best_cost)))"

definition ReaderForNewSubscription :: "TopicTailer \<Rightarrow> topic_uuid \<Rightarrow> LogID \<Rightarrow> SequenceNumber \<Rightarrow> reader_ref" where
  "ReaderForNewSubscription t topic logid seqno =
     (if length (log_readers t) = 1 then Log_reader 0
      else best_reader topic logid seqno (zip [0..<length (log_readers t)] (log_readers t)) (Pending_reader, kSubscriptionCostRewind))"

text \<open>The merge of reader \<open>src\<close> into reader \<open>dest\<close>, with what the virtual reader holds handed to \<open>src\<close>.\<close>

definition merge_readers :: "tower_env \<Rightarrow> nat \<Rightarrow> nat \<Rightarrow> LogID \<Rightarrow> TopicTailer \<Rightarrow> failure + TopicTailer" where
  "merge_readers env src dest log_id t =
     andThen (MergeInto (log_readers t ! src) (log_readers t ! dest) log_id) (\<lambda>(s, d, calls).
       let t = tailer_calls calls (set_reader dest d (set_reader src s t))
       in if IsLogOpen (pending_reader t) log_id
          then andThen (StealLogSubscriptions (tailer_status env (effects t)) (log_readers t ! src) (pending_reader t) log_id)
                 (\<lambda>(s, p, calls). Inr (tailer_calls calls ((set_reader src s t)\<lparr> pending_reader := p \<rparr>)))
          else Inr t)"

fun attempt_merges :: "tower_env \<Rightarrow> nat \<Rightarrow> LogID \<Rightarrow> nat list \<Rightarrow> TopicTailer \<Rightarrow> failure + bool \<times> TopicTailer" where
  "attempt_merges env src log_id [] t = Inr (False, t)"
| "attempt_merges env src log_id (dest # rest) t =
     (if src = dest then attempt_merges env src log_id rest t
      else andThen (CanMergeInto (log_readers t ! src) (log_readers t ! dest) log_id) (\<lambda>can.
             if can then andThen (merge_readers env src dest log_id t) (\<lambda>t. Inr (True, t))
             else attempt_merges env src log_id rest t))"

definition AttemptReaderMerges :: "tower_env \<Rightarrow> nat \<Rightarrow> LogID \<Rightarrow> TopicTailer \<Rightarrow> failure + bool \<times> TopicTailer" where
  "AttemptReaderMerges env src log_id t = attempt_merges env src log_id [0..<length (log_readers t)] t"

section \<open>Records\<close>

text \<open>The callback of \<open>BumpLaggingSubscriptions\<close> for one topic, and for all the bumped topics in order.\<close>

definition bump_topic :: "tower_env \<Rightarrow> LogID \<Rightarrow> SequenceNumber \<Rightarrow> topic_uuid \<times> SequenceNumber \<Rightarrow> TopicTailer \<Rightarrow> failure + TopicTailer" where
  "bump_topic env log_id next_seqno b t =
     (let (topic, bump_seqno) = b; (bumped, t) = advance_subscribers log_id topic bump_seqno next_seqno t
      in if bumped = [] then Inr t
         else andThen (gap_message topic kBenign bump_seqno next_seqno) (\<lambda>g. Inr (on_message env (Gap g) bumped t)))"

fun bump_topics :: "tower_env \<Rightarrow> LogID \<Rightarrow> SequenceNumber \<Rightarrow> (topic_uuid \<times> SequenceNumber) list \<Rightarrow> TopicTailer \<Rightarrow> failure + TopicTailer" where
  "bump_topics env log_id next_seqno [] t = Inr t"
| "bump_topics env log_id next_seqno (b # bs) t =
     andThen (bump_topic env log_id next_seqno b t) (bump_topics env log_id next_seqno bs)"

text \<open>A record is sent to the subscribers between the last record of its topic and itself.\<close>

definition deliver_record ::
  "tower_env \<Rightarrow> LogID \<Rightarrow> SequenceNumber \<Rightarrow> MessageData \<Rightarrow> TopicTailer \<Rightarrow> bool \<times> MessageData \<times> TopicTailer" where
  "deliver_record env log_id prev_seqno data t =
     (let (recipients, t) = advance_subscribers log_id (data_uuid data) prev_seqno (data_seqno data) t
      in if recipients \<noteq> []
         then let data = SetPreviousSequenceNumber prev_seqno data in (True, data, on_message env (Data data) recipients t)
         else (False, data, t))"

definition ReceiveLogRecord :: "tower_env \<Rightarrow> MessageData \<Rightarrow> LogID \<Rightarrow> nat \<Rightarrow> TopicTailer \<Rightarrow> (failure + TopicTailer) option" where
  "ReceiveLogRecord env data log_id i t =
     (let next_seqno = data_seqno data; reader = log_readers t ! i
      in andThenO (Some (rs_assert (next_seqno = GetNextSequenceNumber reader log_id))) (\<lambda>_.
         andThenO (Some (ProcessRecord reader log_id next_seqno (data_uuid data))) (\<lambda>(prev_seqno, reader).
           let t = update_tail log_id next_seqno (set_reader i reader t)
           in andThenO
                (if prev_seqno \<noteq> 0
                 then let (_, data, t) = deliver_record env log_id prev_seqno data t
                      in case BumpLaggingSubscriptions (log_readers t ! i) log_id next_seqno of
                           None \<Rightarrow> None
                         | Some (reader, bumped) \<Rightarrow>
                             Some (andThen (bump_topics env log_id next_seqno bumped (set_reader i reader t)) (\<lambda>t. Inr (data, t)))
                 else Some (Inr (data, t)))
                (\<lambda>(data, t).
                   Some (andThen
                     (DataCache_StoreData (te_platform env) (data_cache t) (data_namespace_id data) (data_topic_name data) log_id data)
                     (\<lambda>dc. Inr (t\<lparr> data_cache := dc \<rparr>)))))))"

section \<open>Reading from the cache\<close>

text \<open>The callback of \<open>AdvanceReaderFromCache\<close>; its own state is the tailer and the flag \<open>backoff\<close>.\<close>

definition advance_visitor :: "tower_env \<Rightarrow> LogID \<Rightarrow> nat \<Rightarrow> (TopicTailer \<times> bool) visitor" where
  "advance_visitor env log_id i data s =
     (let (t, backoff) = s; reader = log_readers t ! i; next_seqno = data_seqno data
      in andThen (rs_assert (GetNextSequenceNumber reader log_id \<le> next_seqno)) (\<lambda>_.
         andThen (ProcessRecord reader log_id next_seqno (data_uuid data)) (\<lambda>(prev_seqno, reader).
           let t = set_reader i reader t;
               (data, t) = (if prev_seqno \<noteq> 0 then snd (deliver_record env log_id prev_seqno data t) else (data, t))
           in andThen (rs_assert (\<not> backoff)) (\<lambda>_.
                Inr (\<not> flow_failed t, data, t, flow_failed t)))))"

text \<open>The name of the topic when there is exactly one with subscribers in the log, empty otherwise.\<close>

definition lookup_topic :: "TopicManager \<Rightarrow> failure + slice" where
  "lookup_topic tm =
     andThen (VisitTopics tm
       (\<lambda>topic s.
          case s of
            Inl e \<Rightarrow> (False, Inl e)
          | Inr (topic_count, lookup) \<Rightarrow>
              (case uuid_topic_id topic of
                 Inl e \<Rightarrow> (False, Inl e)
               | Inr (namespace_id, topic_name) \<Rightarrow>
                   let topic_count = topic_count + 1
                   in if 1 < topic_count then (False, Inr (topic_count, [])) else (True, Inr (topic_count, topic_name))))
       (Inr (0 :: int, []))) (\<lambda>(_, lookup). Inr lookup)"

definition AdvanceReaderFromCache ::
  "tower_env \<Rightarrow> LogID \<Rightarrow> nat \<Rightarrow> TopicTailer \<Rightarrow> (failure + CacheRead \<times> TopicTailer) option" where
  "AdvanceReaderFromCache env log_id i t =
     (if DataCache_GetCapacity (data_cache t) = 0 then Some (Inr (kNoneRead, t))
      else let seqno = GetNextSequenceNumber (log_readers t ! i) log_id
           in if seqno = 0 then Some (Inr (kNoneRead, t))
              else let t = t\<lparr> topic_map := umap_set (topic_map t) log_id (topic_manager t log_id) \<rparr>
                   in andThenO (Some (lookup_topic (topic_manager t log_id))) (\<lambda>lookup.
                      andThenO (VisitCache (te_platform env) (data_cache t) log_id seqno lookup (advance_visitor env log_id i) (t, False))
                        (\<lambda>(seqno', dc, t, backoff).
                           let t = t\<lparr> data_cache := dc \<rparr>
                           in if seqno \<noteq> seqno' then Some (Inr (if backoff then kReadBackoff else kReadContinue, t))
                              else Some (andThen (rs_assert (\<not> backoff)) (\<lambda>_. Inr (kNoneRead, t))))))"

definition write_reentry :: "LogID \<Rightarrow> nat \<Rightarrow> TopicTailer \<Rightarrow> TopicTailer" where
  "write_reentry log_id i t = t\<lparr> reentry_cache_readers := ObservableMap_Write (log_id, i) () (reentry_cache_readers t) \<rparr>"

text \<open>A call of \<open>PauseReading\<close> or \<open>RestartReading\<close> of reader \<open>i\<close>.\<close>

definition on_reader ::
  "nat \<Rightarrow> (LogReader \<Rightarrow> failure + LogReader \<times> tailer_call list) \<Rightarrow> TopicTailer \<Rightarrow> failure + TopicTailer" where
  "on_reader i f t = andThen (f (log_readers t ! i)) (\<lambda>(r, calls). Inr (tailer_calls calls (set_reader i r t)))"

definition SendCacheRecord :: "tower_env \<Rightarrow> LogID \<Rightarrow> nat \<Rightarrow> TopicTailer \<Rightarrow> (failure + TopicTailer) option" where
  "SendCacheRecord env log_id i t =
     (if \<not> IsLogOpen (log_readers t ! i) log_id then Some (Inr t)
      else andThenO (AdvanceReaderFromCache env log_id i t) (\<lambda>(read, t).
             if read = kReadBackoff
             then Some (andThen (on_reader i (\<lambda>r. PauseReading r log_id) t) (\<lambda>t. Inr (write_reentry log_id i t)))
             else Some (andThen (AttemptReaderMerges env i log_id t) (\<lambda>(merged, t).
                    if \<not> merged then on_reader i (\<lambda>r. RestartReading r log_id) t else Inr t))))"

definition SendLogRecord :: "tower_env \<Rightarrow> MessageData \<Rightarrow> LogID \<Rightarrow> u64 \<Rightarrow> TopicTailer \<Rightarrow> (failure + TopicTailer) option" where
  "SendLogRecord env msg log_id rid t =
     (case FindLogReader t rid of
        None \<Rightarrow> Some (Inl Assert_failed)
      | Some i \<Rightarrow>
          andThenO (ReceiveLogRecord env msg log_id i t) (\<lambda>t.
            let seqno = GetNextSequenceNumber (log_readers t ! i) log_id
            in Some (andThen (rs_assert (seqno \<noteq> 0)) (\<lambda>_.
                     andThen (DataCache_HasEntry (te_platform env) (data_cache t) log_id seqno) (\<lambda>(has, dc).
                       let t = t\<lparr> data_cache := dc \<rparr>
                       in if has then andThen (on_reader i (\<lambda>r. PauseReading r log_id) t) (\<lambda>t. Inr (write_reentry log_id i t))
                          else andThen (AttemptReaderMerges env i log_id t) (\<lambda>(_, t). Inr t))))))"

section \<open>Gaps\<close>

definition gap_topic ::
  "tower_env \<Rightarrow> LogID \<Rightarrow> GapType \<Rightarrow> SequenceNumber \<Rightarrow> SequenceNumber \<Rightarrow> nat \<Rightarrow> topic_uuid \<Rightarrow> TopicTailer \<Rightarrow> failure + TopicTailer" where
  "gap_topic env log_id type from to i topic t =
     andThen (ProcessGap (log_readers t ! i) log_id topic type from to) (\<lambda>(prev_seqno, reader).
       let t = update_tail log_id to (set_reader i reader t);
           (recipients, t) = advance_subscribers log_id topic prev_seqno to t
       in if recipients \<noteq> []
          then andThen (gap_message topic type prev_seqno to) (\<lambda>g. Inr (on_message env (Gap g) recipients t))
          else Inr t)"

definition SendGapRecord ::
  "tower_env \<Rightarrow> LogID \<Rightarrow> GapType \<Rightarrow> SequenceNumber \<Rightarrow> SequenceNumber \<Rightarrow> u64 \<Rightarrow> TopicTailer \<Rightarrow> failure + TopicTailer" where
  "SendGapRecord env log_id type from to rid t =
     (case FindLogReader t rid of
        None \<Rightarrow> Inl Assert_failed
      | Some i \<Rightarrow>
          let tm = topic_manager t log_id;
              t = t\<lparr> topic_map := umap_set (topic_map t) log_id tm \<rparr>
          in andThen
               (VisitTopics tm
                  (\<lambda>topic s. case s of
                      Inl e \<Rightarrow> (False, Inl e)
                    | Inr t \<Rightarrow> (case gap_topic env log_id type from to i topic t of Inl e \<Rightarrow> (False, Inl e) | Inr t \<Rightarrow> (True, Inr t)))
                  (Inr t))
               (\<lambda>t. let r = log_readers t ! i;
                        r = (if type = kBenign then ProcessBenignGap r log_id from to else FlushHistory r log_id (to + 1))
                    in andThen (AttemptReaderMerges env i log_id (set_reader i r t)) (\<lambda>(_, t). Inr t)))"

section \<open>Requests for the latest sequence number\<close>

definition InFlightFindLatestSeqnoRequests :: "TopicTailer \<Rightarrow> u64" where
  "InFlightFindLatestSeqnoRequests t =
     of_nat (length (pending_find_time_response t)) - of_nat (length (pending_find_time_requests t))"

definition SendFindLatestSeqnoRequest :: "tower_env \<Rightarrow> LogID \<Rightarrow> TopicTailer \<Rightarrow> failure + TopicTailer" where
  "SendFindLatestSeqnoRequest env logid t =
     andThen (rs_assert (InFlightFindLatestSeqnoRequests t \<le> max_find_time_requests env)) (\<lambda>_.
       Inr (t\<lparr> effects := effects t @ [Find_latest_seqno logid] \<rparr>))"

section \<open>Subscriptions\<close>

text \<open>\<open>GetPendingReaderQueue\<close> returns the index of the queue, which it creates when there is none.\<close>

definition GetPendingReaderQueue :: "tower_env \<Rightarrow> CopilotSub \<Rightarrow> TopicTailer \<Rightarrow> failure + nat \<times> TopicTailer" where
  "GetPendingReaderQueue env sub t =
     (let worker_id = copilot_worker env sub
      in if worker_id = - 1 then Inl Assert_failed
         else if worker_id < 0 then Inl Length_error
         else let w = nat worker_id;
                  qs = cache_readers t @ replicate (w + 1 - length (cache_readers t)) None;
                  qs = (case qs ! w of None \<Rightarrow> qs[w := Some ObservableMap_new] | Some _ \<Rightarrow> qs)
              in Inr (w, t\<lparr> cache_readers := qs \<rparr>))"

definition pending_queue :: "TopicTailer \<Rightarrow> nat \<Rightarrow> (CopilotSub, PendingSubscription) ObservableMap" where
  "pending_queue t w = (case cache_readers t ! w of None \<Rightarrow> ObservableMap_new | Some q \<Rightarrow> q)"

definition set_pending_queue :: "nat \<Rightarrow> (CopilotSub, PendingSubscription) ObservableMap \<Rightarrow> TopicTailer \<Rightarrow> TopicTailer" where
  "set_pending_queue w q t = t\<lparr> cache_readers := (cache_readers t)[w := Some q] \<rparr>"

definition write_pending :: "tower_env \<Rightarrow> CopilotSub \<Rightarrow> LogID \<Rightarrow> SequenceNumber \<Rightarrow> TopicTailer \<Rightarrow> failure + TopicTailer" where
  "write_pending env sub logid seqno t =
     andThen (GetPendingReaderQueue env sub t) (\<lambda>(w, t).
       Inr (set_pending_queue w (ObservableMap_Write sub \<lparr> ps_logid = logid, ps_seqno = seqno \<rparr> (pending_queue t w)) t))"

definition AddSubscriberInternal ::
  "tower_env \<Rightarrow> topic_uuid \<Rightarrow> CopilotSub \<Rightarrow> LogID \<Rightarrow> SequenceNumber \<Rightarrow> TopicTailer \<Rightarrow> failure + TopicTailer" where
  "AddSubscriberInternal env topic sub logid seqno t =
     andThen (rs_assert (seqno \<noteq> 0)) (\<lambda>_.
     andThen (write_pending env sub logid seqno t) (\<lambda>t.
       Inr (t\<lparr> stream_subscriptions := SubscriptionMap_Insert (stream_subscriptions t) (cs_stream_id sub) (cs_sub_id sub) topic \<rparr>)))"

text \<open>With the flow of the callback, or with a sourceless one.\<close>

definition AddTailSubscriber ::
  "tower_env \<Rightarrow> bool \<Rightarrow> topic_uuid \<Rightarrow> CopilotSub \<Rightarrow> LogID \<Rightarrow> SequenceNumber \<Rightarrow> TopicTailer \<Rightarrow> failure + TopicTailer" where
  "AddTailSubscriber env sourceless topic sub logid seqno t =
     andThen (gap_message topic kBenign 0 (seqno - 1)) (\<lambda>g.
       AddSubscriberInternal env topic sub logid seqno
         (if sourceless then on_message_sourceless (Gap g) [sub] t else on_message env (Gap g) [sub] t))"

definition TopicTailer_AddSubscriber ::
  "tower_env \<Rightarrow> topic_uuid \<Rightarrow> SequenceNumber \<Rightarrow> CopilotSub \<Rightarrow> TopicTailer \<Rightarrow> failure + Status \<times> TopicTailer" where
  "TopicTailer_AddSubscriber env topic start sub t =
     (let (st, logid) = GetLogID env topic
      in if \<not> status_ok st then Inr (st, t)
         else andThen
           (if start = 0
            then let tail_seqno = GetTailSeqnoEstimate t logid
                 in if tail_seqno \<noteq> 0 then AddTailSubscriber env True topic sub logid tail_seqno t
                    else let t = t\<lparr> stream_subscriptions :=
                                     SubscriptionMap_Insert (stream_subscriptions t) (cs_stream_id sub) (cs_sub_id sub) topic \<rparr>;
                             in_flight = InFlightFindLatestSeqnoRequests t;
                             pending = (case umap_find (pending_find_time_response t) logid of None \<Rightarrow> [] | Some subs \<Rightarrow> subs) @ [sub];
                             t = t\<lparr> pending_find_time_response := umap_set (pending_find_time_response t) logid pending \<rparr>
                         in if 1 < length pending then Inr t
                            else if in_flight < max_find_time_requests env then SendFindLatestSeqnoRequest env logid t
                            else if logid \<notin> set (pending_find_time_requests t)
                            then Inr (t\<lparr> pending_find_time_requests := pending_find_time_requests t @ [logid] \<rparr>)
                            else Inr t
            else AddSubscriberInternal env topic sub logid start t)
           (\<lambda>t. Inr (OK, t)))"

text \<open>The loop of \<open>ProcessFindLatestSeqnoResponse\<close> over the subscribers that wait for the response.\<close>

fun add_waiting :: "tower_env \<Rightarrow> LogID \<Rightarrow> SequenceNumber \<Rightarrow> CopilotSub list \<Rightarrow> TopicTailer \<Rightarrow> failure + TopicTailer" where
  "add_waiting env logid seqno [] t = Inr t"
| "add_waiting env logid seqno (sub # subs) t =
     (case SubscriptionMap_Find (stream_subscriptions t) (cs_stream_id sub) (cs_sub_id sub) of
        Some topic \<Rightarrow> andThen (AddTailSubscriber env False topic sub logid seqno t) (add_waiting env logid seqno subs)
      | None \<Rightarrow> add_waiting env logid seqno subs t)"

definition ProcessFindLatestSeqnoResponse ::
  "tower_env \<Rightarrow> Status \<Rightarrow> LogID \<Rightarrow> SequenceNumber \<Rightarrow> TopicTailer \<Rightarrow> failure + TopicTailer" where
  "ProcessFindLatestSeqnoResponse env status logid seqno t =
     (if \<not> status_ok status then SendFindLatestSeqnoRequest env logid t
      else andThen
        (add_waiting env logid seqno (case umap_find (pending_find_time_response t) logid of None \<Rightarrow> [] | Some subs \<Rightarrow> subs) t) (\<lambda>t.
        let t = t\<lparr> pending_find_time_response := umap_erase (pending_find_time_response t) logid,
                   tail_seqno_cached := umap_set (tail_seqno_cached t) logid
                     (case umap_find (tail_seqno_cached t) logid of None \<Rightarrow> seqno | Some s \<Rightarrow> max s seqno) \<rparr>
        in case pending_find_time_requests t of
             [] \<Rightarrow> Inr t
           | next_request_log_id # rest \<Rightarrow>
               andThen (SendFindLatestSeqnoRequest env next_request_log_id (t\<lparr> pending_find_time_requests := rest \<rparr>)) (\<lambda>t.
               andThen (rs_assert (InFlightFindLatestSeqnoRequests t = max_find_time_requests env)) (\<lambda>_. Inr t))))"

text \<open>The callback of \<open>DeliverFromCache\<close>; its own state is the tailer, the sequence number up to which the topic was delivered, and the flag \<open>backoff\<close>.\<close>

definition deliver_visitor ::
  "tower_env \<Rightarrow> topic_uuid \<Rightarrow> CopilotSub \<Rightarrow> SequenceNumber \<Rightarrow> (TopicTailer \<times> SequenceNumber \<times> bool) visitor" where
  "deliver_visitor env topic sub seqno data s =
     (let (t, delivered, backoff) = s
      in andThen (rs_assert (seqno \<le> data_seqno data)) (\<lambda>_.
         andThen (uuid_topic_id topic) (\<lambda>(ns, name).
           if name = data_topic_name data \<and> ns = data_namespace_id data
           then let data = SetPreviousSequenceNumber delivered data;
                    t = on_message env (Data data) [sub] t
                in andThen (rs_assert (\<not> backoff)) (\<lambda>_. Inr (\<not> flow_failed t, data, t, data_seqno data + 1, flow_failed t))
           else Inr (True, data, t, delivered, backoff))))"

definition DeliverFromCache ::
  "tower_env \<Rightarrow> topic_uuid \<Rightarrow> CopilotSub \<Rightarrow> LogID \<Rightarrow> SequenceNumber \<Rightarrow> TopicTailer \<Rightarrow> (failure + bool \<times> SequenceNumber \<times> TopicTailer) option" where
  "DeliverFromCache env topic sub logid seqno t =
     (if DataCache_GetCapacity (data_cache t) = 0 then Some (Inr (True, seqno, t))
      else andThenO (Some (rs_assert (seqno \<noteq> 0))) (\<lambda>_.
           andThenO (Some (uuid_topic_id topic)) (\<lambda>(ns, topic_name).
           andThenO (VisitCache (te_platform env) (data_cache t) logid seqno topic_name (deliver_visitor env topic sub seqno) (t, seqno, False))
             (\<lambda>(seqno, dc, t, delivered, backoff).
                let t = t\<lparr> data_cache := dc \<rparr>
                in if backoff then Some (Inr (False, seqno, t))
                   else if delivered < seqno
                   then Some (andThen (gap_message topic kBenign delivered (seqno - 1)) (\<lambda>g.
                          Inr (True, seqno, on_message_sourceless (Gap g) [sub] t)))
                   else Some (Inr (True, seqno, t))))))"

definition start_reading :: "reader_ref \<Rightarrow> topic_uuid \<Rightarrow> LogID \<Rightarrow> SequenceNumber \<Rightarrow> TopicTailer \<Rightarrow> TopicTailer" where
  "start_reading ref topic logid seqno t =
     (case ref of
        Pending_reader \<Rightarrow>
          let (r, calls) = LogReader_StartReading (pending_reader t) topic logid seqno
          in tailer_calls calls (t\<lparr> pending_reader := r \<rparr>)
      | Log_reader i \<Rightarrow>
          let (r, calls) = LogReader_StartReading (log_readers t ! i) topic logid seqno
          in tailer_calls calls (set_reader i r t))"

definition ProcessPendingSubscription ::
  "tower_env \<Rightarrow> topic_uuid \<Rightarrow> CopilotSub \<Rightarrow> LogID \<Rightarrow> SequenceNumber \<Rightarrow> TopicTailer \<Rightarrow> (failure + TopicTailer) option" where
  "ProcessPendingSubscription env topic sub logid seqno t =
     andThenO (Some (rs_assert (seqno \<noteq> 0))) (\<lambda>_.
     andThenO (DeliverFromCache env topic sub logid seqno t) (\<lambda>(finished, seqno, t).
       if finished
       then let t = start_reading (ReaderForNewSubscription t topic logid seqno) topic logid seqno t;
                (_, tm) = TopicManager_AddSubscriber (topic_manager t logid) topic seqno sub
            in Some (Inr (t\<lparr> topic_map := umap_set (topic_map t) logid tm \<rparr>))
       else Some (write_pending env sub logid seqno t)))"

section \<open>Unsubscribing\<close>

text \<open>The loop over the readers when a topic has lost its last subscriber.\<close>

fun stop_readers :: "topic_uuid \<Rightarrow> LogID \<Rightarrow> LogReader list \<Rightarrow> bool \<times> LogReader list \<times> tailer_call list" where
  "stop_readers topic logid [] = (True, [], [])"
| "stop_readers topic logid (r # rs) =
     (let (r, calls) = LogReader_StopReading r topic logid;
          (closed, rs, calls') = stop_readers topic logid rs
      in (\<not> IsLogOpen r logid \<and> closed, r # rs, calls @ calls'))"

definition stop_topic :: "topic_uuid \<Rightarrow> LogID \<Rightarrow> TopicTailer \<Rightarrow> TopicTailer" where
  "stop_topic topic logid t =
     (let (closed, rs, calls) = stop_readers topic logid (log_readers t);
          (p, calls') = LogReader_StopReading (pending_reader t) topic logid;
          t = tailer_calls (calls @ calls') (t\<lparr> log_readers := rs, pending_reader := p \<rparr>)
      in if closed \<and> \<not> IsLogOpen p logid
         then t\<lparr> tail_seqno_cached := umap_erase (tail_seqno_cached t) logid \<rparr> else t)"

definition RemoveSubscriberInternal :: "tower_env \<Rightarrow> topic_uuid \<Rightarrow> CopilotSub \<Rightarrow> LogID \<Rightarrow> TopicTailer \<Rightarrow> failure + TopicTailer" where
  "RemoveSubscriberInternal env topic sub logid t =
     (let (all_removed, tm) = TopicManager_RemoveSubscriber (topic_manager t logid) topic sub;
          t = t\<lparr> topic_map := umap_set (topic_map t) logid tm \<rparr>;
          t = (if all_removed then stop_topic topic logid t else t)
      in andThen (GetPendingReaderQueue env sub t) (\<lambda>(w, t).
         andThen (ObservableMap_Remove sub (pending_queue t w)) (\<lambda>q. Inr (set_pending_queue w q t))))"

definition TopicTailer_RemoveSubscriber :: "tower_env \<Rightarrow> CopilotSub \<Rightarrow> TopicTailer \<Rightarrow> failure + Status \<times> TopicTailer" where
  "TopicTailer_RemoveSubscriber env sub t =
     (let (topic, m) = SubscriptionMap_MoveOut (stream_subscriptions t) (cs_stream_id sub) (cs_sub_id sub)
      in case topic of
           None \<Rightarrow> Inr (NotFound '''', t)
         | Some topic \<Rightarrow>
             let t = t\<lparr> stream_subscriptions := m \<rparr>; (st, logid) = GetLogID env topic
             in if \<not> status_ok st then Inr (st, t)
                else andThen (RemoveSubscriberInternal env topic sub logid t) (\<lambda>t. Inr (OK, t)))"

text \<open>All subscriptions of a stream; the visitor leaves the subscription map alone.\<close>

fun remove_stream :: "tower_env \<Rightarrow> StreamID \<Rightarrow> (SubscriptionID \<times> topic_uuid) list \<Rightarrow> TopicTailer \<Rightarrow> failure + TopicTailer" where
  "remove_stream env stream_id [] t = Inr t"
| "remove_stream env stream_id ((sub_id, topic) # subs) t =
     (let (st, log_id) = GetLogID env topic
      in andThen
           (if status_ok st
            then RemoveSubscriberInternal env topic \<lparr> cs_stream_id = stream_id, cs_sub_id = sub_id \<rparr> log_id t else Inr t)
           (remove_stream env stream_id subs))"

definition RemoveStreamSubscribers :: "tower_env \<Rightarrow> StreamID \<Rightarrow> TopicTailer \<Rightarrow> failure + TopicTailer" where
  "RemoveStreamSubscribers env stream_id t =
     andThen (remove_stream env stream_id
                (case umap_find (stream_subscriptions t) stream_id of None \<Rightarrow> [] | Some subs \<Rightarrow> subs) t) (\<lambda>t.
       Inr (t\<lparr> stream_subscriptions := SubscriptionMap_RemoveStream (stream_subscriptions t) stream_id \<rparr>))"

section \<open>Sources of pending work\<close>

text \<open>
  The callbacks installed on the queues. The flow control gives each item a new flow and goes on while its writes do not fail.
\<close>

definition reentry_reader :: "tower_env \<Rightarrow> (LogID \<times> nat, unit, TopicTailer) reader" where
  "reentry_reader env item om t =
     andThenO (SendCacheRecord env (fst (fst item)) (snd (fst item)) (t\<lparr> reentry_cache_readers := om, flow_failed := False \<rparr>)) (\<lambda>t.
       Some (Inr (\<not> flow_failed t, reentry_cache_readers t, t)))"

definition drain_reentry :: "tower_env \<Rightarrow> TopicTailer \<Rightarrow> (failure + TopicTailer) option" where
  "drain_reentry env t =
     andThenO (Drain (reentry_reader env) (reentry_cache_readers t) t) (\<lambda>(om, t). Some (Inr (t\<lparr> reentry_cache_readers := om \<rparr>)))"

definition pending_item :: "tower_env \<Rightarrow> CopilotSub \<times> PendingSubscription \<Rightarrow> TopicTailer \<Rightarrow> (failure + TopicTailer) option" where
  "pending_item env item t =
     (case SubscriptionMap_Find (stream_subscriptions t) (cs_stream_id (fst item)) (cs_sub_id (fst item)) of
        None \<Rightarrow> Some (Inr t)
      | Some topic \<Rightarrow> ProcessPendingSubscription env topic (fst item) (ps_logid (snd item)) (ps_seqno (snd item)) t)"

definition pending_reader_cb :: "tower_env \<Rightarrow> nat \<Rightarrow> (CopilotSub, PendingSubscription, TopicTailer) reader" where
  "pending_reader_cb env w item om t =
     andThenO (pending_item env item ((set_pending_queue w om t)\<lparr> flow_failed := False \<rparr>)) (\<lambda>t.
       Some (Inr (\<not> flow_failed t, pending_queue t w, t)))"

definition drain_pending :: "tower_env \<Rightarrow> nat \<Rightarrow> TopicTailer \<Rightarrow> (failure + TopicTailer) option" where
  "drain_pending env w t =
     andThenO (Drain (pending_reader_cb env w) (pending_queue t w) t) (\<lambda>(om, t). Some (Inr (set_pending_queue w om t)))"

section \<open>The cache\<close>

definition TopicTailer_ClearCache :: "TopicTailer \<Rightarrow> TopicTailer" where
  "TopicTailer_ClearCache t = t\<lparr> data_cache := ClearCache (data_cache t) \<rparr>"

definition SetCacheCapacity :: "u64 \<Rightarrow> TopicTailer \<Rightarrow> failure + TopicTailer" where
  "SetCacheCapacity newcapacity t =
     andThen (DataCache_SetCapacity (data_cache t) newcapacity) (\<lambda>dc. Inr (t\<lparr> data_cache := dc \<rparr>))"

definition GetCacheUsage :: "TopicTailer \<Rightarrow> u64" where
  "GetCacheUsage t = DataCache_GetUsage (data_cache t)"

definition GetCacheCapacity :: "TopicTailer \<Rightarrow> u64" where
  "GetCacheCapacity t = DataCache_GetCapacity (data_cache t)"

end
