(* ===== verification/TowerRecords.thy ===== *)
theory TowerRecords
  imports TopicTailer
begin

text \<open>
  No subscriber of a control tower misses a record: whenever the tailer moves a subscriber of a topic forward past a record of
  the topic, it has sent that record to the subscriber. This theory states it relative to the content of the logs, and proves it
  for the handlers of records, whether they come from a log or from the cache, together with the invariant of the readers, the cache and
  the subscriptions that it rests on. For gap records it does not hold, as a concrete run shows.
\<close>

section \<open>Observations on the state\<close>

definition sub_seqno :: "TopicTailer \<Rightarrow> LogID \<Rightarrow> topic_uuid \<Rightarrow> CopilotSub \<Rightarrow> SequenceNumber option" where
  "sub_seqno t l u sid = tm_seqno (topic_manager t l) u sid"

definition delivered_to :: "effect list \<Rightarrow> topic_uuid \<Rightarrow> SequenceNumber \<Rightarrow> CopilotSub \<Rightarrow> bool" where
  "delivered_to es u n sid \<longleftrightarrow>
     (\<exists>m recipients. On_message (Data m) recipients \<in> set es \<and> data_uuid m = u \<and> data_seqno m = n \<and> sid \<in> set recipients)"

definition served :: "log_content \<Rightarrow> effect list \<Rightarrow> LogID \<Rightarrow> topic_uuid \<Rightarrow> CopilotSub \<Rightarrow> SequenceNumber option \<Rightarrow> SequenceNumber option \<Rightarrow> bool" where
  "served c es l u sid s s' \<longleftrightarrow> s' = s \<or>
     (\<exists>m m'. s = Some m \<and> s' = Some m' \<and> m \<le> m' \<and> (\<forall>k. m \<le> k \<and> k < m' \<and> c l k = Some u \<longrightarrow> delivered_to es u k sid))"

definition no_loss :: "log_content \<Rightarrow> TopicTailer \<Rightarrow> TopicTailer \<Rightarrow> bool" where
  "no_loss c t t' \<longleftrightarrow> (\<exists>es. effects t' = effects t @ es
     \<and> (\<forall>l u sid. served c es l u sid (sub_seqno t l u sid) (sub_seqno t' l u sid)))"

lemma delivered_to_append: "delivered_to (es @ es') u n sid \<longleftrightarrow> delivered_to es u n sid \<or> delivered_to es' u n sid"
  by (auto simp: delivered_to_def)

lemma served_trans:
  assumes "served c es l u sid s s1" and "served c es' l u sid s1 s2"
  shows "served c (es @ es') l u sid s s2"
proof (cases "s1 = s \<or> s2 = s1")
  case True
  then show ?thesis using assms by (auto simp: served_def delivered_to_append)
next
  case False
  then obtain m m1 m2 where m: "s = Some m" "s1 = Some m1" "s2 = Some m2" "m \<le> m1" "m1 \<le> m2"
    and d: "\<And>k. m \<le> k \<and> k < m1 \<and> c l k = Some u \<Longrightarrow> delivered_to es u k sid"
      "\<And>k. m1 \<le> k \<and> k < m2 \<and> c l k = Some u \<Longrightarrow> delivered_to es' u k sid"
    using assms False by (auto simp: served_def)
  have "delivered_to (es @ es') u k sid" if "m \<le> k \<and> k < m2 \<and> c l k = Some u" for k
    using d that by (cases "k < m1") (auto simp: delivered_to_append not_less)
  then have "m \<le> m2 \<and> (\<forall>k. m \<le> k \<and> k < m2 \<and> c l k = Some u \<longrightarrow> delivered_to (es @ es') u k sid)"
    using m(4,5) by auto
  then show ?thesis using m(1,3) by (simp add: served_def)
qed

lemma no_loss_trans:
  assumes "no_loss c t t1" and "no_loss c t1 t2"
  shows "no_loss c t t2"
proof -
  obtain es es' where es: "effects t1 = effects t @ es" "\<And>l u sid. served c es l u sid (sub_seqno t l u sid) (sub_seqno t1 l u sid)"
    "effects t2 = effects t1 @ es'" "\<And>l u sid. served c es' l u sid (sub_seqno t1 l u sid) (sub_seqno t2 l u sid)"
    using assms by (auto simp: no_loss_def)
  then show ?thesis using served_trans [OF es(2) es(4)] by (auto simp: no_loss_def)
qed

text \<open>A step that leaves the subscriptions as they are.\<close>

lemma no_loss_same:
  assumes "topic_map t' = topic_map t" and "effects t' = effects t @ es"
  shows "no_loss c t t'"
  using assms by (auto simp: no_loss_def served_def sub_seqno_def topic_manager_def)

lemma no_loss_refl [simp]: "no_loss c t t"
  by (rule no_loss_same [of _ _ "[]"]) simp_all

section \<open>The pieces of the handlers\<close>

lemma set_reader_simps [simp]:
  "topic_map (set_reader i r t) = topic_map t" "effects (set_reader i r t) = effects t" "data_cache (set_reader i r t) = data_cache t"
  "pending_reader (set_reader i r t) = pending_reader t" "log_readers (set_reader i r t) = (log_readers t)[i := r]"
  "flow_failed (set_reader i r t) = flow_failed t"
  by (simp_all add: set_reader_def)

lemma on_message_simps [simp]:
  "topic_map (on_message env m rs t) = topic_map t" "effects (on_message env m rs t) = effects t @ [On_message m rs]"
  "data_cache (on_message env m rs t) = data_cache t" "pending_reader (on_message env m rs t) = pending_reader t"
  "log_readers (on_message env m rs t) = log_readers t"
  by (simp_all add: on_message_def Let_def)

lemma tailer_calls_simps [simp]:
  "topic_map (tailer_calls cs t) = topic_map t" "effects (tailer_calls cs t) = effects t @ map On_tailer cs"
  "data_cache (tailer_calls cs t) = data_cache t" "pending_reader (tailer_calls cs t) = pending_reader t"
  "log_readers (tailer_calls cs t) = log_readers t"
  by (simp_all add: tailer_calls_def)

lemma update_tail_simps [simp]:
  "topic_map (update_tail l n t) = topic_map t" "effects (update_tail l n t) = effects t" "data_cache (update_tail l n t) = data_cache t"
  "pending_reader (update_tail l n t) = pending_reader t" "log_readers (update_tail l n t) = log_readers t"
  by (simp_all add: update_tail_def split: option.split)

lemma write_reentry_simps [simp]:
  "topic_map (write_reentry l i t) = topic_map t" "effects (write_reentry l i t) = effects t" "data_cache (write_reentry l i t) = data_cache t"
  "pending_reader (write_reentry l i t) = pending_reader t" "log_readers (write_reentry l i t) = log_readers t"
  by (simp_all add: write_reentry_def)

lemma topic_manager_set [simp]:
  "topic_manager (t\<lparr> topic_map := umap_set (topic_map t) l tm \<rparr>) l' = (if l' = l then tm else topic_manager t l')"
  by (simp add: topic_manager_def)

lemma topic_manager_cong: "topic_map t' = topic_map t \<Longrightarrow> topic_manager t' = topic_manager t"
  by (simp add: topic_manager_def fun_eq_iff)

lemma sub_seqno_cong: "topic_map t' = topic_map t \<Longrightarrow> sub_seqno t' = sub_seqno t"
  by (simp add: sub_seqno_def topic_manager_def fun_eq_iff)

text \<open>The topics of a log with subscribers.\<close>

definition subscribed :: "TopicTailer \<Rightarrow> LogID \<Rightarrow> topic_uuid set" where
  "subscribed t l = {u. umap_find (topic_manager t l) u \<noteq> None}"

definition valid_uuid :: "topic_uuid \<Rightarrow> bool" where
  "valid_uuid u \<longleftrightarrow> fst (GetTopicID u) \<noteq> None"

definition managers_ok :: "TopicTailer \<Rightarrow> bool" where
  "managers_ok t \<longleftrightarrow> (\<forall>l. tm_inv (topic_manager t l) \<and> (\<forall>u \<in> subscribed t l. valid_uuid u))"

lemma managers_cong:
  assumes "topic_map t' = topic_map t"
  shows "managers_ok t' = managers_ok t" and "subscribed t' = subscribed t" and "sub_seqno t' = sub_seqno t"
  using topic_manager_cong [OF assms] by (simp_all add: managers_ok_def subscribed_def fun_eq_iff sub_seqno_def)

lemma VisitSubscribers_topics: "umap_find (fst (VisitSubscribers tm u from to f s)) u' = None \<longleftrightarrow> umap_find tm u' = None"
  by (auto simp: VisitSubscribers_def split: option.splits prod.splits)

lemma advance_subscribers_spec:
  assumes "managers_ok t" and "advance_subscribers l u from to t = (rs, t')"
  shows "\<exists>m. t' = t\<lparr> topic_map := m \<rparr>"
    and "sub_seqno t' l' u' sid = (if l' = l \<and> u' = u \<and> in_range from to (sub_seqno t l u sid) then Some (to + 1) else sub_seqno t l' u' sid)"
    and "set rs = {sid. in_range from to (sub_seqno t l u sid)}"
    and "subscribed t' = subscribed t" and "managers_ok t'"
proof -
  let ?v = "VisitSubscribers (topic_manager t l) u from to (\<lambda>sub out. (SetSequenceNumber (to + 1) sub, out @ [ts_id sub])) []"
  have t': "t' = t\<lparr> topic_map := umap_set (topic_map t) l (fst ?v) \<rparr>" and rs: "rs = snd ?v"
    using assms(2) by (auto simp: advance_subscribers_def split_beta)
  note spec = VisitSubscribers_advance [of "topic_manager t l" u "from" to "to + 1"]
  have inv: "tm_inv (topic_manager t l)" using assms(1) by (simp add: managers_ok_def)
  show "\<exists>m. t' = t\<lparr> topic_map := m \<rparr>" using t' by blast
  show "sub_seqno t' l' u' sid = (if l' = l \<and> u' = u \<and> in_range from to (sub_seqno t l u sid) then Some (to + 1) else sub_seqno t l' u' sid)"
    using spec(1) [OF inv] by (simp add: t' sub_seqno_def)
  show "set rs = {sid. in_range from to (sub_seqno t l u sid)}" using spec(2) [OF inv] by (simp add: rs sub_seqno_def)
  show sub: "subscribed t' = subscribed t" by (simp add: subscribed_def t' VisitSubscribers_topics fun_eq_iff del: not_None_eq)
  show "managers_ok t'"
    using spec(4) [OF inv] assms(1) unfolding managers_ok_def sub by (simp add: t')
qed

text \<open>What the delivery of messages leaves alone.\<close>

definition frame :: "TopicTailer \<Rightarrow> TopicTailer \<Rightarrow> bool" where
  "frame t t' \<longleftrightarrow> log_readers t' = log_readers t \<and> pending_reader t' = pending_reader t \<and> data_cache t' = data_cache t
     \<and> subscribed t' = subscribed t \<and> managers_ok t'"

lemma frame_trans: "frame t t1 \<Longrightarrow> frame t1 t2 \<Longrightarrow> frame t t2"
  by (simp add: frame_def)

lemma gap_message_valid: "valid_uuid u \<Longrightarrow> \<exists>g. gap_message u type from to = Inr g"
  by (auto simp: valid_uuid_def gap_message_def uuid_topic_id_def split: option.splits)

lemma SetPreviousSequenceNumber_simps [simp]:
  "data_uuid (SetPreviousSequenceNumber p m) = data_uuid m" "data_seqno (SetPreviousSequenceNumber p m) = data_seqno m"
  "data_topic_name (SetPreviousSequenceNumber p m) = data_topic_name m"
  "data_namespace_id (SetPreviousSequenceNumber p m) = data_namespace_id m"
  "GetTotalSize pl (SetPreviousSequenceNumber p m) = GetTotalSize pl m"
  by (simp_all add: SetPreviousSequenceNumber_def data_uuid_def GetTotalSize_def)

text \<open>Subscribers are moved past a range of sequence numbers, and those moved are told.\<close>

lemma advance_no_loss:
  assumes "managers_ok t" and "advance_subscribers l u from to t = (rs, t1)" and "to \<noteq> - 1"
    and "topic_map t' = topic_map t1" and "effects t' = effects t @ es"
    and "\<And>k sid. from \<le> k \<Longrightarrow> k \<le> to \<Longrightarrow> c l k = Some u \<Longrightarrow> sid \<in> set rs \<Longrightarrow> delivered_to es u k sid"
  shows "no_loss c t t'"
proof -
  note spec = advance_subscribers_spec [OF assms(1,2)]
  have "served c es l' u' sid (sub_seqno t l' u' sid) (sub_seqno t' l' u' sid)" for l' u' sid
  proof (cases "l' = l \<and> u' = u \<and> in_range from to (sub_seqno t l u sid)")
    case True
    then obtain m where m: "sub_seqno t l u sid = Some m" "from \<le> m" "m \<le> to" by (auto simp: in_range_iff)
    have lt: "to < to + 1" using assms(3) by (rule word_less_plus1)
    have rs: "sid \<in> set rs" using True spec(3) by simp
    have "delivered_to es u k sid" if "m \<le> k" "k < to + 1" "c l k = Some u" for k
    proof -
      have "\<not> to < k" using inc_le [of to k] that(2) by (auto simp: not_less [symmetric])
      then show ?thesis using assms(6) [of k sid] that m(2) rs by auto
    qed
    moreover have "m \<le> to + 1" using m(3) lt by simp
    ultimately show ?thesis using True m spec(2) [of l u sid] by (simp add: served_def managers_cong [OF assms(4)])
  next
    case False
    then show ?thesis using spec(2) [of l' u' sid] by (auto simp: served_def managers_cong [OF assms(4)])
  qed
  then show ?thesis using assms(5) by (auto simp: no_loss_def)
qed

text \<open>The subscribers of a topic in a range are moved past it.\<close>

definition advanced :: "LogID \<Rightarrow> topic_uuid \<Rightarrow> SequenceNumber \<Rightarrow> SequenceNumber \<Rightarrow> TopicTailer \<Rightarrow> TopicTailer \<Rightarrow> bool" where
  "advanced l u from to t t' \<longleftrightarrow> (\<forall>l' u' sid. sub_seqno t' l' u' sid =
     (if l' = l \<and> u' = u \<and> in_range from to (sub_seqno t l u sid) then Some (to + 1) else sub_seqno t l' u' sid))"

lemma deliver_record_spec:
  assumes "managers_ok t" and "deliver_record env l p m t = (sent, m', t')" and "data_seqno m \<noteq> - 1"
    and "\<forall>k. p \<le> k \<and> k < data_seqno m \<longrightarrow> c l k \<noteq> Some (data_uuid m)"
  shows "no_loss c t t'" and "frame t t'" and "m' = m \<or> m' = SetPreviousSequenceNumber p m"
    and "in_range p (data_seqno m) (sub_seqno t l (data_uuid m) sid) \<Longrightarrow>
      \<exists>es. effects t' = effects t @ es \<and> delivered_to es (data_uuid m) (data_seqno m) sid \<and> sub_seqno t' l (data_uuid m) sid = Some (data_seqno m + 1)"
    and "advanced l (data_uuid m) p (data_seqno m) t t'"
proof -
  obtain rs t1 where a: "advance_subscribers l (data_uuid m) p (data_seqno m) t = (rs, t1)" by (cases "advance_subscribers l (data_uuid m) p (data_seqno m) t")
  note spec = advance_subscribers_spec [OF assms(1) a]
  obtain mm where t1: "t1 = t\<lparr> topic_map := mm \<rparr>" using spec(1) by blast
  define es where "es = (if rs = [] then [] else [On_message (Data (SetPreviousSequenceNumber p m)) rs])"
  have t': "t' = (if rs = [] then t1 else on_message env (Data (SetPreviousSequenceNumber p m)) rs t1)"
    and m': "m' = (if rs = [] then m else SetPreviousSequenceNumber p m)"
    using assms(2) a by (auto simp: deliver_record_def Let_def split: if_splits)
  have eff: "effects t' = effects t @ es" by (simp add: t' t1 es_def)
  have map: "topic_map t' = topic_map t1" by (simp add: t')
  have d: "delivered_to es (data_uuid m) (data_seqno m) sid" if "sid \<in> set rs" for sid
    using that by (auto simp: delivered_to_def es_def intro!: exI [of _ "SetPreviousSequenceNumber p m"])
  show "no_loss c t t'"
  proof (rule advance_no_loss [OF assms(1) a assms(3) map eff])
    fix k sid assume k: "p \<le> k" "k \<le> data_seqno m" "c l k = Some (data_uuid m)" "sid \<in> set rs"
    then have "\<not> k < data_seqno m" using assms(4) by blast
    then have "k = data_seqno m" using k(2) by simp
    then show "delivered_to es (data_uuid m) k sid" using d k(4) by simp
  qed
  show "frame t t'" using spec(4,5) by (simp add: frame_def managers_cong [OF map]) (simp add: t' t1)
  show "advanced l (data_uuid m) p (data_seqno m) t t'" using spec(2) by (simp add: advanced_def managers_cong [OF map])
  show "m' = m \<or> m' = SetPreviousSequenceNumber p m" by (simp add: m')
  show "\<exists>es. effects t' = effects t @ es \<and> delivered_to es (data_uuid m) (data_seqno m) sid \<and> sub_seqno t' l (data_uuid m) sid = Some (data_seqno m + 1)"
    if "in_range p (data_seqno m) (sub_seqno t l (data_uuid m) sid)"
    using that eff d [of sid] spec(2,3) by (auto simp: managers_cong [OF map])
qed

lemma bump_topic_spec:
  assumes "managers_ok t" and "n \<noteq> - 1" and "valid_uuid u" and "no_record c l u b n"
  shows "\<exists>t'. bump_topic env l n (u, b) t = Inr t' \<and> no_loss c t t' \<and> frame t t' \<and> advanced l u b n t t'"
proof -
  obtain rs t1 where a: "advance_subscribers l u b n t = (rs, t1)" by (cases "advance_subscribers l u b n t")
  note spec = advance_subscribers_spec [OF assms(1) a]
  obtain mm where t1: "t1 = t\<lparr> topic_map := mm \<rparr>" using spec(1) by blast
  obtain g where g: "gap_message u kBenign b n = Inr g" using gap_message_valid [OF assms(3)] by blast
  define t' where "t' = (if rs = [] then t1 else on_message env (Gap g) rs t1)"
  have "bump_topic env l n (u, b) t = Inr t'" by (simp add: bump_topic_def a g t'_def)
  moreover have map: "topic_map t' = topic_map t1" by (simp add: t'_def)
  have "no_loss c t t'"
  proof (rule advance_no_loss [OF assms(1) a assms(2) map])
    show "effects t' = effects t @ (if rs = [] then [] else [On_message (Gap g) rs])" by (simp add: t'_def t1)
  qed (use assms(4) in \<open>auto simp: no_record_def\<close>)
  moreover have "frame t t'" using spec(4,5) by (simp add: frame_def managers_cong [OF map]) (simp add: t'_def t1)
  moreover have "advanced l u b n t t'" using spec(2) by (simp add: advanced_def managers_cong [OF map])
  ultimately show ?thesis by blast
qed

text \<open>What bumping topics does to the subscribers: those of a bumped topic from its old position on are moved past \<open>n\<close>.\<close>

definition bumped_past :: "LogID \<Rightarrow> SequenceNumber \<Rightarrow> (topic_uuid \<times> SequenceNumber) list \<Rightarrow> TopicTailer \<Rightarrow> TopicTailer \<Rightarrow> bool" where
  "bumped_past l n bs t t' \<longleftrightarrow> (\<forall>l' u sid s'. sub_seqno t' l' u sid = Some s' \<longrightarrow>
     (\<exists>s. sub_seqno t l' u sid = Some s \<and> s \<le> s' \<and> (\<forall>b. l' = l \<and> (u, b) \<in> set bs \<and> b \<le> s \<longrightarrow> n + 1 \<le> s')))"

lemma bumped_past_Cons:
  assumes "advanced l u b n t t1" and "bumped_past l n bs t1 t2" and "n \<noteq> - 1"
  shows "bumped_past l n ((u, b) # bs) t t2"
  unfolding bumped_past_def
proof (intro allI impI)
  fix l' u' sid s' assume "sub_seqno t2 l' u' sid = Some s'"
  then obtain s1 where s1: "sub_seqno t1 l' u' sid = Some s1" "s1 \<le> s'" "\<And>b. l' = l \<Longrightarrow> (u', b) \<in> set bs \<Longrightarrow> b \<le> s1 \<Longrightarrow> n + 1 \<le> s'"
    using assms(2) unfolding bumped_past_def by blast
  have lt: "n < n + 1" using word_less_plus1 [OF assms(3)] .
  show "\<exists>s. sub_seqno t l' u' sid = Some s \<and> s \<le> s' \<and> (\<forall>b'. l' = l \<and> (u', b') \<in> set ((u, b) # bs) \<and> b' \<le> s \<longrightarrow> n + 1 \<le> s')"
  proof (cases "l' = l \<and> u' = u \<and> in_range b n (sub_seqno t l u sid)")
    case True
    then obtain s where s: "sub_seqno t l u sid = Some s" "s \<le> n" by (auto simp: in_range_iff)
    have "s1 = n + 1" using True assms(1) s1(1) by (simp add: advanced_def)
    moreover have "s \<le> s'" using calculation s(2) lt s1(2) by simp
    ultimately show ?thesis using True s(1) s1(2) by auto
  next
    case False
    then have s: "sub_seqno t l' u' sid = Some s1" using assms(1) s1(1) by (simp add: advanced_def split: if_splits)
    have "n + 1 \<le> s'" if "l' = l" "u' = u" "b \<le> s1"
    proof -
      have "\<not> s1 \<le> n" using False that s by (auto simp: in_range_iff)
      then have "n + 1 \<le> s1" using inc_le by (simp add: not_le)
      then show ?thesis using s1(2) by simp
    qed
    then show ?thesis using s s1(2,3) by auto
  qed
qed

lemma bump_topics_spec:
  assumes "managers_ok t" and "n \<noteq> - 1" and "\<forall>u b. (u, b) \<in> set bs \<longrightarrow> valid_uuid u \<and> no_record c l u b n"
  shows "\<exists>t'. bump_topics env l n bs t = Inr t' \<and> no_loss c t t' \<and> frame t t' \<and> bumped_past l n bs t t'"
  using assms(1,3)
proof (induction bs arbitrary: t)
  case (Cons x bs)
  obtain u b where x: "x = (u, b)" by (cases x)
  obtain t1 where t1: "bump_topic env l n (u, b) t = Inr t1" "no_loss c t t1" "frame t t1" "advanced l u b n t t1"
    using bump_topic_spec [OF Cons.prems(1) assms(2), of u c l b env] Cons.prems(2) by (auto simp: x)
  have "managers_ok t1" using t1(3) by (simp add: frame_def)
  then obtain t2 where "bump_topics env l n bs t1 = Inr t2" "no_loss c t1 t2" "frame t1 t2" "bumped_past l n bs t1 t2"
    using Cons.IH [of t1] Cons.prems(2) by auto
  then show ?case
    using t1(1) no_loss_trans [OF t1(2)] frame_trans [OF t1(3)] bumped_past_Cons [OF t1(4) _ assms(2)] by (simp add: x)
qed (simp add: frame_def bumped_past_def)

section \<open>The invariant\<close>

text \<open>
  Every reader is caught up with the content of the logs on the topics it keeps; those topics have subscribers; the cache holds
  records of the logs.
\<close>

definition reader_ok :: "log_content \<Rightarrow> LogReader \<Rightarrow> bool" where
  "reader_ok c r \<longleftrightarrow> reader_wf r \<and> caught_up c r \<and> (\<forall>l u p. next_of r l u = Some p \<longrightarrow> p \<noteq> 0 \<and> valid_uuid u)"

definition reader_topics :: "TopicTailer \<Rightarrow> LogReader \<Rightarrow> bool" where
  "reader_topics t r \<longleftrightarrow> (\<forall>l u. next_of r l u \<noteq> None \<longrightarrow> u \<in> subscribed t l)"

text \<open>Every subscription is watched by a reader that has not passed it.\<close>

definition watched :: "TopicTailer \<Rightarrow> LogID \<Rightarrow> topic_uuid \<Rightarrow> SequenceNumber \<Rightarrow> bool" where
  "watched t l u s \<longleftrightarrow> (\<exists>r \<in> insert (pending_reader t) (set (log_readers t)). \<exists>p. next_of r l u = Some p \<and> p \<le> s)"

definition covered :: "TopicTailer \<Rightarrow> bool" where
  "covered t \<longleftrightarrow> (\<forall>l u sid s. sub_seqno t l u sid = Some s \<longrightarrow> watched t l u s)"

text \<open>Reader \<open>r\<close> becomes \<open>r'\<close> and does not pass a subscriber it watches.\<close>

definition moves :: "LogReader \<Rightarrow> LogReader \<Rightarrow> TopicTailer \<Rightarrow> TopicTailer \<Rightarrow> bool" where
  "moves r r' t t' \<longleftrightarrow> (\<forall>l u sid s'. sub_seqno t' l u sid = Some s' \<longrightarrow>
     (\<exists>s. sub_seqno t l u sid = Some s \<and> s \<le> s' \<and> (\<forall>p. next_of r l u = Some p \<and> p \<le> s \<longrightarrow> (\<exists>p'. next_of r' l u = Some p' \<and> p' \<le> s'))))"

lemma moves_trans: "moves r r1 t t1 \<Longrightarrow> moves r1 r2 t1 t2 \<Longrightarrow> moves r r2 t t2"
  unfolding moves_def by (meson order_trans)

lemma moves_same: "sub_seqno t' = sub_seqno t \<Longrightarrow> next_of r' = next_of r \<Longrightarrow> moves r r' t t'"
  by (auto simp: moves_def)

lemma set_update_other:
  assumes "x \<in> set xs"
  shows "x \<in> set (xs[i := y]) \<or> x = xs ! i"
proof -
  obtain j where j: "j < length xs" "x = xs ! j" using assms by (auto simp: in_set_conv_nth)
  show ?thesis
  proof (cases "j = i")
    case False
    then have "xs[i := y] ! j = x" using j by simp
    then show ?thesis using nth_mem [of j "xs[i := y]"] j(1) by simp
  qed (use j in simp)
qed

lemma covered_moves:
  assumes "covered t" and "moves (log_readers t ! i) r' t t'" and "i < length (log_readers t)"
    and "log_readers t' = (log_readers t)[i := r']" and "pending_reader t' = pending_reader t"
  shows "covered t'"
  unfolding covered_def
proof (intro allI impI)
  fix l u sid s' assume "sub_seqno t' l u sid = Some s'"
  then obtain s where s: "sub_seqno t l u sid = Some s" "s \<le> s'"
    "\<forall>p. next_of (log_readers t ! i) l u = Some p \<and> p \<le> s \<longrightarrow> (\<exists>p'. next_of r' l u = Some p' \<and> p' \<le> s')"
    using assms(2) unfolding moves_def by blast
  obtain r p where r: "r \<in> insert (pending_reader t) (set (log_readers t))" "next_of r l u = Some p" "p \<le> s"
    using assms(1) s(1) unfolding covered_def watched_def by blast
  have in_new: "r' \<in> set ((log_readers t)[i := r'])" using assms(3) by (simp add: set_update_memI)
  show "watched t' l u s'"
  proof (cases "r = log_readers t ! i")
    case True
    then show ?thesis using s(3) r(2,3) in_new assms(4) by (auto simp: watched_def)
  next
    case False
    then have "r \<in> insert (pending_reader t') (set (log_readers t'))"
      using r(1) assms(4,5) set_update_other [of r "log_readers t" i r'] by auto
    moreover have "p \<le> s'" using r(3) s(2) by simp
    ultimately show ?thesis using r(2) by (auto simp: watched_def)
  qed
qed

text \<open>Taking in a record of a topic, and moving the subscribers it is sent to past it.\<close>

lemma moves_record:
  assumes "reader_wf r" and "ProcessRecord r l n u = Inr (prev, r')" and "next_of r l u = Some prev" and "advanced l u prev n t t'" and "n \<noteq> - 1"
  shows "moves r r' t t'"
  unfolding moves_def
proof (intro allI impI)
  fix l' u' sid s' assume s': "sub_seqno t' l' u' sid = Some s'"
  note spec = ProcessRecord_spec(3) [OF assms(1,2)]
  have lt: "n < n + 1" using word_less_plus1 [OF assms(5)] .
  show "\<exists>s. sub_seqno t l' u' sid = Some s \<and> s \<le> s' \<and> (\<forall>p. next_of r l' u' = Some p \<and> p \<le> s \<longrightarrow> (\<exists>p'. next_of r' l' u' = Some p' \<and> p' \<le> s'))"
  proof (cases "l' = l \<and> u' = u \<and> in_range prev n (sub_seqno t l u sid)")
    case True
    then obtain s where s: "sub_seqno t l u sid = Some s" "s \<le> n" by (auto simp: in_range_iff)
    moreover have "s' = n + 1" using True assms(4) s' by (simp add: advanced_def)
    ultimately show ?thesis using True lt by (auto simp: spec)
  next
    case False
    then have s: "sub_seqno t l' u' sid = Some s'" using assms(4) s' by (simp add: advanced_def split: if_splits)
    have "n + 1 \<le> s'" if "l' = l" "u' = u" "prev \<le> s'"
    proof -
      have "\<not> s' \<le> n" using False that s by (auto simp: in_range_iff)
      then show ?thesis using inc_le by (simp add: not_le)
    qed
    then show ?thesis using s assms(3) by (auto simp: spec)
  qed
qed

text \<open>A record of a topic the reader does not keep.\<close>

lemma moves_unknown:
  assumes "reader_wf r" and "ProcessRecord r l n u = Inr (prev, r')" and "next_of r l u = None" and "sub_seqno t' = sub_seqno t"
  shows "moves r r' t t'"
  using ProcessRecord_spec(3) [OF assms(1,2)] assms(3,4) by (intro moves_same) (auto simp: fun_eq_iff)

lemma moves_bump:
  assumes "bumped_past l n bs t t'"
    and "\<And>u b. (u, b) \<in> set bs \<Longrightarrow> next_of r l u = Some b"
    and "next_of r' = (next_of r)(l := (\<lambda>u. if u \<in> fst ` set bs then Some (n + 1) else next_of r l u))"
  shows "moves r r' t t'"
  unfolding moves_def
proof (intro allI impI)
  fix l' u sid s' assume "sub_seqno t' l' u sid = Some s'"
  then obtain s where s: "sub_seqno t l' u sid = Some s" "s \<le> s'" "\<And>b. l' = l \<Longrightarrow> (u, b) \<in> set bs \<Longrightarrow> b \<le> s \<Longrightarrow> n + 1 \<le> s'"
    using assms(1) unfolding bumped_past_def by blast
  have "\<exists>p'. next_of r' l' u = Some p' \<and> p' \<le> s'" if p: "next_of r l' u = Some p" "p \<le> s" for p
  proof (cases "l' = l \<and> u \<in> fst ` set bs")
    case True
    then obtain b where b: "(u, b) \<in> set bs" by auto
    then have "b = p" using assms(2) [OF b] True p(1) by simp
    then show ?thesis using s(3) b True p(2) by (simp add: assms(3))
  next
    case False
    then have "next_of r' l' u = next_of r l' u" by (auto simp: assms(3))
    moreover have "p \<le> s'" using p(2) s(2) by simp
    ultimately show ?thesis using p(1) by simp
  qed
  then show "\<exists>s. sub_seqno t l' u sid = Some s \<and> s \<le> s' \<and> (\<forall>p. next_of r l' u = Some p \<and> p \<le> s \<longrightarrow> (\<exists>p'. next_of r' l' u = Some p' \<and> p' \<le> s'))"
    using s(1,2) by blast
qed

definition message_ok :: "MessageData \<Rightarrow> bool" where
  "message_ok m \<longleftrightarrow> length (data_namespace_id m) < 2 ^ 32 \<and> length (data_topic_name m) < 2 ^ 32"

lemma message_ok_uuid: "message_ok m \<Longrightarrow> fst (GetTopicID (data_uuid m)) = Some (data_namespace_id m, data_topic_name m)"
  using GetTopicID_PutTopicID [of "data_namespace_id m" "data_topic_name m" "[]"] by (simp add: message_ok_def data_uuid_def)

definition cache_ok :: "log_content \<Rightarrow> platform \<Rightarrow> DataCache \<Rightarrow> bool" where
  "cache_ok c p dc \<longleftrightarrow> dc_inv p dc \<and> (\<forall>l n m. content p dc l n = Some m \<longrightarrow> c l n = Some (data_uuid m) \<and> message_ok m)"

definition tower_inv :: "log_content \<Rightarrow> tower_env \<Rightarrow> TopicTailer \<Rightarrow> bool" where
  "tower_inv c env t \<longleftrightarrow>
     (\<forall>r \<in> set (log_readers t). reader_ok c r \<and> reader_topics t r \<and> \<not> is_virtual r)
   \<and> reader_ok c (pending_reader t) \<and> reader_topics t (pending_reader t) \<and> is_virtual (pending_reader t)
   \<and> managers_ok t \<and> covered t \<and> cache_ok c (te_platform env) (data_cache t)"

lemma tower_inv_reader:
  assumes "tower_inv c env t" and "i < length (log_readers t)"
  shows "reader_ok c (log_readers t ! i)" "reader_topics t (log_readers t ! i)" "\<not> is_virtual (log_readers t ! i)"
  using assms by (simp_all add: tower_inv_def)

text \<open>One reader is exchanged, messages are delivered, and the cache changes.\<close>

lemma tower_inv_update:
  assumes "tower_inv c env t" and "frame (set_reader i r t) t'" and "reader_ok c r" and "reader_topics t r" and "\<not> is_virtual r"
    and "cache_ok c (te_platform env) dc" and "i < length (log_readers t)" and "moves (log_readers t ! i) r t t'"
  shows "tower_inv c env (t'\<lparr> data_cache := dc \<rparr>)"
proof -
  let ?t = "t'\<lparr> data_cache := dc \<rparr>"
  have sub: "subscribed ?t = subscribed t"
    using assms(2) managers_cong [of "set_reader i r t" t] managers_cong [of ?t t'] by (simp add: frame_def)
  have "managers_ok ?t" using assms(2) managers_cong [of ?t t'] by (simp add: frame_def)
  moreover have rs: "log_readers ?t = (log_readers t)[i := r]" "pending_reader ?t = pending_reader t" using assms(2) by (simp_all add: frame_def)
  moreover have "moves (log_readers t ! i) r t ?t" using assms(8) managers_cong(3) [of ?t t'] by (simp add: moves_def)
  then have "covered ?t" using covered_moves [OF _ _ assms(7) rs] assms(1) by (simp add: tower_inv_def)
  ultimately show ?thesis
    using assms(1,3-6) set_update_subset_insert [of "log_readers t" i r]
    by (auto simp: tower_inv_def reader_topics_def sub)
qed

lemma reader_ok_ProcessRecord:
  assumes "reader_ok c r" and "ProcessRecord r l n u = Inr (prev, r')" and "c l n = Some u" and "skips c r l n" and "n \<noteq> - 1"
  shows "reader_ok c r'" and "reader_topics t r \<Longrightarrow> reader_topics t r'"
proof -
  have wf: "reader_wf r" using assms(1) by (simp add: reader_ok_def)
  note spec = ProcessRecord_spec [OF wf assms(2)]
  have "n + 1 \<noteq> 0" using word_less_plus1 [OF assms(5)] by auto
  then show "reader_ok c r'"
    using assms(1) spec(1) caught_up_ProcessRecord [OF wf _ assms(2-5)]
    by (auto simp: reader_ok_def spec(3) split: if_splits)
  show "reader_topics t r'" if "reader_topics t r"
    using that by (auto simp: reader_topics_def spec(3) split: if_splits)
qed

lemma reader_ok_bump:
  assumes "reader_ok c r" and "position r l = Some n" and "n \<noteq> - 1" and "\<not> n + 1 + max_subscription_lag r < n"
  obtains r' bumped where "BumpLaggingSubscriptions r l n = Some (r', bumped)" and "reader_ok c r'"
    and "\<forall>u b. (u, b) \<in> set bumped \<longrightarrow> valid_uuid u \<and> no_record c l u b n"
    and "\<And>t. reader_topics t r \<Longrightarrow> reader_topics t r'" and "is_virtual r' = is_virtual r" and "position r' = position r"
    and "\<And>t t'. bumped_past l n bumped t t' \<Longrightarrow> moves r r' t t'"
proof -
  have wf: "reader_wf r" using assms(1) by (simp add: reader_ok_def)
  show thesis
  proof (rule Bump_spec [OF wf assms(4), of l])
    fix r' bumped
    assume b: "BumpLaggingSubscriptions r l n = Some (r', bumped)" "reader_wf r'" "position r' = position r" "distinct (map fst bumped)"
      "\<And>u b. (u, b) \<in> set bumped \<Longrightarrow> next_of r l u = Some b \<and> b + max_subscription_lag r < n"
      "next_of r' = (next_of r)(l := (\<lambda>u. if u \<in> fst ` set bumped then Some (n + 1) else next_of r l u))"
      "is_virtual r' = is_virtual r"
    have rec: "valid_uuid u \<and> no_record c l u b n" if "(u, b) \<in> set bumped" for u b
      using b(5) [OF that] assms(1,2) by (auto simp: reader_ok_def dest: caught_upD)
    have lt: "n < n + 1" using word_less_plus1 [OF assms(3)] .
    have "reader_ok c r'"
      unfolding reader_ok_def
    proof (intro conjI allI impI)
      show "reader_wf r'" by (rule b(2))
      show "caught_up c r'"
        using assms(1,2) no_record_empty [OF lt] by (auto simp: reader_ok_def caught_up_def b(3,6) split: if_splits)
      fix l' u p assume "next_of r' l' u = Some p"
      moreover have "valid_uuid u" if "u \<in> fst ` set bumped" for u using rec that by auto
      moreover have "n + 1 \<noteq> 0" using lt by auto
      ultimately show "p \<noteq> 0" "valid_uuid u" using assms(1) by (auto simp: reader_ok_def b(6) split: if_splits)
    qed
    moreover have "reader_topics t r'" if "reader_topics t r" for t
      using that b(5) by (fastforce simp: reader_topics_def b(6) split: if_splits)
    moreover have "moves r r' t t'" if "bumped_past l n bumped t t'" for t t'
      by (rule moves_bump [OF that _ b(6)]) (use b(5) in blast)
    ultimately show thesis using that [OF b(1)] rec b(3,7) by blast
  qed
qed

lemma message_ok_SetPrevious [simp]: "message_ok (SetPreviousSequenceNumber q m) = message_ok m"
  by (simp add: message_ok_def)

lemma storable_SetPrevious [simp]: "storable p dc l (SetPreviousSequenceNumber q m) = storable p dc l m"
  by (simp add: storable_def)

lemma store_record:
  assumes "cache_ok c p dc" and "storable p dc l m" and "c l (data_seqno m) = Some (data_uuid m)" and "message_ok m"
  shows "\<exists>dc'. DataCache_StoreData p dc (data_namespace_id m) (data_topic_name m) l m = Inr dc' \<and> cache_ok c p dc'"
proof -
  have "dc_inv p dc" using assms(1) by (simp add: cache_ok_def)
  from StoreData_spec [OF this assms(2), of "data_namespace_id m"]
  obtain dc' where "DataCache_StoreData p dc (data_namespace_id m) (data_topic_name m) l m = Inr dc'" "dc_inv p dc'"
    "\<And>l' n x. content p dc' l' n = Some x \<Longrightarrow> content p dc l' n = Some x \<or> l' = l \<and> n = data_seqno m \<and> x = m"
    by (elim exE conjE) (rule that, assumption, assumption, blast)
  then show ?thesis using assms(1,3,4) unfolding cache_ok_def by blast
qed

section \<open>Records from a log\<close>

lemma andThenO_simps [simp]: "andThenO None f = None" "andThenO (Some (Inl e)) f = Some (Inl e)" "andThenO (Some (Inr x)) f = f x"
  by (simp_all add: andThenO_def)

text \<open>A record the log tailer may hand over: the next one of the reader, and one of the log.\<close>

definition next_record :: "log_content \<Rightarrow> tower_env \<Rightarrow> TopicTailer \<Rightarrow> LogID \<Rightarrow> nat \<Rightarrow> MessageData \<Rightarrow> bool" where
  "next_record c env t l i m \<longleftrightarrow> i < length (log_readers t)
     \<and> (\<exists>q. position (log_readers t ! i) l = Some q \<and> data_seqno m = q + 1)
     \<and> data_seqno m \<noteq> - 1 \<and> c l (data_seqno m) = Some (data_uuid m)
     \<and> \<not> data_seqno m + 1 + max_subscription_lag (log_readers t ! i) < data_seqno m
     \<and> storable (te_platform env) (data_cache t) l m \<and> message_ok m"

definition reaches :: "TopicTailer \<Rightarrow> TopicTailer \<Rightarrow> LogID \<Rightarrow> nat \<Rightarrow> MessageData \<Rightarrow> bool" where
  "reaches t t' l i m \<longleftrightarrow> (\<forall>p sid. next_of (log_readers t ! i) l (data_uuid m) = Some p \<longrightarrow>
     in_range p (data_seqno m) (sub_seqno t l (data_uuid m) sid) \<longrightarrow>
     (\<exists>es. effects t' = effects t @ es \<and> delivered_to es (data_uuid m) (data_seqno m) sid))"

lemma ReceiveLogRecord_known:
  assumes inv: "tower_inv c env t" and rec: "next_record c env t l i m"
    and pr: "ProcessRecord (log_readers t ! i) l (data_seqno m) (data_uuid m) = Inr (prev, r1)" and prev: "prev \<noteq> 0"
    and r1: "reader_ok c r1" "reader_topics t r1" "\<not> is_virtual r1" "position r1 l = Some (data_seqno m)"
      "max_subscription_lag r1 = max_subscription_lag (log_readers t ! i)"
    and norec: "\<forall>k. prev \<le> k \<and> k < data_seqno m \<longrightarrow> c l k \<noteq> Some (data_uuid m)"
    and next': "GetNextSequenceNumber (log_readers t ! i) l = data_seqno m"
  shows "\<exists>t'. ReceiveLogRecord env m l i t = Some (Inr t') \<and> no_loss c t t' \<and> tower_inv c env t'
    \<and> (\<exists>r. log_readers t' = (log_readers t)[i := r] \<and> position r l = Some (data_seqno m))
    \<and> (\<forall>sid. in_range prev (data_seqno m) (sub_seqno t l (data_uuid m) sid) \<longrightarrow>
         (\<exists>es. effects t' = effects t @ es \<and> delivered_to es (data_uuid m) (data_seqno m) sid))"
proof -
  let ?n = "data_seqno m"
  have i: "i < length (log_readers t)" and n: "?n \<noteq> - 1" and lag: "\<not> ?n + 1 + max_subscription_lag r1 < ?n"
    and c: "c l ?n = Some (data_uuid m)" and st: "storable (te_platform env) (data_cache t) l m" "message_ok m"
    using rec r1(5) by (auto simp: next_record_def)
  define t1 where "t1 = update_tail l ?n (set_reader i r1 t)"
  have map1: "topic_map t1 = topic_map t" by (simp add: t1_def)
  have ok1: "managers_ok t1" using inv managers_cong(1) [OF map1] by (simp add: tower_inv_def)
  obtain sent m' t2 where d: "deliver_record env l prev m t1 = (sent, m', t2)" by (cases "deliver_record env l prev m t1") auto
  note deliv = deliver_record_spec [where c = c, OF ok1 d n norec]
  obtain r2 bumped where b: "BumpLaggingSubscriptions r1 l ?n = Some (r2, bumped)" "reader_ok c r2"
    "\<forall>u b. (u, b) \<in> set bumped \<longrightarrow> valid_uuid u \<and> no_record c l u b ?n" "reader_topics t r2" "\<not> is_virtual r2" "position r2 l = Some ?n"
    "\<And>t t'. bumped_past l ?n bumped t t' \<Longrightarrow> moves r1 r2 t t'"
  proof (rule reader_ok_bump [OF r1(1,4) n lag])
    fix r' bumped
    assume a: "BumpLaggingSubscriptions r1 l ?n = Some (r', bumped)" "reader_ok c r'"
      "\<forall>u b. (u, b) \<in> set bumped \<longrightarrow> valid_uuid u \<and> no_record c l u b ?n" "\<And>t. reader_topics t r1 \<Longrightarrow> reader_topics t r'"
      "is_virtual r' = is_virtual r1" "position r' = position r1"
      "\<And>t t'. bumped_past l ?n bumped t t' \<Longrightarrow> moves r1 r' t t'"
    show thesis by (rule that [OF a(1-3) a(4) [OF r1(2)] _ _ a(7)]) (simp_all add: a(5,6) r1(3,4))
  qed
  have fr2: "frame t1 t2" by (rule deliv(2))
  have reader2: "log_readers t2 ! i = r1" using fr2 i by (simp add: frame_def t1_def)
  define t3 where "t3 = set_reader i r2 t2"
  have map3: "topic_map t3 = topic_map t2" by (simp add: t3_def)
  have ok3: "managers_ok t3" using fr2 managers_cong(1) [OF map3] by (simp add: frame_def)
  obtain t4 where t4: "bump_topics env l ?n bumped t3 = Inr t4" "no_loss c t3 t4" "frame t3 t4" "bumped_past l ?n bumped t3 t4"
    using bump_topics_spec [where c = c, OF ok3 n b(3)] by blast
  have m': "storable (te_platform env) (data_cache t) l m'" "data_seqno m' = ?n" "data_uuid m' = data_uuid m" "message_ok m'"
    using deliv(3) st by auto
  have dc: "data_cache t4 = data_cache t" using t4(3) fr2 by (simp add: frame_def t3_def t1_def)
  have "cache_ok c (te_platform env) (data_cache t)" using inv by (simp add: tower_inv_def)
  then obtain dc' where dc': "DataCache_StoreData (te_platform env) (data_cache t) (data_namespace_id m') (data_topic_name m') l m' = Inr dc'"
    "cache_ok c (te_platform env) dc'"
    using store_record [of c "te_platform env" "data_cache t" l m'] m' c by auto
  let ?t' = "t4\<lparr> data_cache := dc' \<rparr>"
  have run: "ReceiveLogRecord env m l i t = Some (Inr ?t')"
    using next' pr prev d reader2 b(1) t4(1) dc dc'(1)
    by (simp add: ReceiveLogRecord_def Let_def t1_def [symmetric] t3_def [symmetric])
  have fr: "frame (set_reader i r2 t) t4"
    using fr2 t4(3) managers_cong [OF map3] managers_cong [OF map1] managers_cong [of "set_reader i r2 t" t]
    by (simp add: frame_def t3_def t1_def)
  have loss: "no_loss c t ?t'"
  proof -
    have "no_loss c t t1" by (rule no_loss_same [OF map1, of "[]"]) (simp add: t1_def)
    moreover have "no_loss c t2 t3" by (rule no_loss_same [OF map3, of "[]"]) (simp add: t3_def)
    moreover have "no_loss c t4 ?t'" by (rule no_loss_same [of _ _ "[]"]) simp_all
    ultimately show ?thesis using deliv(1) t4(2) by (blast intro: no_loss_trans)
  qed
  have wf: "reader_wf (log_readers t ! i)" using tower_inv_reader(1) [OF inv i] by (simp add: reader_ok_def)
  have known: "next_of (log_readers t ! i) l (data_uuid m) = Some prev" using ProcessRecord_spec(4) [OF wf pr] prev by (simp split: option.splits)
  have "advanced l (data_uuid m) prev ?n t t2" using deliv(5) by (simp add: advanced_def managers_cong(3) [OF map1])
  then have mv: "moves (log_readers t ! i) r1 t t2" by (rule moves_record [OF wf pr known _ n])
  have "moves r1 r2 t2 t4" using b(7) [OF t4(4)] by (simp add: moves_def managers_cong(3) [OF map3])
  then have "moves (log_readers t ! i) r2 t t4" by (rule moves_trans [OF mv])
  then have "tower_inv c env ?t'" by (rule tower_inv_update [OF inv fr b(2,4,5) dc'(2) i])
  moreover have "\<exists>es. effects ?t' = effects t @ es \<and> delivered_to es (data_uuid m) ?n sid"
    if range: "in_range prev ?n (sub_seqno t l (data_uuid m) sid)" for sid
  proof -
    obtain es where "effects t2 = effects t1 @ es" "delivered_to es (data_uuid m) ?n sid"
      using deliv(4) [of sid] range by (auto simp: managers_cong [OF map1])
    moreover obtain es' where "effects t4 = effects t3 @ es'" using t4(2) by (auto simp: no_loss_def)
    ultimately have "effects ?t' = effects t @ (es @ es')" "delivered_to (es @ es') (data_uuid m) ?n sid"
      by (simp_all add: t3_def t1_def delivered_to_append)
    then show ?thesis by blast
  qed
  moreover have "log_readers ?t' = (log_readers t)[i := r2]" using fr by (simp add: frame_def)
  ultimately show ?thesis using run loss b(6) by blast
qed

lemma ReceiveLogRecord_spec:
  assumes inv: "tower_inv c env t" and rec: "next_record c env t l i m"
  shows "\<exists>t'. ReceiveLogRecord env m l i t = Some (Inr t') \<and> no_loss c t t' \<and> tower_inv c env t' \<and> reaches t t' l i m
    \<and> (\<exists>r. log_readers t' = (log_readers t)[i := r] \<and> position r l = Some (data_seqno m))"
proof -
  let ?n = "data_seqno m" and ?r = "log_readers t ! i"
  obtain q where i: "i < length (log_readers t)" and q: "position ?r l = Some q" "?n = q + 1" and n: "?n \<noteq> - 1"
    and c: "c l ?n = Some (data_uuid m)" and st: "storable (te_platform env) (data_cache t) l m" "message_ok m"
    using rec by (auto simp: next_record_def)
  note ok = tower_inv_reader [OF inv i]
  have wf: "reader_wf ?r" and cu: "caught_up c ?r" using ok(1) by (simp_all add: reader_ok_def)
  have next': "GetNextSequenceNumber ?r l = ?n" using q by (simp add: GetNext_position)
  obtain prev r1 where pr: "ProcessRecord ?r l ?n (data_uuid m) = Inr (prev, r1)"
    using ProcessRecord_fails [of ?r l ?n "data_uuid m"] q(1) by (cases "ProcessRecord ?r l ?n (data_uuid m)") auto
  note spec = ProcessRecord_spec [OF wf pr]
  have skips: "skips c ?r l ?n" using skips_next [OF q(1)] q(2) by simp
  have r1: "reader_ok c r1" "reader_topics t r1" "\<not> is_virtual r1" "position r1 l = Some ?n"
    "max_subscription_lag r1 = max_subscription_lag ?r"
    using reader_ok_ProcessRecord(1) [OF ok(1) pr c skips n] reader_ok_ProcessRecord(2) [OF ok(1) pr c skips n ok(2)] ok(3) spec(2,5,7)
    by simp_all
  show ?thesis
  proof (cases "prev = 0")
    case False
    then have p: "next_of ?r l (data_uuid m) = Some prev" using spec(4) by (simp split: option.splits)
    have "c l k \<noteq> Some (data_uuid m)" if "prev \<le> k" "k < ?n" for k
    proof -
      have "\<not> q < k" using inc_le [of q k] that(2) q(2) by (auto simp: not_less [symmetric])
      then show ?thesis using caught_upD [OF cu p q(1)] that(1) by (simp add: no_record_def)
    qed
    then have "\<forall>k. prev \<le> k \<and> k < ?n \<longrightarrow> c l k \<noteq> Some (data_uuid m)" by blast
    from ReceiveLogRecord_known [OF inv rec pr False r1 this next'] p show ?thesis by (auto simp: reaches_def)
  next
    case True
    then have none: "next_of ?r l (data_uuid m) = None" using spec(4) ok(1) by (auto simp: reader_ok_def split: option.splits)
    define t1 where "t1 = update_tail l ?n (set_reader i r1 t)"
    have map1: "topic_map t1 = topic_map t" by (simp add: t1_def)
    have "cache_ok c (te_platform env) (data_cache t)" using inv by (simp add: tower_inv_def)
    then obtain dc' where dc': "DataCache_StoreData (te_platform env) (data_cache t) (data_namespace_id m) (data_topic_name m) l m = Inr dc'"
      "cache_ok c (te_platform env) dc'"
      using store_record [of c "te_platform env" "data_cache t" l m] st c by auto
    let ?t' = "t1\<lparr> data_cache := dc' \<rparr>"
    have "ReceiveLogRecord env m l i t = Some (Inr ?t')"
      using next' pr True dc'(1) by (simp add: ReceiveLogRecord_def Let_def t1_def)
    moreover have "frame (set_reader i r1 t) t1"
      using inv managers_cong [OF map1] managers_cong [of "set_reader i r1 t" t] by (simp add: frame_def t1_def tower_inv_def)
    then have "tower_inv c env ?t'"
      by (rule tower_inv_update [OF inv _ r1(1,2,3) dc'(2) i moves_unknown [OF wf pr none managers_cong(3) [OF map1]]])
    moreover have "no_loss c t ?t'" by (rule no_loss_same [of _ _ "[]"]) (simp_all add: t1_def)
    moreover have "log_readers ?t' = (log_readers t)[i := r1]" by (simp add: t1_def)
    ultimately show ?thesis using none r1(4) by (auto simp: reaches_def)
  qed
qed

section \<open>Merging readers\<close>

definition good_reader :: "log_content \<Rightarrow> TopicTailer \<Rightarrow> LogReader \<Rightarrow> bool" where
  "good_reader c t r \<longleftrightarrow> reader_ok c r \<and> reader_topics t r"

text \<open>The subscriptions stay; readers are exchanged for others that are in order.\<close>

lemma tower_inv_readers:
  assumes "tower_inv c env t" and "topic_map t' = topic_map t" and "cache_ok c (te_platform env) (data_cache t')"
    and "\<forall>r \<in> set (log_readers t'). good_reader c t r \<and> \<not> is_virtual r"
    and "good_reader c t (pending_reader t')" and "is_virtual (pending_reader t')"
    and "\<forall>l u s. watched t l u s \<longrightarrow> watched t' l u s"
  shows "tower_inv c env t'"
proof -
  have "covered t'" using assms(1,7) managers_cong(3) [OF assms(2)] by (auto simp: tower_inv_def covered_def)
  then show ?thesis using assms managers_cong [OF assms(2)] by (auto simp: tower_inv_def good_reader_def reader_topics_def)
qed

text \<open>Readers that between them keep every topic from where it was kept.\<close>

lemma watched_mono:
  assumes "\<And>r l u p. r \<in> insert (pending_reader t) (set (log_readers t)) \<Longrightarrow> next_of r l u = Some p \<Longrightarrow>
    \<exists>r' \<in> insert (pending_reader t') (set (log_readers t')). \<exists>p'. next_of r' l u = Some p' \<and> p' \<le> p"
  shows "\<forall>l u s. watched t l u s \<longrightarrow> watched t' l u s"
proof (intro allI impI)
  fix l u s assume "watched t l u s"
  then obtain r p where "r \<in> insert (pending_reader t) (set (log_readers t))" "next_of r l u = Some p" "p \<le> s"
    unfolding watched_def by blast
  with assms [OF this(1,2)] show "watched t' l u s" unfolding watched_def using order_trans by blast
qed

lemma watched_merge:
  assumes "MergeInto (log_readers t ! src) (log_readers t ! dest) l = Inr (s, d, calls)"
    and "reader_wf (log_readers t ! src)" and "reader_wf (log_readers t ! dest)"
    and "src < length (log_readers t)" and "dest < length (log_readers t)" and "src \<noteq> dest"
    and "log_readers t' = (log_readers t)[src := s, dest := d]" and "pending_reader t' = pending_reader t"
  shows "\<forall>l u s. watched t l u s \<longrightarrow> watched t' l u s"
proof (rule watched_mono)
  note spec = MergeInto_spec [OF assms(2,3,1)]
  have new: "s \<in> set (log_readers t')" "d \<in> set (log_readers t')"
    using nth_mem [of src "log_readers t'"] nth_mem [of dest "log_readers t'"] assms(4-6) by (simp_all add: assms(7))
  fix r l' u p assume r: "r \<in> insert (pending_reader t) (set (log_readers t))" and p: "next_of r l' u = Some p"
  have "r \<in> insert (pending_reader t') (set (log_readers t')) \<or> r = log_readers t ! src \<or> r = log_readers t ! dest"
    using r set_update_other [of r "log_readers t" src s] set_update_other [of r "(log_readers t)[src := s]" dest d] assms(6)
    by (auto simp: assms(7,8))
  moreover have "(\<exists>p'. next_of d l' u = Some p' \<and> p' \<le> p) \<or> next_of s l' u = Some p" if "r = log_readers t ! src \<or> r = log_readers t ! dest"
    using that p by (cases "l' = l") (auto simp: spec(7,8) opt_min_def split: option.splits)
  ultimately show "\<exists>r' \<in> insert (pending_reader t') (set (log_readers t')). \<exists>p'. next_of r' l' u = Some p' \<and> p' \<le> p"
    using new p by blast
qed

lemma watched_steal:
  assumes "StealLogSubscriptions st (log_readers t ! src) (pending_reader t) l = Inr (s, q, calls)"
    and "reader_wf (log_readers t ! src)" and "reader_wf (pending_reader t)" and "src < length (log_readers t)"
    and "log_readers t' = (log_readers t)[src := s]" and "pending_reader t' = q"
  shows "\<forall>l u s. watched t l u s \<longrightarrow> watched t' l u s"
proof (rule watched_mono)
  note spec = StealLogSubscriptions_spec [OF assms(2,3,1)]
  have new: "s \<in> set (log_readers t')" unfolding assms(5) using assms(4) by (simp add: set_update_memI)
  have none: "next_of (log_readers t ! src) l u = None" for u
    using spec(4) by (simp add: position_def next_of_def split: option.splits)
  fix r l' u p assume r: "r \<in> insert (pending_reader t) (set (log_readers t))" and p: "next_of r l' u = Some p"
  have "r \<in> set (log_readers t') \<or> r = log_readers t ! src \<or> r = pending_reader t"
    using r set_update_other [of r "log_readers t" src s] by (auto simp: assms(5))
  moreover have "next_of s l' u = Some p \<or> next_of q l' u = Some p" if "r = log_readers t ! src \<or> r = pending_reader t"
    using that p none by (cases "l' = l") (auto simp: spec(6,8))
  ultimately show "\<exists>r' \<in> insert (pending_reader t') (set (log_readers t')). \<exists>p'. next_of r' l' u = Some p' \<and> p' \<le> p"
    using new p assms(6) by blast
qed

lemma watched_same: "log_readers t' = log_readers t \<Longrightarrow> pending_reader t' = pending_reader t \<Longrightarrow> \<forall>l u s. watched t l u s \<longrightarrow> watched t' l u s"
  by (simp add: watched_def)

lemma watched_reader:
  assumes "i < length (log_readers t)" and "next_of r = next_of (log_readers t ! i)"
    and "log_readers t' = (log_readers t)[i := r]" and "pending_reader t' = pending_reader t"
  shows "\<forall>l u s. watched t l u s \<longrightarrow> watched t' l u s"
proof (rule watched_mono)
  fix r' l u p assume r': "r' \<in> insert (pending_reader t) (set (log_readers t))" and p: "next_of r' l u = Some p"
  have "r \<in> set (log_readers t')" unfolding assms(3) using assms(1) by (simp add: set_update_memI)
  moreover have "r' \<in> insert (pending_reader t') (set (log_readers t')) \<or> r' = log_readers t ! i"
    using r' set_update_other [of r' "log_readers t" i r] by (auto simp: assms(3,4))
  ultimately show "\<exists>r' \<in> insert (pending_reader t') (set (log_readers t')). \<exists>p'. next_of r' l u = Some p' \<and> p' \<le> p"
    using p assms(2) by (metis insertI2 order_refl)
qed

lemma tower_inv_good:
  assumes "tower_inv c env t"
  shows "\<forall>r \<in> set (log_readers t). good_reader c t r \<and> \<not> is_virtual r" and "good_reader c t (pending_reader t)"
    and "is_virtual (pending_reader t)" and "cache_ok c (te_platform env) (data_cache t)"
  using assms by (auto simp: tower_inv_def good_reader_def)

lemma good_update:
  "\<forall>r \<in> set rs. P r \<Longrightarrow> P r' \<Longrightarrow> \<forall>r \<in> set (rs[i := r']). P r"
  using set_update_subset_insert [of rs i r'] by blast

lemma good_MergeInto:
  assumes "good_reader c t src" and "good_reader c t dest" and "MergeInto src dest l = Inr (src', dest', calls)"
  shows "good_reader c t src'" and "good_reader c t dest'"
proof -
  have wf: "reader_wf src" "reader_wf dest" "caught_up c src" "caught_up c dest"
    using assms(1,2) by (simp_all add: good_reader_def reader_ok_def)
  note spec = MergeInto_spec [OF wf(1,2) assms(3)] and cu = caught_up_MergeInto [OF wf assms(3)]
  show "good_reader c t src'"
    using assms(1) spec(1) cu(1) by (auto simp: good_reader_def reader_ok_def reader_topics_def spec(7) split: if_splits)
  show "good_reader c t dest'"
    using assms(1,2) spec(2) cu(2)
    by (auto simp: good_reader_def reader_ok_def reader_topics_def spec(8) opt_min_def min_def split: if_splits option.splits)
qed

lemma good_Steal:
  assumes "good_reader c t r" and "good_reader c t p" and "StealLogSubscriptions st r p l = Inr (r', p', calls)"
  shows "good_reader c t r'" and "good_reader c t p'"
proof -
  have wf: "reader_wf r" "reader_wf p" "caught_up c r" "caught_up c p"
    using assms(1,2) by (simp_all add: good_reader_def reader_ok_def)
  note spec = StealLogSubscriptions_spec [OF wf(1,2) assms(3)] and cu = caught_up_Steal [OF wf assms(3)]
  show "good_reader c t r'"
    using assms(1,2) spec(1) cu(1) by (auto simp: good_reader_def reader_ok_def reader_topics_def spec(6) split: if_splits)
  show "good_reader c t p'"
    using assms(1,2) spec(2) cu(2) by (auto simp: good_reader_def reader_ok_def reader_topics_def spec(8) split: if_splits)
qed

text \<open>What merging keeps.\<close>

definition merge_ok :: "log_content \<Rightarrow> tower_env \<Rightarrow> TopicTailer \<Rightarrow> TopicTailer \<Rightarrow> bool" where
  "merge_ok c env t t' \<longleftrightarrow> tower_inv c env t' \<and> topic_map t' = topic_map t \<and> length (log_readers t') = length (log_readers t)
     \<and> (\<exists>es. effects t' = effects t @ es)"

lemma merge_ok_no_loss: "merge_ok c env t t' \<Longrightarrow> no_loss c t t'"
  using no_loss_same by (auto simp: merge_ok_def)

lemma merge_readers_spec:
  assumes inv: "tower_inv c env t" and src: "src < length (log_readers t)" and dest: "dest < length (log_readers t)" and ne: "src \<noteq> dest"
    and can: "CanMergeInto (log_readers t ! src) (log_readers t ! dest) l = Inr True"
  shows "\<exists>t'. merge_readers env src dest l t = Inr t' \<and> merge_ok c env t t'"
proof -
  note good = tower_inv_good [OF inv]
  have gs: "good_reader c t (log_readers t ! src)" "\<not> is_virtual (log_readers t ! src)"
    and gd: "good_reader c t (log_readers t ! dest)" "\<not> is_virtual (log_readers t ! dest)" using good(1) src dest by auto
  obtain s d calls where m: "MergeInto (log_readers t ! src) (log_readers t ! dest) l = Inr (s, d, calls)"
    using MergeInto_succeeds [OF can] by (metis prod_cases3)
  have wf: "reader_wf (log_readers t ! src)" "reader_wf (log_readers t ! dest)"
    using gs(1) gd(1) by (simp_all add: good_reader_def reader_ok_def)
  note ms = MergeInto_spec [OF wf m] and mg = good_MergeInto [OF gs(1) gd(1) m]
  define t1 where "t1 = tailer_calls calls (set_reader dest d (set_reader src s t))"
  have map1: "topic_map t1 = topic_map t" by (simp add: t1_def)
  have readers1: "log_readers t1 = (log_readers t)[src := s, dest := d]" by (simp add: t1_def)
  have all1: "\<forall>r \<in> set (log_readers t1). good_reader c t r \<and> \<not> is_virtual r"
    unfolding readers1 using good(1) mg gs(2) gd(2) ms(9,11) by (intro good_update) auto
  have w1: "\<forall>l u s. watched t l u s \<longrightarrow> watched t1 l u s"
    by (rule watched_merge [OF m wf src dest ne readers1]) (simp add: t1_def)
  have inv1: "tower_inv c env t1"
    by (rule tower_inv_readers [OF inv map1 _ all1 _ _ w1]) (use good(2-4) in \<open>simp_all add: t1_def\<close>)
  have src1: "log_readers t1 ! src = s" using src ne by (simp add: readers1)
  show ?thesis
  proof (cases "IsLogOpen (pending_reader t) l")
    case False
    then have "merge_readers env src dest l t = Inr t1"
      using m by (simp add: merge_readers_def Let_def t1_def)
    then show ?thesis using inv1 map1 by (auto simp: merge_ok_def readers1 t1_def)
  next
    case True
    let ?st = "tailer_status env (effects t1)"
    have pos: "position s l = None" using ms(5) by simp
    have "reader_wf (pending_reader t)" using good(2) by (simp add: good_reader_def reader_ok_def)
    then obtain s' p calls' where st: "StealLogSubscriptions ?st s (pending_reader t) l = Inr (s', p, calls')"
      using StealLogSubscriptions_succeeds [of "pending_reader t" s l ?st] good(3) gs(2) ms(9) True pos
      by (auto simp: IsLogOpen_position)
    have wf': "reader_wf s" "reader_wf (pending_reader t)" using mg(1) good(2) by (simp_all add: good_reader_def reader_ok_def)
    note sg = good_Steal [OF mg(1) good(2) st] and ss = StealLogSubscriptions_spec [OF wf' st]
    define t2 where "t2 = tailer_calls calls' ((set_reader src s' t1)\<lparr> pending_reader := p \<rparr>)"
    have "merge_readers env src dest l t = Inr t2"
      using m True st src1 by (simp add: merge_readers_def Let_def t1_def [symmetric] t2_def) (simp add: t1_def)
    moreover have "tower_inv c env t2"
    proof (rule tower_inv_readers [OF inv])
      show "\<forall>r \<in> set (log_readers t2). good_reader c t r \<and> \<not> is_virtual r"
        unfolding t2_def tailer_calls_simps using all1 sg(1) gs(2) ms(9) ss(9) by simp (rule good_update, auto)
      have "src < length (log_readers t1)" "pending_reader t1 = pending_reader t" using src by (simp_all add: t1_def)
      then have "\<forall>l u s. watched t1 l u s \<longrightarrow> watched t2 l u s"
        using watched_steal [of ?st t1 src l s' p calls' t2] st wf' src1 by (simp add: t2_def)
      then show "\<forall>l u s. watched t l u s \<longrightarrow> watched t2 l u s" using w1 by blast
    qed (use good(3,4) sg(2) ss(11) in \<open>simp_all add: t2_def t1_def\<close>)
    moreover have "topic_map t2 = topic_map t" "length (log_readers t2) = length (log_readers t)" "\<exists>es. effects t2 = effects t @ es"
      by (simp_all add: t2_def t1_def)
    ultimately show ?thesis by (auto simp: merge_ok_def)
  qed
qed

lemma attempt_merges_spec:
  assumes inv: "tower_inv c env t" and src: "src < length (log_readers t)" and "set js \<subseteq> {0..<length (log_readers t)}"
  shows "\<exists>merged t'. attempt_merges env src l js t = Inr (merged, t') \<and> merge_ok c env t t' \<and> (\<not> merged \<longrightarrow> t' = t)"
  using assms(3)
proof (induction js)
  case Nil
  then show ?case using inv by (auto simp: merge_ok_def)
next
  case (Cons j js)
  have "j < length (log_readers t)" using Cons.prems by simp
  then have nv: "\<not> is_virtual (log_readers t ! src)" "\<not> is_virtual (log_readers t ! j)" using tower_inv_good(1) [OF inv] src by auto
  obtain can where can: "CanMergeInto (log_readers t ! src) (log_readers t ! j) l = Inr can" using nv by (simp add: CanMergeInto_def)
  show ?case
  proof (cases "src = j \<or> \<not> can")
    case True
    then show ?thesis using Cons can by auto
  next
    case False
    then obtain t' where "merge_readers env src j l t = Inr t'" "merge_ok c env t t'"
      using merge_readers_spec [OF inv src, of j l] can Cons.prems by auto
    then show ?thesis using False can by auto
  qed
qed

lemma AttemptReaderMerges_spec:
  assumes "tower_inv c env t" and "src < length (log_readers t)"
  shows "\<exists>merged t'. AttemptReaderMerges env src l t = Inr (merged, t') \<and> merge_ok c env t t' \<and> (\<not> merged \<longrightarrow> t' = t)"
  using attempt_merges_spec [OF assms, of "[0..<length (log_readers t)]" l] by (simp add: AttemptReaderMerges_def)

section \<open>The handler of records\<close>

text \<open>Pausing and restarting a reader change neither its position nor its topics.\<close>

lemma on_reader_spec:
  assumes inv: "tower_inv c env t" and i: "i < length (log_readers t)" and op: "position (log_readers t ! i) l \<noteq> None"
    and f: "f = (\<lambda>r. PauseReading r l) \<or> f = (\<lambda>r. RestartReading r l)"
  shows "\<exists>t'. on_reader i f t = Inr t' \<and> merge_ok c env t t'"
proof -
  let ?r = "log_readers t ! i"
  note good = tower_inv_good [OF inv]
  have g: "good_reader c t ?r" "\<not> is_virtual ?r" using good(1) i by auto
  have "\<exists>x. f ?r = Inr x" using f op g(2) by (auto simp: PauseReading_def RestartReading_def position_def split_beta)
  then obtain r calls where fr: "f ?r = Inr (r, calls)" by auto
  have "reader_wf ?r" using g(1) by (simp add: good_reader_def reader_ok_def)
  note spec = Pause_Restart_spec [OF this, of l r calls]
  have same: "reader_wf r" "next_of r = next_of ?r" "position r = position ?r" "is_virtual r = is_virtual ?r"
    using spec f fr by auto
  have "good_reader c t r"
    using g(1) same(1,2) caught_up_same [OF _ same(2,3), of c] by (simp add: good_reader_def reader_ok_def reader_topics_def)
  let ?t' = "tailer_calls calls (set_reader i r t)"
  have "tower_inv c env ?t'"
  proof (rule tower_inv_readers [OF inv])
    show "\<forall>r \<in> set (log_readers ?t'). good_reader c t r \<and> \<not> is_virtual r"
      using good(1) \<open>good_reader c t r\<close> same(4) g(2) by simp (rule good_update, auto)
    show "\<forall>l u s. watched t l u s \<longrightarrow> watched ?t' l u s" by (rule watched_reader [OF i same(2)]) simp_all
  qed (use good(2-4) in simp_all)
  then show ?thesis using fr by (auto simp: on_reader_def merge_ok_def)
qed

lemma merge_ok_trans: "merge_ok c env t t1 \<Longrightarrow> merge_ok c env t1 t2 \<Longrightarrow> merge_ok c env t t2"
  by (auto simp: merge_ok_def)

lemma write_reentry_ok:
  assumes "tower_inv c env t"
  shows "merge_ok c env t (write_reentry l i t)"
proof -
  have "tower_inv c env (write_reentry l i t)"
    by (rule tower_inv_readers [OF assms]) (use tower_inv_good [OF assms] in \<open>simp_all add: watched_same\<close>)
  then show ?thesis by (auto simp: merge_ok_def)
qed

lemma pause_and_queue:
  assumes "tower_inv c env t" and "i < length (log_readers t)" and "position (log_readers t ! i) l \<noteq> None"
  shows "\<exists>t'. andThen (on_reader i (\<lambda>r. PauseReading r l) t) (\<lambda>t. Inr (write_reentry l i t)) = Inr t' \<and> merge_ok c env t t'"
proof -
  obtain t1 where "on_reader i (\<lambda>r. PauseReading r l) t = Inr t1" "merge_ok c env t t1"
    using on_reader_spec [OF assms, of "\<lambda>r. PauseReading r l"] by auto
  moreover from this have "merge_ok c env t1 (write_reentry l i t1)" by (intro write_reentry_ok) (simp add: merge_ok_def)
  ultimately show ?thesis using merge_ok_trans by auto
qed

lemma set_cache_ok:
  assumes "tower_inv c env t" and "cache_ok c (te_platform env) dc"
  shows "merge_ok c env t (t\<lparr> data_cache := dc \<rparr>)"
proof -
  have "tower_inv c env (t\<lparr> data_cache := dc \<rparr>)"
    by (rule tower_inv_readers [OF assms(1)]) (use tower_inv_good [OF assms(1)] assms(2) in \<open>simp_all add: watched_same\<close>)
  then show ?thesis by (simp add: merge_ok_def)
qed

lemma FindLogReader_Some: "FindLogReader t rid = Some i \<Longrightarrow> i < length (log_readers t) \<and> reader_id (log_readers t ! i) = rid"
  by (auto simp: FindLogReader_def filter_eq_Cons_iff split: list.splits dest!: arg_cong [where f = set])

lemma reaches_extend:
  assumes "reaches t t1 l i m" and "effects t2 = effects t1 @ es'"
  shows "reaches t t2 l i m"
  unfolding reaches_def
proof (intro allI impI)
  fix p sid
  assume "next_of (log_readers t ! i) l (data_uuid m) = Some p" "in_range p (data_seqno m) (sub_seqno t l (data_uuid m) sid)"
  then obtain es where "effects t1 = effects t @ es" "delivered_to es (data_uuid m) (data_seqno m) sid"
    using assms(1) by (auto simp: reaches_def)
  then show "\<exists>es. effects t2 = effects t @ es \<and> delivered_to es (data_uuid m) (data_seqno m) sid"
    using assms(2) by (intro exI [of _ "es @ es'"]) (simp add: delivered_to_append)
qed

lemma SendLogRecord_spec:
  assumes inv: "tower_inv c env t" and find: "FindLogReader t rid = Some i" and rec: "next_record c env t l i m"
  shows "\<exists>t'. SendLogRecord env m l rid t = Some (Inr t') \<and> no_loss c t t' \<and> tower_inv c env t' \<and> reaches t t' l i m"
proof -
  obtain t1 r where t1: "ReceiveLogRecord env m l i t = Some (Inr t1)" "no_loss c t t1" "tower_inv c env t1" "reaches t t1 l i m"
    "log_readers t1 = (log_readers t)[i := r]" "position r l = Some (data_seqno m)"
    using ReceiveLogRecord_spec [OF inv rec] by blast
  have i: "i < length (log_readers t1)" and n: "data_seqno m \<noteq> - 1" using rec t1(5) by (auto simp: next_record_def)
  then have pos: "position (log_readers t1 ! i) l = Some (data_seqno m)" using t1(5,6) by simp
  have next': "GetNextSequenceNumber (log_readers t1 ! i) l \<noteq> 0"
    using pos word_less_plus1 [OF n] by (auto simp: GetNext_position)
  let ?n = "GetNextSequenceNumber (log_readers t1 ! i) l" and ?p = "te_platform env"
  have "cache_ok c ?p (data_cache t1)" using tower_inv_good(4) [OF t1(3)] .
  then obtain dc where dc: "DataCache_HasEntry ?p (data_cache t1) l ?n = Inr (content ?p (data_cache t1) l ?n \<noteq> None, dc)" "cache_ok c ?p dc"
    using HasEntry_spec [of ?p "data_cache t1" l ?n] by (auto simp: cache_ok_def)
  let ?t2 = "t1\<lparr> data_cache := dc \<rparr>"
  have m2: "merge_ok c env t1 ?t2" by (rule set_cache_ok [OF t1(3) dc(2)])
  then have inv2: "tower_inv c env ?t2" by (simp add: merge_ok_def)
  have i2: "i < length (log_readers ?t2)" "position (log_readers ?t2 ! i) l \<noteq> None" using i pos by simp_all
  obtain t3 where t3: "merge_ok c env ?t2 t3"
    "(if content ?p (data_cache t1) l ?n \<noteq> None then andThen (on_reader i (\<lambda>r. PauseReading r l) ?t2) (\<lambda>t. Inr (write_reentry l i t))
      else andThen (AttemptReaderMerges env i l ?t2) (\<lambda>(_, t). Inr t)) = Inr t3"
  proof (cases "content ?p (data_cache t1) l ?n \<noteq> None")
    case True
    then show thesis using that pause_and_queue [OF inv2 i2] by auto
  next
    case False
    obtain merged t' where "AttemptReaderMerges env i l ?t2 = Inr (merged, t')" "merge_ok c env ?t2 t'"
      using AttemptReaderMerges_spec [OF inv2 i2(1), of l] by blast
    then show thesis using that [of t'] False by simp
  qed
  have "merge_ok c env t1 t3" using merge_ok_trans [OF m2 t3(1)] .
  then have "no_loss c t t3" "tower_inv c env t3" and es: "\<exists>es. effects t3 = effects t1 @ es"
    using no_loss_trans [OF t1(2) merge_ok_no_loss] by (auto simp: merge_ok_def)
  moreover have "SendLogRecord env m l rid t = Some (Inr t3)"
    using find t1(1) next' dc(1) t3(2) by (simp add: SendLogRecord_def Let_def)
  moreover have "reaches t t3 l i m"
    using reaches_extend [OF t1(4)] es by blast
  ultimately show ?thesis by blast
qed

section \<open>Records from the cache\<close>

lemma deliver_record_message:
  "fst (snd (deliver_record env l p m t)) = m \<or> fst (snd (deliver_record env l p m t)) = SetPreviousSequenceNumber p m"
  by (auto simp: deliver_record_def Let_def split_beta)

lemma advance_visitor_message:
  assumes "advance_visitor env l i m (t, b) = Inr (go, m', s')"
  shows "m' = m \<or> (\<exists>p. m' = SetPreviousSequenceNumber p m)"
proof -
  obtain p r where "ProcessRecord (log_readers t ! i) l (data_seqno m) (data_uuid m) = Inr (p, r)"
    and m': "m' = m \<or> m' = fst (snd (deliver_record env l p m (set_reader i r t)))"
    using assms by (auto simp: advance_visitor_def andThen_Inr Let_def split: if_splits prod.splits)
  then show ?thesis
    using deliver_record_message [of env l p m "set_reader i r t"] by auto
qed

lemma advance_visitor_gentle: "gentle (advance_visitor env l i)"
  unfolding gentle_def
proof (intro allI impI)
  fix m s go m' s' assume "advance_visitor env l i m s = Inr (go, m', s')"
  then have "m' = m \<or> (\<exists>p. m' = SetPreviousSequenceNumber p m)" using advance_visitor_message [of env l i m "fst s" "snd s"] by simp
  then show "same_message m m'" by (auto simp: same_message_def)
qed

text \<open>The topic the visit asks for is the only one in the log with subscribers.\<close>

lemma lookup_topic_spec:
  assumes "\<forall>u \<in> fst ` set tm. valid_uuid u"
  shows "\<exists>name. lookup_topic tm = Inr name \<and> (name \<noteq> [] \<longrightarrow> (\<exists>u ns. map fst tm = [u] \<and> fst (GetTopicID u) = Some (ns, name)))"
proof -
  have name: "\<exists>ns name. fst (GetTopicID u) = Some (ns, name) \<and> uuid_topic_id u = Inr (ns, name)" if "u \<in> fst ` set tm" for u
    using assms that by (auto simp: valid_uuid_def uuid_topic_id_def)
  have shape: "ks = [] \<or> (\<exists>u. ks = [u]) \<or> (\<exists>u v us. ks = u # v # us)" for ks :: "topic_uuid list"
    by (cases ks rule: remdups_adj.cases) auto
  consider (none) "map fst tm = []" | (one) u where "map fst tm = [u]" | (more) u v us where "map fst tm = u # v # us"
    using shape [of "map fst tm"] by (elim disjE exE)
  then show ?thesis
  proof cases
    case none
    then show ?thesis by (simp add: lookup_topic_def VisitTopics_def)
  next
    case (one u)
    have "set (map fst tm) = {u}" unfolding one by simp
    then have "u \<in> fst ` set tm" by simp
    then obtain ns n where "fst (GetTopicID u) = Some (ns, n)" "uuid_topic_id u = Inr (ns, n)" using name by blast
    then show ?thesis using one by (auto simp: lookup_topic_def VisitTopics_def)
  next
    case (more u v us)
    have "set (map fst tm) = insert u (insert v (set us))" unfolding more by simp
    then have "u \<in> fst ` set tm" "v \<in> fst ` set tm" by simp_all
    then obtain ns n ns' n' where "uuid_topic_id u = Inr (ns, n)" "uuid_topic_id v = Inr (ns', n')" using name by metis
    then show ?thesis using more by (simp add: lookup_topic_def VisitTopics_def)
  qed
qed

text \<open>
  Where a visit of the run that begins at \<open>start\<close> stands after \<open>j\<close> messages: the reader has passed no record of its topics unseen.
\<close>

definition visit_at :: "log_content \<Rightarrow> tower_env \<Rightarrow> LogID \<Rightarrow> nat \<Rightarrow> SequenceNumber \<Rightarrow> TopicTailer \<Rightarrow> bool" where
  "visit_at c env l i n t \<longleftrightarrow> tower_inv c env t \<and> i < length (log_readers t)
     \<and> (\<exists>q. position (log_readers t ! i) l = Some q \<and> q < n) \<and> skips c (log_readers t ! i) l n"

lemma advance_visitor_step:
  assumes at: "visit_at c env l i n t" and m: "data_seqno m = n" "c l n = Some (data_uuid m)" "n \<noteq> - 1"
  shows "\<exists>m' t'. advance_visitor env l i m (t, False) = Inr (\<not> flow_failed t', m', t', flow_failed t')
    \<and> (m' = m \<or> (\<exists>p. m' = SetPreviousSequenceNumber p m)) \<and> visit_at c env l i (n + 1) t' \<and> no_loss c t t'
    \<and> data_cache t' = data_cache t \<and> subscribed t' = subscribed t \<and> length (log_readers t') = length (log_readers t)"
proof -
  let ?r = "log_readers t ! i"
  obtain q where inv: "tower_inv c env t" and i: "i < length (log_readers t)" and q: "position ?r l = Some q" "q < n" and sk: "skips c ?r l n"
    using at by (auto simp: visit_at_def)
  note ok = tower_inv_reader [OF inv i]
  have wf: "reader_wf ?r" and cu: "caught_up c ?r" using ok(1) by (simp_all add: reader_ok_def)
  have next': "GetNextSequenceNumber ?r l \<le> n" using q inc_le by (simp add: GetNext_position)
  obtain prev r1 where pr: "ProcessRecord ?r l n (data_uuid m) = Inr (prev, r1)"
    using ProcessRecord_fails [of ?r l n "data_uuid m"] q(1) by (cases "ProcessRecord ?r l n (data_uuid m)") auto
  note spec = ProcessRecord_spec [OF wf pr]
  have r1: "reader_ok c r1" "reader_topics t r1" "\<not> is_virtual r1" "position r1 l = Some n"
    using reader_ok_ProcessRecord(1) [OF ok(1) pr m(2) sk m(3)] reader_ok_ProcessRecord(2) [OF ok(1) pr m(2) sk m(3) ok(2)] ok(3) spec(2,5)
    by simp_all
  define t1 where "t1 = set_reader i r1 t"
  have map1: "topic_map t1 = topic_map t" by (simp add: t1_def)
  have ok1: "managers_ok t1" using inv managers_cong(1) [OF map1] by (simp add: tower_inv_def)
  define m' t' where "m' = (if prev \<noteq> 0 then fst (snd (deliver_record env l prev m t1)) else m)"
    and "t' = (if prev \<noteq> 0 then snd (snd (deliver_record env l prev m t1)) else t1)"
  have run: "advance_visitor env l i m (t, False) = Inr (\<not> flow_failed t', m', t', flow_failed t')"
    using next' pr by (simp add: advance_visitor_def Let_def m(1) m'_def t'_def t1_def split_beta)
  have deliv: "frame t1 t' \<and> no_loss c t1 t' \<and> (m' = m \<or> (\<exists>p. m' = SetPreviousSequenceNumber p m)) \<and> moves ?r r1 t t'"
  proof (cases "prev = 0")
    case True
    then have "next_of ?r l (data_uuid m) = None" using spec(4) ok(1) by (auto simp: reader_ok_def split: option.splits)
    then have "moves ?r r1 t t1" by (rule moves_unknown [OF wf pr _ managers_cong(3) [OF map1]])
    then show ?thesis using True ok1 by (simp add: m'_def t'_def frame_def)
  next
    case False
    then have p: "next_of ?r l (data_uuid m) = Some prev" using spec(4) by (simp split: option.splits)
    have "c l k \<noteq> Some (data_uuid m)" if "prev \<le> k" "k < data_seqno m" for k
      using that caught_upD [OF cu p q(1)] sk p q(1) m(1) by (cases "k \<le> q") (auto simp: no_record_def skips_def)
    then have norec: "\<forall>k. prev \<le> k \<and> k < data_seqno m \<longrightarrow> c l k \<noteq> Some (data_uuid m)" by blast
    obtain sent m2 t2 where d: "deliver_record env l prev m t1 = (sent, m2, t2)" by (cases "deliver_record env l prev m t1") auto
    have "data_seqno m \<noteq> - 1" using m by simp
    note dr = deliver_record_spec [where c = c, OF ok1 d this norec]
    have "advanced l (data_uuid m) prev n t t2" using dr(5) m(1) by (simp add: advanced_def managers_cong(3) [OF map1])
    then have "moves ?r r1 t t2" by (rule moves_record [OF wf pr p _ m(3)])
    then show ?thesis using False dr(1-3) d by (auto simp: m'_def t'_def)
  qed
  then have "tower_inv c env (t'\<lparr> data_cache := data_cache t \<rparr>)"
    using tower_inv_update [OF inv _ r1(1-3) _ i, of t' "data_cache t"] tower_inv_good(4) [OF inv] by (simp add: t1_def)
  moreover have "t'\<lparr> data_cache := data_cache t \<rparr> = t'" using deliv by (cases t') (simp add: frame_def t1_def)
  moreover have "log_readers t' = (log_readers t)[i := r1]" using deliv by (simp add: frame_def t1_def)
  moreover have "skips c r1 l (n + 1)" using skips_next [OF r1(4)] .
  moreover have "n < n + 1" using word_less_plus1 [OF m(3)] .
  ultimately have "visit_at c env l i (n + 1) t'" using i r1(4) by (auto simp: visit_at_def)
  moreover have "no_loss c t t1" by (rule no_loss_same [OF map1, of "[]"]) (simp add: t1_def)
  then have "no_loss c t t'" using no_loss_trans deliv by blast
  moreover have "data_cache t' = data_cache t" "subscribed t' = subscribed t" "length (log_readers t') = length (log_readers t)"
    using deliv managers_cong(2) [OF map1] by (simp_all add: frame_def t1_def)
  ultimately show ?thesis using run deliv by blast
qed

definition same_record :: "MessageData \<Rightarrow> MessageData \<Rightarrow> bool" where
  "same_record m m' \<longleftrightarrow> m' = m \<or> (\<exists>p. m' = SetPreviousSequenceNumber p m)"

lemma same_record_refl: "same_record m m"
  by (simp add: same_record_def)

lemma same_record_simps: "same_record m m' \<Longrightarrow> data_uuid m' = data_uuid m \<and> message_ok m' = message_ok m"
  by (auto simp: same_record_def)

definition run_at :: "log_content \<Rightarrow> LogID \<Rightarrow> SequenceNumber \<Rightarrow> MessageData list \<Rightarrow> bool" where
  "run_at c l n run \<longleftrightarrow> unat n + length run < 2 ^ 64
     \<and> (\<forall>j < length run. data_seqno (run ! j) = n + of_nat j \<and> c l (n + of_nat j) = Some (data_uuid (run ! j)))"

lemma run_at_Cons:
  assumes "run_at c l n (m # run)"
  shows "data_seqno m = n" "c l n = Some (data_uuid m)" "n \<noteq> - 1" "run_at c l (n + 1) run"
proof -
  have u: "unat n + Suc (length run) < 2 ^ 64" and
    j: "\<And>j. j < Suc (length run) \<Longrightarrow> data_seqno ((m # run) ! j) = n + of_nat j \<and> c l (n + of_nat j) = Some (data_uuid ((m # run) ! j))"
    using assms by (auto simp: run_at_def)
  show "data_seqno m = n" "c l n = Some (data_uuid m)" using j [of 0] by simp_all
  have suc: "unat (n + 1) = unat n + 1" using u by (subst unat_add_lem [THEN iffD1]) simp_all
  then show "n \<noteq> - 1" by auto
  have eq: "n + 1 + of_nat k = n + of_nat (Suc k)" for k by (simp add: algebra_simps)
  show "run_at c l (n + 1) run"
    unfolding run_at_def eq using suc u j [of "Suc _"] by simp
qed

lemma visit_at_skip:
  assumes "visit_at c env l i n t" and "c l n = Some u" and "u \<notin> subscribed t l" and "n \<noteq> - 1"
  shows "visit_at c env l i (n + 1) t"
proof -
  obtain q where inv: "tower_inv c env t" and i: "i < length (log_readers t)" and q: "position (log_readers t ! i) l = Some q" "q < n"
    and sk: "skips c (log_readers t ! i) l n" using assms(1) by (auto simp: visit_at_def)
  have lt: "n < n + 1" using word_less_plus1 [OF assms(4)] .
  have topics: "next_of (log_readers t ! i) l u = None" using tower_inv_reader(2) [OF inv i] assms(3) unfolding reader_topics_def by blast
  have "skips c (log_readers t ! i) l (n + 1)"
    unfolding skips_def
  proof (intro allI impI)
    fix q' t' m
    assume a: "position (log_readers t ! i) l = Some q'" "next_of (log_readers t ! i) l t' \<noteq> None" "q' < m \<and> m < n + 1"
    have "\<not> n < m" using inc_le [of n m] a(3) by (auto simp: not_less [symmetric])
    then have "m < n \<or> m = n" by auto
    then show "c l m \<noteq> Some t'" using sk a topics assms(2) by (auto simp: skips_def)
  qed
  moreover have "q < n + 1" using q(2) lt by (rule order.strict_trans)
  ultimately show ?thesis using inv i q(1) by (auto simp: visit_at_def)
qed

lemma scan_advance:
  assumes "visit_at c env l i n t" and "run_at c l n run" and "length sel = length run"
    and "\<forall>j < length run. \<not> sel ! j \<longrightarrow> data_uuid (run ! j) \<notin> subscribed t l"
  shows "\<exists>cnt stop ms t' b. scan (advance_visitor env l i) (zip sel run) (t, False) = Inr (cnt, stop, ms, t', b)
    \<and> tower_inv c env t' \<and> no_loss c t t' \<and> data_cache t' = data_cache t \<and> length (log_readers t') = length (log_readers t)
    \<and> position (log_readers t' ! i) l \<noteq> None \<and> list_all2 same_record run ms \<and> (run = [] \<longrightarrow> \<not> b) \<and> (run \<noteq> [] \<longrightarrow> cnt \<noteq> 0)"
  using assms
proof (induction run arbitrary: n sel t)
  case Nil
  then show ?case by (auto simp: visit_at_def)
next
  case (Cons m run)
  obtain s ss where sel: "sel = s # ss" using Cons.prems(3) by (cases sel) auto
  note m = run_at_Cons [OF Cons.prems(2)]
  have ss: "length ss = length run" using Cons.prems(3) by (simp add: sel)
  have skip: "\<forall>j < length run. \<not> ss ! j \<longrightarrow> data_uuid (run ! j) \<notin> subscribed t l" using Cons.prems(4) by (auto simp: sel)
  have refl: "list_all2 same_record run run" by (rule list.rel_refl) (simp add: same_record_def)
  show ?case
  proof (cases s)
    case False
    then have "data_uuid m \<notin> subscribed t l" using Cons.prems(4) by (auto simp: sel)
    from visit_at_skip [OF Cons.prems(1) m(2) this m(3)]
    obtain cnt stop ms t' b where "scan (advance_visitor env l i) (zip ss run) (t, False) = Inr (cnt, stop, ms, t', b)"
      "tower_inv c env t'" "no_loss c t t'" "data_cache t' = data_cache t" "length (log_readers t') = length (log_readers t)"
      "position (log_readers t' ! i) l \<noteq> None" "list_all2 same_record run ms"
      using Cons.IH [OF _ m(4) ss skip] by blast
    moreover from this have "run = [] \<longrightarrow> \<not> b" by auto
    ultimately show ?thesis using False by (simp add: sel same_record_refl)
  next
    case True
    obtain m' t1 where st: "advance_visitor env l i m (t, False) = Inr (\<not> flow_failed t1, m', t1, flow_failed t1)"
      "same_record m m'" "visit_at c env l i (n + 1) t1" "no_loss c t t1" "data_cache t1 = data_cache t" "subscribed t1 = subscribed t"
      "length (log_readers t1) = length (log_readers t)"
      using advance_visitor_step [OF Cons.prems(1) m(1,2,3)] unfolding same_record_def by blast
    show ?thesis
    proof (cases "flow_failed t1")
      case True
      then show ?thesis
        using st \<open>s\<close> refl ss by (auto simp: sel visit_at_def)
    next
      case False
      obtain cnt stop ms t' b where "scan (advance_visitor env l i) (zip ss run) (t1, False) = Inr (cnt, stop, ms, t', b)"
        "tower_inv c env t'" "no_loss c t1 t'" "data_cache t' = data_cache t1" "length (log_readers t') = length (log_readers t1)"
        "position (log_readers t' ! i) l \<noteq> None" "list_all2 same_record run ms"
        using Cons.IH [OF st(3) m(4) ss] skip unfolding st(6) by blast
      then show ?thesis using False \<open>s\<close> st no_loss_trans [OF st(4)] by (simp add: sel)
    qed
  qed
qed

lemma same_managers:
  assumes "topic_manager t' = topic_manager t"
  shows "managers_ok t' = managers_ok t" and "subscribed t' = subscribed t" and "sub_seqno t' = sub_seqno t"
  using assms by (simp_all add: managers_ok_def subscribed_def fun_eq_iff sub_seqno_def)

text \<open>\<open>topic_map_[log_id]\<close> may add an empty manager, which nobody notices.\<close>

lemma touch_manager:
  fixes l :: LogID
  assumes "tower_inv c env t"
  defines "t' \<equiv> t\<lparr> topic_map := umap_set (topic_map t) l (topic_manager t l) \<rparr>"
  shows "tower_inv c env t'" and "no_loss c t t'" and "topic_manager t' = topic_manager t"
proof -
  show tm: "topic_manager t' = topic_manager t" by (simp add: t'_def fun_eq_iff)
  have "effects t' = effects t @ []" by (simp add: t'_def)
  then show "no_loss c t t'" by (auto simp: no_loss_def served_def same_managers [OF tm])
  show "tower_inv c env t'"
    using assms(1) same_managers [OF tm] by (simp add: tower_inv_def reader_topics_def covered_def watched_def) (simp add: t'_def)
qed

lemma cached_run_at:
  assumes "cache_ok c p dc" and "cached_run p dc l n run"
  shows "run_at c l n run"
  using assms content_seqno [of p dc l] by (auto simp: run_at_def cached_run_def cache_ok_def)

lemma rewritten_ok:
  assumes "cache_ok c p dc" and "cached_run p dc l n run" and "list_all2 same_record run ms"
    and "dc_inv p dc'" and "content p dc' = rewritten p dc l n ms"
  shows "cache_ok c p dc'"
  unfolding cache_ok_def
proof (intro conjI allI impI assms(4))
  fix l' x m assume m: "content p dc' l' x = Some m"
  have "c l' x = Some (data_uuid m) \<and> message_ok m"
  proof (cases "l' = l \<and> unat n \<le> unat x \<and> unat x < unat n + length ms")
    case False
    then have "rewritten p dc l n ms l' x = content p dc l' x" unfolding rewritten_def by (rule if_not_P)
    then have "content p dc l' x = Some m" using m assms(5) by simp
    then show ?thesis using assms(1) by (simp add: cache_ok_def)
  next
    case True
    let ?k = "unat x - unat n"
    from True have "rewritten p dc l n ms l' x = Some (ms ! ?k)" unfolding rewritten_def by (rule if_P)
    then have mk: "m = ms ! ?k" using m assms(5) by simp
    have len: "length ms = length run" using list_all2_lengthD [OF assms(3)] by simp
    then have k: "?k < length run" using True by linarith
    have "(of_nat ?k :: u64) = of_nat (unat x) - of_nat (unat n)" using True by (intro of_nat_diff) simp
    then have x: "n + of_nat ?k = x" by simp
    have "content p dc l x = Some (run ! ?k)" using assms(2) k x unfolding cached_run_def by metis
    then have r: "c l x = Some (data_uuid (run ! ?k)) \<and> message_ok (run ! ?k)" using assms(1) by (simp add: cache_ok_def)
    have "same_record (run ! ?k) m" using list_all2_nthD [OF assms(3) k] mk by simp
    then show ?thesis using same_record_simps [of "run ! ?k" m] r True by simp
  qed
  then show "c l' x = Some (data_uuid m)" "message_ok m" by simp_all
qed

lemma skipped_not_subscribed:
  assumes "managers_ok t" and "lookup_topic (topic_manager t l) = Inr name" and "message_ok m"
    and "name \<noteq> []" and "data_topic_name m \<noteq> name"
  shows "data_uuid m \<notin> subscribed t l"
proof
  assume sub: "data_uuid m \<in> subscribed t l"
  have key: "u \<in> subscribed t l \<longleftrightarrow> u \<in> fst ` set (topic_manager t l)" for u
    by (auto simp: subscribed_def umap_find_None)
  have "\<forall>u \<in> fst ` set (topic_manager t l). valid_uuid u" using assms(1) by (auto simp: managers_ok_def key [symmetric])
  from lookup_topic_spec [OF this] assms(2,4)
  obtain u ns where u: "map fst (topic_manager t l) = [u]" "fst (GetTopicID u) = Some (ns, name)" by auto
  have "set (map fst (topic_manager t l)) = {u}" unfolding u(1) by simp
  then have "data_uuid m = u" using sub key by simp
  then show False using u(2) message_ok_uuid [OF assms(3)] assms(5) by simp
qed

lemma AdvanceReaderFromCache_spec:
  assumes inv: "tower_inv c env t" and i: "i < length (log_readers t)" and op: "position (log_readers t ! i) l \<noteq> None"
  shows "\<exists>read t'. AdvanceReaderFromCache env l i t = Some (Inr (read, t')) \<and> tower_inv c env t' \<and> no_loss c t t'
    \<and> length (log_readers t') = length (log_readers t) \<and> position (log_readers t' ! i) l \<noteq> None"
proof (cases "DataCache_GetCapacity (data_cache t) = 0 \<or> GetNextSequenceNumber (log_readers t ! i) l = 0")
  case True
  then show ?thesis using assms by (auto simp: AdvanceReaderFromCache_def Let_def)
next
  case False
  let ?n = "GetNextSequenceNumber (log_readers t ! i) l" and ?p = "te_platform env" and ?dc = "data_cache t"
  obtain q where q: "position (log_readers t ! i) l = Some q" "?n = q + 1" using op by (auto simp: GetNext_position)
  have "q < q + 1" using False q(2) by (intro word_less_plus1) auto
  define t0 where "t0 = t\<lparr> topic_map := umap_set (topic_map t) l (topic_manager t l) \<rparr>"
  note t0 = touch_manager [OF inv, of l, folded t0_def]
  have same: "log_readers t0 = log_readers t" "data_cache t0 = ?dc" by (simp_all add: t0_def)
  have at: "visit_at c env l i ?n t0"
    using t0(1) i q \<open>q < q + 1\<close> skips_next [OF q(1)] by (simp add: visit_at_def same)
  have ok: "managers_ok t0" using t0(1) by (simp add: tower_inv_def)
  have "\<forall>u \<in> fst ` set (topic_manager t0 l). valid_uuid u"
    using ok by (auto simp: managers_ok_def subscribed_def umap_find_None)
  then obtain name where name: "lookup_topic (topic_manager t0 l) = Inr name" using lookup_topic_spec by blast
  have cok: "cache_ok c ?p ?dc" using tower_inv_good(4) [OF inv] .
  then have "dc_inv ?p ?dc" by (simp add: cache_ok_def)
  from VisitCache_spec [OF this advance_visitor_gentle [of env l i], of l ?n name "(t0, False)"]
  obtain run sel where run: "cached_run ?p ?dc l ?n run" "may_skip name sel run"
    "visit_agrees ?p ?dc l ?n (scan (advance_visitor env l i) (zip sel run) (t0, False))
       (VisitCache ?p ?dc l ?n name (advance_visitor env l i) (t0, False))" by blast
  have "message_ok (run ! j)" if "j < length run" for j using run(1) cok that by (auto simp: cached_run_def cache_ok_def)
  then have skip: "\<forall>j < length run. \<not> sel ! j \<longrightarrow> data_uuid (run ! j) \<notin> subscribed t0 l"
    using run(2) skipped_not_subscribed [OF ok name] by (auto simp: may_skip_def)
  have "length sel = length run" using run(2) by (simp add: may_skip_def)
  from scan_advance [OF at cached_run_at [OF cok run(1)] this skip]
  obtain cnt stop ms t1 b where sc: "scan (advance_visitor env l i) (zip sel run) (t0, False) = Inr (cnt, stop, ms, t1, b)"
    "tower_inv c env t1" "no_loss c t0 t1" "data_cache t1 = data_cache t0" "length (log_readers t1) = length (log_readers t0)"
    "position (log_readers t1 ! i) l \<noteq> None" "list_all2 same_record run ms" "run = [] \<longrightarrow> \<not> b" "run \<noteq> [] \<longrightarrow> cnt \<noteq> 0" by blast
  obtain cc where cc: "VisitCache ?p ?dc l ?n name (advance_visitor env l i) (t0, False) = Some (Inr (?n + of_nat cnt, ?dc\<lparr> rs_cache := cc \<rparr>, t1, b))"
    "dc_inv ?p (?dc\<lparr> rs_cache := cc \<rparr>)" "content ?p (?dc\<lparr> rs_cache := cc \<rparr>) = rewritten ?p ?dc l ?n ms"
    using run(3) by (auto simp: visit_agrees_def sc(1))
  have cok': "cache_ok c ?p (?dc\<lparr> rs_cache := cc \<rparr>)" by (rule rewritten_ok [OF cok run(1) sc(7) cc(2,3)])
  let ?t' = "t1\<lparr> data_cache := ?dc\<lparr> rs_cache := cc \<rparr> \<rparr>"
  have fin: "merge_ok c env t1 ?t'" by (rule set_cache_ok [OF sc(2) cok'])
  have "no_loss c t ?t'" using t0(2) sc(3) merge_ok_no_loss [OF fin] by (blast intro: no_loss_trans)
  moreover have "b \<longrightarrow> ?n \<noteq> ?n + of_nat cnt"
  proof
    assume b
    then have "cnt \<noteq> 0" "cnt \<le> length run" using sc(8,9) scan_result [OF sc(1)] run(2) by (auto simp: may_skip_def)
    moreover have "unat ?n + length run < 2 ^ 64" using run(1) by (simp add: cached_run_def)
    ultimately have "unat (of_nat cnt :: u64) = cnt" "cnt \<noteq> 0" by (auto simp: unat_of_nat)
    then have "(of_nat cnt :: u64) \<noteq> 0" by auto
    then show "?n \<noteq> ?n + of_nat cnt" by simp
  qed
  then have "\<exists>read. AdvanceReaderFromCache env l i t = Some (Inr (read, ?t'))"
    using False name cc(1) by (auto simp: AdvanceReaderFromCache_def Let_def t0_def [symmetric] same)
  ultimately show ?thesis using fin sc(5,6) same(1) by (auto simp: merge_ok_def)
qed

lemma SendCacheRecord_spec:
  assumes inv: "tower_inv c env t" and i: "i < length (log_readers t)"
  shows "\<exists>t'. SendCacheRecord env l i t = Some (Inr t') \<and> tower_inv c env t' \<and> no_loss c t t'"
proof (cases "IsLogOpen (log_readers t ! i) l")
  case False
  then show ?thesis using inv by (simp add: SendCacheRecord_def)
next
  case True
  then have op: "position (log_readers t ! i) l \<noteq> None" by (simp add: IsLogOpen_position)
  obtain read t1 where t1: "AdvanceReaderFromCache env l i t = Some (Inr (read, t1))" "tower_inv c env t1" "no_loss c t t1"
    "length (log_readers t1) = length (log_readers t)" "position (log_readers t1 ! i) l \<noteq> None"
    using AdvanceReaderFromCache_spec [OF inv i op] by blast
  have i1: "i < length (log_readers t1)" using i t1(4) by simp
  obtain merged t2 where t2: "AttemptReaderMerges env i l t1 = Inr (merged, t2)" "merge_ok c env t1 t2" "\<not> merged \<longrightarrow> t2 = t1"
    using AttemptReaderMerges_spec [OF t1(2) i1, of l] by blast
  obtain t3 where t3: "on_reader i (\<lambda>r. RestartReading r l) t1 = Inr t3" "merge_ok c env t1 t3"
    using on_reader_spec [OF t1(2) i1 t1(5), of "\<lambda>r. RestartReading r l"] by auto
  obtain t4 where t4: "andThen (on_reader i (\<lambda>r. PauseReading r l) t1) (\<lambda>t. Inr (write_reentry l i t)) = Inr t4" "merge_ok c env t1 t4"
    using pause_and_queue [OF t1(2) i1 t1(5)] by blast
  let ?t' = "if read = kReadBackoff then t4 else if merged then t2 else t3"
  have "merge_ok c env t1 ?t'" using t2(2) t3(2) t4(2) by simp
  moreover have "SendCacheRecord env l i t = Some (Inr ?t')"
    using True t1(1) t2(1,3) t3(1) t4(1) by (simp add: SendCacheRecord_def)
  ultimately show ?thesis using no_loss_trans [OF t1(3) merge_ok_no_loss] by (auto simp: merge_ok_def)
qed

end
