(* ===== verification/TowerSubscriptions.thy ===== *)
theory TowerSubscriptions
  imports TowerRecords
begin

text \<open>
  Subscriptions of a control tower from request to removal: what a new subscriber is sent from the cache, that it is then watched by
  a reader from where the cache ended, and that the invariant of the tailer holds in every state its handlers reach.
\<close>

section \<open>The history sent from the cache\<close>

definition of_topic :: "topic_uuid \<Rightarrow> MessageData \<Rightarrow> bool" where
  "of_topic u m \<longleftrightarrow> uuid_topic_id u = Inr (data_namespace_id m, data_topic_name m)"

text \<open>The messages of a topic, each with the number after its predecessor's as its previous one, and where they end.\<close>

fun history :: "SequenceNumber \<Rightarrow> MessageData list \<Rightarrow> MessageData list" where
  "history d [] = []"
| "history d (m # ms) = SetPreviousSequenceNumber d m # history (data_seqno m + 1) ms"

fun history_end :: "SequenceNumber \<Rightarrow> MessageData list \<Rightarrow> SequenceNumber" where
  "history_end d [] = d"
| "history_end d (m # ms) = history_end (data_seqno m + 1) ms"

definition sends :: "CopilotSub \<Rightarrow> MessageData list \<Rightarrow> effect list" where
  "sends sub ms = map (\<lambda>m. On_message (Data m) [sub]) ms"

lemma sends_simps [simp]: "sends sub [] = []" "sends sub (m # ms) = On_message (Data m) [sub] # sends sub ms"
  by (simp_all add: sends_def)

lemma delivered_to_Cons: "delivered_to es u n sid \<Longrightarrow> delivered_to (e # es) u n sid"
  using delivered_to_append [of "[e]" es u n sid] by simp

lemma history_delivered: "m \<in> set ms \<Longrightarrow> data_uuid m = u \<Longrightarrow> delivered_to (sends sub (history d ms)) u (data_seqno m) sub"
proof (induction ms arbitrary: d)
  case (Cons x ms)
  show ?case
  proof (cases "m = x")
    case True
    then show ?thesis using Cons.prems(2) by (auto simp: delivered_to_def intro!: exI [of _ "SetPreviousSequenceNumber d x"])
  next
    case False
    then have "delivered_to (sends sub (history (data_seqno x + 1) ms)) u (data_seqno m) sub" using Cons by simp
    then show ?thesis by (simp add: delivered_to_Cons)
  qed
qed simp

lemma of_topic_uuid: "message_ok m \<Longrightarrow> data_uuid m = u \<Longrightarrow> of_topic u m"
  using message_ok_uuid [of m] by (auto simp: of_topic_def uuid_topic_id_def)

lemma deliver_visitor_step:
  assumes "uuid_topic_id u = Inr (ns, name)" and "seqno \<le> data_seqno m"
  shows "deliver_visitor env u sub seqno m (t, d, False) =
    (if of_topic u m
     then let t' = on_message env (Data (SetPreviousSequenceNumber d m)) [sub] t
          in Inr (\<not> flow_failed t', SetPreviousSequenceNumber d m, t', data_seqno m + 1, flow_failed t')
     else Inr (True, m, t, d, False))"
  using assms by (auto simp: deliver_visitor_def of_topic_def Let_def)

lemma deliver_visitor_gentle: "gentle (deliver_visitor env u sub seqno)"
  unfolding gentle_def
proof (intro allI impI)
  fix m s go m' s' assume "deliver_visitor env u sub seqno m s = Inr (go, m', s')"
  then have "m' = m \<or> (\<exists>d. m' = SetPreviousSequenceNumber d m)"
    by (auto simp: deliver_visitor_def andThen_Inr Let_def split: prod.splits if_splits)
  then show "same_message m m'" by (auto simp: same_message_def)
qed

lemma on_message_quiet: "\<exists>f. on_message env m rs t = t\<lparr> effects := effects t @ [On_message m rs], flow_failed := f \<rparr>"
  by (auto simp: on_message_def Let_def)

text \<open>A scan of a run of messages sends those of the topic that it comes to, and stops after a write that failed.\<close>

lemma scan_deliver:
  assumes "run_at c l n run" and "length sel = length run" and "\<forall>j < length run. \<not> sel ! j \<longrightarrow> \<not> of_topic u (run ! j)"
    and u: "uuid_topic_id u = Inr (ns, name)" and "seqno \<le> n"
  shows "\<exists>cnt stop ms f. scan (deliver_visitor env u sub seqno) (zip sel run) (t, d, False) =
      Inr (cnt, stop, ms,
        t\<lparr> effects := effects t @ sends sub (history d (filter (of_topic u) (take cnt run))), flow_failed := f \<rparr>,
        history_end d (filter (of_topic u) (take cnt run)), stop)
    \<and> list_all2 same_record run ms \<and> cnt \<le> length run \<and> (\<not> stop \<longrightarrow> cnt = length run)"
  using assms(1-3,5)
proof (induction run arbitrary: n sel t d)
  case Nil
  show ?case by (intro exI [of _ 0] exI [of _ False] exI [of _ "[]"] exI [of _ "flow_failed t"]) simp
next
  case (Cons m run)
  obtain s ss where sel: "sel = s # ss" using Cons.prems(2) by (cases sel) auto
  note m = run_at_Cons [OF Cons.prems(1)]
  have ss: "length ss = length run" using Cons.prems(2) by (simp add: sel)
  have skip: "\<forall>j < length run. \<not> ss ! j \<longrightarrow> \<not> of_topic u (run ! j)" using Cons.prems(3) by (auto simp: sel)
  have refl: "list_all2 same_record run run" by (rule list.rel_refl) (simp add: same_record_def)
  have "n < n + 1" using word_less_plus1 [OF m(3)] .
  then have le: "seqno \<le> n + 1" using Cons.prems(4) by simp
  note IH = Cons.IH [OF m(4) ss skip le]
  note step = deliver_visitor_step [OF u, of seqno m env sub t d]
  show ?case
  proof (cases "s \<and> of_topic u m")
    case False
    then have "\<not> of_topic u m" using Cons.prems(3) by (auto simp: sel)
    moreover obtain cnt stop ms f where "scan (deliver_visitor env u sub seqno) (zip ss run) (t, d, False) =
      Inr (cnt, stop, ms,
        t\<lparr> effects := effects t @ sends sub (history d (filter (of_topic u) (take cnt run))), flow_failed := f \<rparr>,
        history_end d (filter (of_topic u) (take cnt run)), stop)"
      "list_all2 same_record run ms" "cnt \<le> length run" "\<not> stop \<longrightarrow> cnt = length run"
      using IH [of t d] by blast
    ultimately show ?thesis
      using step m(1) Cons.prems(4)
      by (intro exI [of _ "Suc cnt"] exI [of _ stop] exI [of _ "m # ms"] exI [of _ f]) (simp add: sel same_record_refl)
  next
    case True
    let ?m = "SetPreviousSequenceNumber d m"
    obtain f where t1: "on_message env (Data ?m) [sub] t = t\<lparr> effects := effects t @ [On_message (Data ?m) [sub]], flow_failed := f \<rparr>"
      (is "_ = ?t1") using on_message_quiet by blast
    have st: "deliver_visitor env u sub seqno m (t, d, False) = Inr (\<not> f, ?m, ?t1, data_seqno m + 1, f)"
      using step True m(1) Cons.prems(4) by (simp add: t1 Let_def)
    have same: "same_record m ?m" by (auto simp: same_record_def)
    show ?thesis
    proof (cases f)
      case True
      then show ?thesis using st \<open>s \<and> of_topic u m\<close> refl same ss
        by (intro exI [of _ "Suc 0"] exI [of _ True] exI [of _ "?m # run"] exI [of _ f]) (simp add: sel)
    next
      case False
      obtain cnt stop ms f' where "scan (deliver_visitor env u sub seqno) (zip ss run) (?t1, data_seqno m + 1, False) =
        Inr (cnt, stop, ms,
          ?t1\<lparr> effects := effects ?t1 @ sends sub (history (data_seqno m + 1) (filter (of_topic u) (take cnt run))), flow_failed := f' \<rparr>,
          history_end (data_seqno m + 1) (filter (of_topic u) (take cnt run)), stop)"
        "list_all2 same_record run ms" "cnt \<le> length run" "\<not> stop \<longrightarrow> cnt = length run"
        using IH [of ?t1 "data_seqno m + 1"] by blast
      then show ?thesis
        using st \<open>s \<and> of_topic u m\<close> False same
        by (intro exI [of _ "Suc cnt"] exI [of _ stop] exI [of _ "?m # ms"] exI [of _ f']) (simp add: sel)
    qed
  qed
qed

definition history_gap :: "NamespaceID \<Rightarrow> Topic \<Rightarrow> CopilotSub \<Rightarrow> SequenceNumber \<Rightarrow> SequenceNumber \<Rightarrow> effect list" where
  "history_gap ns name sub from to =
     (if from < to then [On_message (Gap (MessageGap_new kGuestTenant ns name kBenign from (to - 1))) [sub]] else [])"

text \<open>What a new subscriber is sent: the cached messages of the topic in order, then a gap up to the end of the cached run.\<close>

lemma DeliverFromCache_spec:
  assumes ok: "cache_ok c (te_platform env) (data_cache t)" and u: "uuid_topic_id u = Inr (ns, name)" and n: "seqno \<noteq> 0"
    and cap: "DataCache_GetCapacity (data_cache t) \<noteq> 0"
  shows "\<exists>run cnt stop dc f. let ds = filter (of_topic u) (take cnt run); next = seqno + of_nat cnt
    in cached_run (te_platform env) (data_cache t) l seqno run \<and> cnt \<le> length run \<and> (\<not> stop \<longrightarrow> cnt = length run)
     \<and> cache_ok c (te_platform env) dc
     \<and> DeliverFromCache env u sub l seqno t = Some (Inr (\<not> stop, next,
         t\<lparr> data_cache := dc,
            effects := effects t @ sends sub (history seqno ds) @ (if stop then [] else history_gap ns name sub (history_end seqno ds) next),
            flow_failed := f \<rparr>))"
proof -
  let ?p = "te_platform env" and ?dc = "data_cache t" and ?v = "deliver_visitor env u sub seqno"
  have "dc_inv ?p ?dc" using ok by (simp add: cache_ok_def)
  from VisitCache_spec [OF this deliver_visitor_gentle [of env u sub seqno], of l seqno name "(t, seqno, False)"]
  obtain run sel where run: "cached_run ?p ?dc l seqno run" "may_skip name sel run"
    "visit_agrees ?p ?dc l seqno (scan ?v (zip sel run) (t, seqno, False)) (VisitCache ?p ?dc l seqno name ?v (t, seqno, False))" by blast
  have sel: "length sel = length run" "\<forall>j < length run. \<not> sel ! j \<longrightarrow> \<not> of_topic u (run ! j)"
    using run(2) u by (auto simp: may_skip_def of_topic_def)
  obtain cnt stop ms f where sc: "scan ?v (zip sel run) (t, seqno, False) =
      Inr (cnt, stop, ms,
        t\<lparr> effects := effects t @ sends sub (history seqno (filter (of_topic u) (take cnt run))), flow_failed := f \<rparr>,
        history_end seqno (filter (of_topic u) (take cnt run)), stop)"
    "list_all2 same_record run ms" "cnt \<le> length run" "\<not> stop \<longrightarrow> cnt = length run"
    using scan_deliver [OF cached_run_at [OF ok run(1)] sel u order_refl, of env sub t seqno] by blast
  obtain cc where cc: "dc_inv ?p (?dc\<lparr> rs_cache := cc \<rparr>)" "content ?p (?dc\<lparr> rs_cache := cc \<rparr>) = rewritten ?p ?dc l seqno ms"
    and visit: "VisitCache ?p ?dc l seqno name ?v (t, seqno, False) = Some (Inr (seqno + of_nat cnt, ?dc\<lparr> rs_cache := cc \<rparr>,
        t\<lparr> effects := effects t @ sends sub (history seqno (filter (of_topic u) (take cnt run))), flow_failed := f \<rparr>,
        history_end seqno (filter (of_topic u) (take cnt run)), stop))"
    using run(3) by (auto simp: visit_agrees_def sc(1))
  have "cache_ok c ?p (?dc\<lparr> rs_cache := cc \<rparr>)" by (rule rewritten_ok [OF ok run(1) sc(2) cc])
  moreover have "DeliverFromCache env u sub l seqno t = Some (Inr (\<not> stop, seqno + of_nat cnt,
      t\<lparr> data_cache := ?dc\<lparr> rs_cache := cc \<rparr>,
         effects := effects t @ sends sub (history seqno (filter (of_topic u) (take cnt run))) @ (if stop then []
           else history_gap ns name sub (history_end seqno (filter (of_topic u) (take cnt run))) (seqno + of_nat cnt)),
         flow_failed := f \<rparr>))"
    using cap n u visit by (cases t) (simp add: DeliverFromCache_def gap_message_def history_gap_def on_message_sourceless_def Let_def)
  ultimately show ?thesis using run(1) sc(3,4) unfolding Let_def by blast
qed

text \<open>No record of the topic between the old and the new position is left out.\<close>

lemma history_complete:
  assumes ok: "cache_ok c p dc" and run: "cached_run p dc l n run" and cnt: "cnt \<le> length run"
    and k: "n \<le> k" "k < n + of_nat cnt" "c l k = Some u"
  shows "delivered_to (sends sub (history n (filter (of_topic u) (take cnt run)))) u k sub"
proof -
  have len: "unat n + length run < 2 ^ 64" using run by (simp add: cached_run_def)
  have "unat (of_nat cnt :: u64) = cnt" using len cnt by (simp add: unat_of_nat)
  then have "unat (n + of_nat cnt) = unat n + cnt" using len cnt by (subst unat_add_lem [THEN iffD1]) simp_all
  then have j: "unat k - unat n < cnt" "unat n \<le> unat k" using k by (simp_all add: word_le_nat_alt word_less_nat_alt)
  define j where "j = unat k - unat n"
  have kj: "k = n + of_nat j" using j(2) by (simp add: j_def of_nat_diff)
  have jl: "j < length run" using j(1) cnt by (simp add: j_def)
  have cont: "content p dc l k = Some (run ! j)" using run jl by (simp add: cached_run_def kj)
  then have m: "message_ok (run ! j)" "data_uuid (run ! j) = u" using ok k(3) by (auto simp: cache_ok_def)
  have seq: "data_seqno (run ! j) = k" using cached_run_at [OF ok run] jl by (simp add: run_at_def kj)
  have "run ! j \<in> set (take cnt run)" using j(1) jl by (auto simp: in_set_conv_nth j_def intro!: exI [of _ j])
  then have "run ! j \<in> set (filter (of_topic u) (take cnt run))" using of_topic_uuid [OF m] by simp
  from history_delivered [OF this m(2), of sub n] show ?thesis by (simp add: seq)
qed

lemma DeliverFromCache_ok:
  assumes ok: "cache_ok c (te_platform env) (data_cache t)" and u: "valid_uuid u" and n: "seqno \<noteq> 0"
  shows "\<exists>finished next dc es f. DeliverFromCache env u sub l seqno t
      = Some (Inr (finished, next, t\<lparr> data_cache := dc, effects := effects t @ es, flow_failed := f \<rparr>))
    \<and> cache_ok c (te_platform env) dc \<and> seqno \<le> next
    \<and> (\<forall>k. seqno \<le> k \<and> k < next \<and> c l k = Some u \<longrightarrow> delivered_to es u k sub)"
proof (cases "DataCache_GetCapacity (data_cache t) = 0")
  case True
  then show ?thesis using ok
    by (intro exI [of _ True] exI [of _ seqno] exI [of _ "data_cache t"] exI [of _ "[]"] exI [of _ "flow_failed t"]) (auto simp: DeliverFromCache_def)
next
  case False
  obtain ns name where id: "uuid_topic_id u = Inr (ns, name)" using u by (auto simp: valid_uuid_def uuid_topic_id_def)
  obtain run cnt stop dc f where d: "cached_run (te_platform env) (data_cache t) l seqno run" "cnt \<le> length run" "cache_ok c (te_platform env) dc"
    "DeliverFromCache env u sub l seqno t = Some (Inr (\<not> stop, seqno + of_nat cnt,
       t\<lparr> data_cache := dc,
          effects := effects t @ sends sub (history seqno (filter (of_topic u) (take cnt run))) @ (if stop then []
            else history_gap ns name sub (history_end seqno (filter (of_topic u) (take cnt run))) (seqno + of_nat cnt)),
          flow_failed := f \<rparr>))"
    using DeliverFromCache_spec [OF ok id n False, of l sub] unfolding Let_def by blast
  have len: "unat seqno + length run < 2 ^ 64" using d(1) by (simp add: cached_run_def)
  have "unat (of_nat cnt :: u64) = cnt" using len d(2) by (simp add: unat_of_nat)
  then have "unat (seqno + of_nat cnt) = unat seqno + cnt" using len d(2) by (subst unat_add_lem [THEN iffD1]) simp_all
  then have "seqno \<le> seqno + of_nat cnt" by (simp add: word_le_nat_alt)
  with d history_complete [OF ok d(1,2), where u = u and sub = sub] show ?thesis
    unfolding delivered_to_append
    by (intro exI [of _ "\<not> stop"] exI [of _ "seqno + of_nat cnt"] exI [of _ dc] exI conjI) (assumption | auto simp: delivered_to_append)+
qed

section \<open>Adding a subscription\<close>

lemma subscribed_iff:
  assumes "managers_ok t"
  shows "u \<in> subscribed t l \<longleftrightarrow> (\<exists>sid. sub_seqno t l u sid \<noteq> None)"
proof -
  have "tm_inv (topic_manager t l)" using assms by (simp add: managers_ok_def)
  then have ne: "x \<noteq> []" if "umap_find (topic_manager t l) u = Some x" for x using that by (auto simp: tm_inv_def list_inv_def)
  show ?thesis
  proof (cases "umap_find (topic_manager t l) u")
    case (Some x)
    then have "list_seqno x (ts_id (hd x)) \<noteq> None" using ne by (auto simp: list_seqno_None)
    then show ?thesis using Some by (auto simp: subscribed_def sub_seqno_def tm_seqno_def)
  qed (simp add: subscribed_def sub_seqno_def tm_seqno_def)
qed

text \<open>The topic manager of one log is exchanged.\<close>

lemma managers_ok_set:
  assumes "managers_ok t" and "tm_inv tm" and "\<And>u. umap_find tm u \<noteq> None \<Longrightarrow> valid_uuid u"
  shows "managers_ok (t\<lparr> topic_map := umap_set (topic_map t) l tm \<rparr>)"
  using assms by (auto simp: managers_ok_def subscribed_def)

lemma sub_seqno_set: "sub_seqno (t\<lparr> topic_map := umap_set (topic_map t) l tm \<rparr>) l' = (if l' = l then tm_seqno tm else sub_seqno t l')"
  by (simp add: sub_seqno_def fun_eq_iff)

definition reader_at :: "TopicTailer \<Rightarrow> reader_ref \<Rightarrow> LogReader" where
  "reader_at t ref = (case ref of Pending_reader \<Rightarrow> pending_reader t | Log_reader i \<Rightarrow> log_readers t ! i)"

definition ref_ok :: "TopicTailer \<Rightarrow> reader_ref \<Rightarrow> bool" where
  "ref_ok t ref \<longleftrightarrow> (case ref of Pending_reader \<Rightarrow> True | Log_reader i \<Rightarrow> i < length (log_readers t))"

lemma best_reader_ok: "best_reader u l n irs (best, cost) = best \<or> (\<exists>i \<in> fst ` set irs. best_reader u l n irs (best, cost) = Log_reader i)"
proof (induction irs arbitrary: best cost)
  case (Cons ir irs)
  obtain i r where ir: "ir = (i, r)" by (cases ir)
  show ?case
    using Cons [of best cost] Cons [of "Log_reader i" "SubscriptionCost r u l n"] by (auto simp: ir Let_def)
qed simp

lemma ReaderForNewSubscription_ok: "ref_ok t (ReaderForNewSubscription t u l n)"
proof (cases "length (log_readers t) = 1")
  case False
  let ?irs = "zip [0..<length (log_readers t)] (log_readers t)"
  have "i < length (log_readers t)" if "(i, r) \<in> set ?irs" for i r using set_zip_leftD [OF that] by simp
  then show ?thesis
    using best_reader_ok [of u l n ?irs Pending_reader kSubscriptionCostRewind] False
    by (auto simp: ReaderForNewSubscription_def ref_ok_def)
qed (simp add: ReaderForNewSubscription_def ref_ok_def)

text \<open>The readers after one of them has begun to read a topic.\<close>

lemma start_reading_spec:
  assumes inv: "tower_inv c env t" and ref: "ref_ok t ref" and u: "valid_uuid u" and n: "n \<noteq> 0"
  shows "\<exists>r es. start_reading ref u l n t = (case ref of Pending_reader \<Rightarrow> t\<lparr> pending_reader := r, effects := effects t @ es \<rparr>
      | Log_reader i \<Rightarrow> t\<lparr> log_readers := (log_readers t)[i := r], effects := effects t @ es \<rparr>)
    \<and> reader_ok c r \<and> is_virtual r = is_virtual (reader_at t ref)
    \<and> next_of r = (next_of (reader_at t ref))(l := (next_of (reader_at t ref) l)(u := opt_min (next_of (reader_at t ref) l u) (Some n)))"
proof -
  let ?r = "reader_at t ref"
  obtain r calls where st: "LogReader_StartReading ?r u l n = (r, calls)" by (cases "LogReader_StartReading ?r u l n")
  have ok: "reader_ok c ?r"
    using tower_inv_good(1,2) [OF inv] ref by (auto simp: reader_at_def ref_ok_def good_reader_def split: reader_ref.splits)
  then have wf: "reader_wf ?r" "caught_up c ?r" by (simp_all add: reader_ok_def)
  note spec = StartReading_spec [OF wf(1) st]
  have "opt_min (next_of ?r l u) (Some n) = Some p \<Longrightarrow> p \<noteq> 0" for p
    using ok n by (auto simp: reader_ok_def opt_min_def min_def split: option.splits if_splits)
  then have "reader_ok c r"
    using ok spec(1) caught_up_StartReading [OF wf st n] u by (auto simp: reader_ok_def spec(3))
  moreover have "start_reading ref u l n t = (case ref of Pending_reader \<Rightarrow> t\<lparr> pending_reader := r, effects := effects t @ map On_tailer calls \<rparr>
      | Log_reader i \<Rightarrow> t\<lparr> log_readers := (log_readers t)[i := r], effects := effects t @ map On_tailer calls \<rparr>)"
    using st by (cases ref; cases t) (simp_all add: start_reading_def reader_at_def tailer_calls_def set_reader_def)
  ultimately show ?thesis using spec(3,4) by blast
qed

lemma opt_min_le: "opt_min a (Some n) = Some p \<Longrightarrow> p \<le> n" "a = Some q \<Longrightarrow> \<exists>p. opt_min a b = Some p \<and> p \<le> q"
  by (auto simp: opt_min_def split: option.splits)

lemma opt_min_Some: "\<exists>p. opt_min a (Some n) = Some p"
  by (auto simp: opt_min_def split: option.splits)

definition add_subscription :: "topic_uuid \<Rightarrow> CopilotSub \<Rightarrow> LogID \<Rightarrow> SequenceNumber \<Rightarrow> TopicTailer \<Rightarrow> TopicTailer" where
  "add_subscription u sub l n t =
     (let t = start_reading (ReaderForNewSubscription t u l n) u l n t
      in t\<lparr> topic_map := umap_set (topic_map t) l (snd (TopicManager_AddSubscriber (topic_manager t l) u n sub)) \<rparr>)"

lemma add_subscription_managers:
  fixes l :: LogID and n :: SequenceNumber and sub :: CopilotSub
  assumes "managers_ok t" and "valid_uuid u" and "topic_map t' = topic_map t"
  defines "t2 \<equiv> t'\<lparr> topic_map := umap_set (topic_map t') l (snd (TopicManager_AddSubscriber (topic_manager t' l) u n sub)) \<rparr>"
  shows "managers_ok t2" and "sub_seqno t2 l' u' sid = (if l' = l \<and> u' = u \<and> sid = sub then Some n else sub_seqno t l' u' sid)"
proof -
  have ok: "managers_ok t'" using assms(1) managers_cong(1) [OF assms(3)] by simp
  then have inv: "tm_inv (topic_manager t' l)" by (simp add: managers_ok_def)
  note spec = AddSubscriber_spec [OF inv, of u n sub]
  have "umap_find (snd (TopicManager_AddSubscriber (topic_manager t' l) u n sub)) v \<noteq> None \<Longrightarrow> v = u \<or> umap_find (topic_manager t' l) v \<noteq> None" for v
    by (auto simp: TopicManager_AddSubscriber_def Let_def split_beta split: if_splits)
  then show "managers_ok t2"
    unfolding t2_def using ok spec(3) assms(2) by (intro managers_ok_set) (auto simp: managers_ok_def subscribed_def)
  show "sub_seqno t2 l' u' sid = (if l' = l \<and> u' = u \<and> sid = sub then Some n else sub_seqno t l' u' sid)"
    using spec(2) topic_manager_cong [OF assms(3)] by (simp add: t2_def sub_seqno_set) (simp add: sub_seqno_def)
qed

text \<open>The invariant from the subscriptions, when readers and subscriptions change together.\<close>

lemma tower_invI:
  assumes "\<And>r. r \<in> set (log_readers t) \<Longrightarrow> reader_ok c r \<and> \<not> is_virtual r" and "reader_ok c (pending_reader t)" and "is_virtual (pending_reader t)"
    and "managers_ok t" and "cache_ok c (te_platform env) (data_cache t)"
    and "\<And>r l u. r \<in> insert (pending_reader t) (set (log_readers t)) \<Longrightarrow> next_of r l u \<noteq> None \<Longrightarrow> \<exists>sid. sub_seqno t l u sid \<noteq> None"
    and "covered t"
  shows "tower_inv c env t"
proof -
  have "reader_topics t r" if "r \<in> insert (pending_reader t) (set (log_readers t))" for r
    unfolding reader_topics_def subscribed_iff [OF assms(4)] using assms(6) [OF that] by blast
  then show ?thesis using assms(1-5,7) by (simp add: tower_inv_def)
qed

lemma tower_invD:
  assumes "tower_inv c env t"
  shows "\<And>r. r \<in> set (log_readers t) \<Longrightarrow> reader_ok c r \<and> \<not> is_virtual r" and "reader_ok c (pending_reader t)" and "is_virtual (pending_reader t)"
    and "managers_ok t" and "cache_ok c (te_platform env) (data_cache t)"
    and "\<And>r l u. r \<in> insert (pending_reader t) (set (log_readers t)) \<Longrightarrow> next_of r l u \<noteq> None \<Longrightarrow> \<exists>sid. sub_seqno t l u sid \<noteq> None"
    and "covered t"
proof -
  show ok: "managers_ok t" using assms by (simp add: tower_inv_def)
  show "\<exists>sid. sub_seqno t l u sid \<noteq> None" if "r \<in> insert (pending_reader t) (set (log_readers t))" "next_of r l u \<noteq> None" for r l u
    using that assms subscribed_iff [OF ok, of u l] by (auto simp: tower_inv_def reader_topics_def)
qed (use assms in \<open>simp_all add: tower_inv_def\<close>)

text \<open>A reader that takes on a topic from the number of the new subscription keeps every subscription watched.\<close>

lemma covered_new_subscription:
  assumes cov: "covered t"
    and sub: "\<And>l' u' sid. sub_seqno t' l' u' sid = (if l' = l \<and> u' = u \<and> sid = sub then Some n else sub_seqno t l' u' sid)"
    and r: "next_of r = (next_of old)(l := (next_of old l)(u := opt_min (next_of old l u) (Some n)))"
    and new: "r \<in> insert (pending_reader t') (set (log_readers t'))"
    and keep: "\<And>x. x \<in> insert (pending_reader t) (set (log_readers t)) \<Longrightarrow> x \<in> insert (pending_reader t') (set (log_readers t')) \<or> x = old"
  shows "covered t'"
  unfolding covered_def
proof (intro allI impI)
  fix l' u' sid s assume s: "sub_seqno t' l' u' sid = Some s"
  show "watched t' l' u' s"
  proof (cases "l' = l \<and> u' = u \<and> sid = sub")
    case True
    obtain p where p: "opt_min (next_of old l u) (Some n) = Some p" using opt_min_Some by blast
    then have "next_of r l' u' = Some p" "p \<le> s" using True s sub opt_min_le(1) [OF p] by (simp_all add: r)
    then show ?thesis using new unfolding watched_def by blast
  next
    case False
    then have "sub_seqno t l' u' sid = Some s" using s sub by (simp split: if_splits)
    then have "watched t l' u' s" using cov unfolding covered_def by blast
    then obtain x p where x: "x \<in> insert (pending_reader t) (set (log_readers t))" "next_of x l' u' = Some p" "p \<le> s"
      unfolding watched_def by blast
    have "\<exists>p'. next_of r l' u' = Some p' \<and> p' \<le> p" if "x = old" using x(2) that opt_min_le(2) [of _ p] by (auto simp: r)
    then show ?thesis using keep [OF x(1)] x(2,3) new unfolding watched_def by (meson order_trans)
  qed
qed

lemma add_subscription_spec:
  assumes inv: "tower_inv c env t" and u: "valid_uuid u" and n: "n \<noteq> 0"
  shows "tower_inv c env (add_subscription u sub l n t)"
    and "sub_seqno (add_subscription u sub l n t) l' u' sid = (if l' = l \<and> u' = u \<and> sid = sub then Some n else sub_seqno t l' u' sid)"
    and "\<exists>es. effects (add_subscription u sub l n t) = effects t @ es"
proof -
  let ?ref = "ReaderForNewSubscription t u l n" and ?t = "add_subscription u sub l n t"
  have ref: "ref_ok t ?ref" by (rule ReaderForNewSubscription_ok)
  define old where "old = reader_at t ?ref"
  obtain r es where st: "start_reading ?ref u l n t = (case ?ref of Pending_reader \<Rightarrow> t\<lparr> pending_reader := r, effects := effects t @ es \<rparr>
      | Log_reader i \<Rightarrow> t\<lparr> log_readers := (log_readers t)[i := r], effects := effects t @ es \<rparr>)"
    and r: "reader_ok c r" "is_virtual r = is_virtual old"
      "next_of r = (next_of old)(l := (next_of old l)(u := opt_min (next_of old l u) (Some n)))"
    using start_reading_spec [OF inv ref u n, of l] unfolding old_def by blast
  let ?t1 = "start_reading ?ref u l n t"
  have t1: "topic_map ?t1 = topic_map t" "data_cache ?t1 = data_cache t" "effects ?t1 = effects t @ es"
    by (simp_all add: st split: reader_ref.split)
  have t: "?t = ?t1\<lparr> topic_map := umap_set (topic_map ?t1) l (snd (TopicManager_AddSubscriber (topic_manager ?t1 l) u n sub)) \<rparr>"
    by (simp add: add_subscription_def Let_def)
  note inv' = tower_invD [OF inv]
  have mg: "managers_ok ?t" using add_subscription_managers(1) [OF inv'(4) u t1(1), of l n sub] by (simp add: t)
  show sub: "sub_seqno ?t l' u' sid = (if l' = l \<and> u' = u \<and> sid = sub then Some n else sub_seqno t l' u' sid)" for l' u' sid
    using add_subscription_managers(2) [OF inv'(4) u t1(1), of l n sub] by (simp add: t)
  have readers: "log_readers ?t = log_readers ?t1" "pending_reader ?t = pending_reader ?t1" by (simp_all add: t)
  have old: "old \<in> insert (pending_reader t) (set (log_readers t))"
    using ref by (auto simp: old_def reader_at_def ref_ok_def split: reader_ref.split)
  have new: "x \<in> insert (pending_reader t) (set (log_readers t)) \<or> x = r" if "x \<in> insert (pending_reader ?t) (set (log_readers ?t))" for x
    using that set_update_subset_insert [of "log_readers t"] unfolding readers by (auto simp: st split: reader_ref.splits)
  have new': "r \<in> insert (pending_reader ?t) (set (log_readers ?t))"
    using ref unfolding readers by (auto simp: st ref_ok_def set_update_memI split: reader_ref.splits)
  have keep: "x \<in> insert (pending_reader ?t) (set (log_readers ?t)) \<or> x = old" if "x \<in> insert (pending_reader t) (set (log_readers t))" for x
    using that set_update_other [of x "log_readers t"] unfolding readers by (auto simp: st old_def reader_at_def split: reader_ref.splits)
  have topics: "\<exists>sid. sub_seqno ?t l' u' sid \<noteq> None" if "x \<in> insert (pending_reader ?t) (set (log_readers ?t))" "next_of x l' u' \<noteq> None" for x l' u'
  proof (cases "l' = l \<and> u' = u")
    case True
    then show ?thesis using sub [of l u sub] by auto
  next
    case False
    then have "next_of r l' u' = next_of old l' u'" by (auto simp: r(3))
    then have "\<exists>y \<in> insert (pending_reader t) (set (log_readers t)). next_of y l' u' \<noteq> None" using new [OF that(1)] that(2) old by metis
    then show ?thesis using inv'(6) sub by (metis option.distinct(1))
  qed
  have cov: "covered ?t" by (rule covered_new_subscription [OF inv'(7) sub r(3) new' keep])
  have virt: "reader_ok c x \<and> \<not> is_virtual x" if "x \<in> set (log_readers ?t)" for x
    using that inv'(1) r(1,2) ref set_update_subset_insert [of "log_readers t"] unfolding readers
    by (fastforce simp: st old_def reader_at_def ref_ok_def split: reader_ref.splits)
  have pend: "reader_ok c (pending_reader ?t)" "is_virtual (pending_reader ?t)"
    using inv'(2,3) r(1,2) unfolding readers by (simp_all add: st old_def reader_at_def split: reader_ref.splits)
  show "tower_inv c env ?t"
    by (rule tower_invI [OF virt pend mg _ topics cov]) (simp_all add: t t1(2) inv'(5))
  show "\<exists>es. effects ?t = effects t @ es" by (simp add: t t1(3))
qed

section \<open>Pending subscriptions\<close>

text \<open>The parts of the state the invariant is about.\<close>

definition same_core :: "TopicTailer \<Rightarrow> TopicTailer \<Rightarrow> bool" where
  "same_core t t' \<longleftrightarrow> topic_map t' = topic_map t \<and> log_readers t' = log_readers t \<and> pending_reader t' = pending_reader t
     \<and> data_cache t' = data_cache t \<and> (\<exists>es. effects t' = effects t @ es)"

lemma same_core_inv:
  assumes "same_core t t'"
  shows "tower_inv c env t \<Longrightarrow> tower_inv c env t'" and "sub_seqno t' = sub_seqno t" and "no_loss c t t'"
proof -
  have map: "topic_map t' = topic_map t" using assms by (simp add: same_core_def)
  show "sub_seqno t' = sub_seqno t" by (rule managers_cong(3) [OF map])
  show "no_loss c t t'" using assms no_loss_same by (auto simp: same_core_def)
  assume inv: "tower_inv c env t"
  show "tower_inv c env t'"
    by (rule tower_inv_readers [OF inv map]) (use tower_inv_good [OF inv] assms watched_same [of t' t] in \<open>simp_all add: same_core_def\<close>)
qed

lemma same_core_refl [simp]: "same_core t t"
  by (simp add: same_core_def)

lemma same_core_trans: "same_core t t1 \<Longrightarrow> same_core t1 t2 \<Longrightarrow> same_core t t2"
  by (auto simp: same_core_def)

text \<open>Every stream belongs to a worker.\<close>

definition workers_ok :: "tower_env \<Rightarrow> bool" where
  "workers_ok env \<longleftrightarrow> (\<forall>sub. 0 \<le> copilot_worker env sub)"

definition queued :: "TopicTailer \<Rightarrow> nat \<Rightarrow> CopilotSub \<Rightarrow> PendingSubscription option" where
  "queued t w sub = (if w < length (cache_readers t) then od_find (om_map (pending_queue t w)) sub else None)"

lemma GetPendingReaderQueue_ok:
  assumes "0 \<le> copilot_worker env sub"
  obtains t' where "GetPendingReaderQueue env sub t = Inr (nat (copilot_worker env sub), t')" and "same_core t t'" and "effects t' = effects t"
    and "nat (copilot_worker env sub) < length (cache_readers t')" and "\<And>v. queued t' v = queued t v"
    and "t' = t\<lparr> cache_readers := cache_readers t' \<rparr>"
proof -
  let ?w = "nat (copilot_worker env sub)"
  define qs where "qs = cache_readers t @ replicate (?w + 1 - length (cache_readers t)) None"
  define qs' where "qs' = (case qs ! ?w of None \<Rightarrow> qs[?w := Some ObservableMap_new] | Some _ \<Rightarrow> qs)"
  have run: "GetPendingReaderQueue env sub t = Inr (?w, t\<lparr> cache_readers := qs' \<rparr>)"
    using assms unfolding GetPendingReaderQueue_def qs'_def qs_def Let_def by simp
  have len: "length qs' = length qs" "?w < length qs" "length (cache_readers t) \<le> length qs"
    by (auto simp: qs'_def qs_def split: option.split)
  have new: "pending_queue (t\<lparr> cache_readers := qs' \<rparr>) v = pending_queue (t\<lparr> cache_readers := qs \<rparr>) v" if "v < length qs" for v
    using that len(2) by (cases "v = ?w") (auto simp: pending_queue_def qs'_def split: option.splits)
  have old: "om_map (pending_queue (t\<lparr> cache_readers := qs \<rparr>) v) = (if v < length (cache_readers t) then om_map (pending_queue t v) else [])"
    if "v < length qs" for v
    using that by (auto simp: pending_queue_def qs_def nth_append ObservableMap_new_def)
  have "queued (t\<lparr> cache_readers := qs' \<rparr>) v = queued t v" for v
    using len new [of v] old [of v] by (auto simp: queued_def fun_eq_iff)
  then show thesis using that [OF run] len by (simp add: same_core_def)
qed

lemma write_pending_spec:
  assumes "0 \<le> copilot_worker env sub"
  obtains t' where "write_pending env sub l n t = Inr t'" and "same_core t t'" and "effects t' = effects t"
    and "\<And>w sub'. queued t' w sub' =
      (if w = nat (copilot_worker env sub) \<and> sub' = sub then Some \<lparr> ps_logid = l, ps_seqno = n \<rparr> else queued t w sub')"
    and "t' = t\<lparr> cache_readers := cache_readers t' \<rparr>"
proof (rule GetPendingReaderQueue_ok [OF assms, of t])
  let ?w = "nat (copilot_worker env sub)"
  fix t1 assume t1: "GetPendingReaderQueue env sub t = Inr (?w, t1)" "same_core t t1" "effects t1 = effects t" "?w < length (cache_readers t1)"
    "\<And>v. queued t1 v = queued t v" "t1 = t\<lparr> cache_readers := cache_readers t1 \<rparr>"
  let ?t' = "set_pending_queue ?w (ObservableMap_Write sub \<lparr> ps_logid = l, ps_seqno = n \<rparr> (pending_queue t1 ?w)) t1"
  have "write_pending env sub l n t = Inr ?t'" by (simp add: write_pending_def t1(1))
  moreover have "same_core t1 ?t'" by (simp add: same_core_def set_pending_queue_def)
  then have "same_core t ?t'" by (rule same_core_trans [OF t1(2)])
  moreover have "queued ?t' w sub' = (if w = ?w \<and> sub' = sub then Some \<lparr> ps_logid = l, ps_seqno = n \<rparr> else queued t w sub')" for w sub'
    using t1(4) t1(5) [of w, symmetric]
    by (cases "w = ?w") (auto simp: queued_def set_pending_queue_def pending_queue_def Write_find)
  moreover have "?t' = t\<lparr> cache_readers := cache_readers ?t' \<rparr>" by (subst t1(6)) (simp add: set_pending_queue_def)
  moreover have "effects ?t' = effects t" using t1(3) by (simp add: set_pending_queue_def)
  ultimately show thesis using that by blast
qed

text \<open>
  A pending subscription is served from the cache and then either handed to a reader from where the cache ended, or
  queued again with that position.
\<close>

definition resumes :: "tower_env \<Rightarrow> TopicTailer \<Rightarrow> TopicTailer \<Rightarrow> topic_uuid \<Rightarrow> CopilotSub \<Rightarrow> LogID \<Rightarrow> SequenceNumber \<Rightarrow> bool" where
  "resumes env t t' u sub l n \<longleftrightarrow>
     (\<forall>l' u' sid. sub_seqno t' l' u' sid = (if l' = l \<and> u' = u \<and> sid = sub then Some n else sub_seqno t l' u' sid))
   \<or> sub_seqno t' = sub_seqno t \<and> queued t' (nat (copilot_worker env sub)) sub = Some \<lparr> ps_logid = l, ps_seqno = n \<rparr>"

lemma ProcessPendingSubscription_spec:
  assumes inv: "tower_inv c env t" and u: "valid_uuid u" and n: "n \<noteq> 0" and w: "0 \<le> copilot_worker env sub"
  shows "\<exists>t' next es. ProcessPendingSubscription env u sub l n t = Some (Inr t') \<and> tower_inv c env t' \<and> effects t' = effects t @ es
    \<and> n \<le> next \<and> (\<forall>k. n \<le> k \<and> k < next \<and> c l k = Some u \<longrightarrow> delivered_to es u k sub) \<and> resumes env t t' u sub l next"
proof -
  obtain finished "next" dc es f where d: "DeliverFromCache env u sub l n t
      = Some (Inr (finished, next, t\<lparr> data_cache := dc, effects := effects t @ es, flow_failed := f \<rparr>))"
    "cache_ok c (te_platform env) dc" "n \<le> next" "\<forall>k. n \<le> k \<and> k < next \<and> c l k = Some u \<longrightarrow> delivered_to es u k sub"
    using DeliverFromCache_ok [OF tower_inv_good(4) [OF inv] u n, of sub l] by blast
  define t1 where "t1 = t\<lparr> data_cache := dc, effects := effects t @ es, flow_failed := f \<rparr>"
  have "same_core (t\<lparr> data_cache := dc \<rparr>) t1" by (simp add: same_core_def t1_def)
  moreover have "tower_inv c env (t\<lparr> data_cache := dc \<rparr>)" using set_cache_ok [OF inv d(2)] by (simp add: merge_ok_def)
  ultimately have inv1: "tower_inv c env t1" by (rule same_core_inv(1))
  have sub1: "sub_seqno t1 = sub_seqno t" by (rule sub_seqno_cong) (simp add: t1_def)
  have next0: "next \<noteq> 0" using n d(3) by auto
  show ?thesis
  proof (cases finished)
    case True
    note add = add_subscription_spec [OF inv1 u next0, of sub l]
    obtain es' where es': "effects (add_subscription u sub l next t1) = effects t1 @ es'" using add(3) by blast
    have "ProcessPendingSubscription env u sub l n t = Some (Inr (add_subscription u sub l next t1))"
      using n d(1) True by (simp add: ProcessPendingSubscription_def add_subscription_def t1_def [symmetric] Let_def split_beta)
    moreover have "resumes env t (add_subscription u sub l next t1) u sub l next" using add(2) sub1 by (simp add: resumes_def)
    moreover have "effects (add_subscription u sub l next t1) = effects t @ (es @ es')" by (simp add: es') (simp add: t1_def)
    ultimately show ?thesis using add(1) d(3,4) by (auto simp: delivered_to_append)
  next
    case False
    show ?thesis
    proof (rule write_pending_spec [OF w, of l "next" t1])
      fix t' assume t': "write_pending env sub l next t1 = Inr t'" "same_core t1 t'" "effects t' = effects t1"
        "\<And>w sub'. queued t' w sub' =
           (if w = nat (copilot_worker env sub) \<and> sub' = sub then Some \<lparr> ps_logid = l, ps_seqno = next \<rparr> else queued t1 w sub')"
      have "ProcessPendingSubscription env u sub l n t = Some (Inr t')"
        using n d(1) False t'(1) by (simp add: ProcessPendingSubscription_def t1_def [symmetric])
      moreover have "resumes env t t' u sub l next" using same_core_inv(2) [OF t'(2)] t'(4) sub1 by (simp add: resumes_def)
      moreover have "effects t' = effects t @ es" by (simp add: t'(3) t1_def)
      ultimately show ?thesis using same_core_inv(1) [OF t'(2) inv1] d(3,4) by blast
    qed
  qed
qed

section \<open>Removing a subscription\<close>

lemma stop_readers_map: "fst (snd (stop_readers u l rs)) = map (\<lambda>r. fst (LogReader_StopReading r u l)) rs"
  by (induction rs) (simp_all add: split_beta Let_def)

lemma stop_topic_simps:
  "log_readers (stop_topic u l t) = map (\<lambda>r. fst (LogReader_StopReading r u l)) (log_readers t)"
  "pending_reader (stop_topic u l t) = fst (LogReader_StopReading (pending_reader t) u l)"
  "topic_map (stop_topic u l t) = topic_map t" "data_cache (stop_topic u l t) = data_cache t"
  "\<exists>es. effects (stop_topic u l t) = effects t @ es"
  by (simp_all add: stop_topic_def split_beta Let_def stop_readers_map)

text \<open>A reader that drops topic \<open>u\<close> keeps the others.\<close>

lemma stop_reader:
  assumes "reader_ok c r"
  shows "reader_ok c (fst (LogReader_StopReading r u l))" and "is_virtual (fst (LogReader_StopReading r u l)) = is_virtual r"
    and "next_of (fst (LogReader_StopReading r u l)) = (next_of r)(l := (next_of r l)(u := None))"
proof -
  have wf: "reader_wf r" "caught_up c r" using assms by (simp_all add: reader_ok_def)
  note spec = StopReading_spec [OF wf(1) surjective_pairing, of u l]
  show "is_virtual (fst (LogReader_StopReading r u l)) = is_virtual r"
    "next_of (fst (LogReader_StopReading r u l)) = (next_of r)(l := (next_of r l)(u := None))" by (rule spec)+
  show "reader_ok c (fst (LogReader_StopReading r u l))"
    using assms spec(1,2) caught_up_StopReading [OF wf surjective_pairing, of u l] by (auto simp: reader_ok_def split: if_splits)
qed

text \<open>Subscriptions go, and with the last one of a topic its place in the readers.\<close>

lemma tower_inv_removed:
  assumes inv: "tower_inv c env t" and mg: "managers_ok t'" and dc: "data_cache t' = data_cache t"
    and sub: "\<And>l' u' sid. sub_seqno t' l' u' sid = (if l' = l \<and> u' = u \<and> sid = sub then None else sub_seqno t l' u' sid)"
    and readers: "log_readers t' = map f (log_readers t)" "pending_reader t' = f (pending_reader t)"
    and f: "f = (\<lambda>r. fst (LogReader_StopReading r u l)) \<and> (\<forall>sid. sub_seqno t' l u sid = None)
      \<or> f = (\<lambda>r. r) \<and> (\<exists>sid. sub_seqno t' l u sid \<noteq> None)"
  shows "tower_inv c env t'"
proof -
  note inv' = tower_invD [OF inv]
  have ok: "reader_ok c (f r) \<and> is_virtual (f r) = is_virtual r" if "reader_ok c r" for r using f that stop_reader by auto
  have all: "reader_ok c r" if "r \<in> insert (pending_reader t) (set (log_readers t))" for r using that inv'(1,2) by auto
  have nx: "next_of (f r) l' u' = (if l' = l \<and> u' = u \<and> (\<forall>sid. sub_seqno t' l u sid = None) then None else next_of r l' u')"
    if "reader_ok c r" for r l' u' using f stop_reader(3) [OF that, of u l] by auto
  show ?thesis
  proof (rule tower_invI)
    fix r l' u' assume r: "r \<in> insert (pending_reader t') (set (log_readers t'))" "next_of r l' u' \<noteq> None"
    then obtain x where x: "x \<in> insert (pending_reader t) (set (log_readers t))" "r = f x" by (auto simp: readers)
    then have nx': "next_of x l' u' \<noteq> None" "\<not> (l' = l \<and> u' = u \<and> (\<forall>sid. sub_seqno t' l u sid = None))"
      using nx [OF all [OF x(1)], of l' u'] r(2) by (auto split: if_splits)
    then show "\<exists>sid. sub_seqno t' l' u' sid \<noteq> None" using inv'(6) [OF x(1) nx'(1)] sub by (cases "l' = l \<and> u' = u") auto
  next
    show "covered t'"
      unfolding covered_def
    proof (intro allI impI)
      fix l' u' sid s assume s: "sub_seqno t' l' u' sid = Some s"
      then have "sub_seqno t l' u' sid = Some s" using sub by (simp split: if_splits)
      then obtain x p where x: "x \<in> insert (pending_reader t) (set (log_readers t))" "next_of x l' u' = Some p" "p \<le> s"
        using inv'(7) unfolding covered_def watched_def by blast
      have "next_of (f x) l' u' = Some p" using nx [OF all [OF x(1)], of l' u'] x(2) s by auto
      moreover have "f x \<in> insert (pending_reader t') (set (log_readers t'))" using x(1) by (auto simp: readers)
      ultimately show "watched t' l' u' s" using x(3) unfolding watched_def by blast
    qed
  qed (use inv' ok mg dc in \<open>auto simp: readers\<close>)
qed

lemma queue_core: "GetPendingReaderQueue env sub t = Inr (w, t1) \<Longrightarrow> same_core t (set_pending_queue w q t1)"
  by (auto simp: GetPendingReaderQueue_def same_core_def set_pending_queue_def Let_def split: if_splits)

lemma write_pending_core: "write_pending env sub l n t = Inr t' \<Longrightarrow> same_core t t'"
  using queue_core by (auto simp: write_pending_def andThen_Inr)

lemma RemoveSubscriberInternal_spec:
  assumes inv: "tower_inv c env t" and run: "RemoveSubscriberInternal env u sub l t = Inr t'"
  shows "tower_inv c env t'"
    and "sub_seqno t' l' u' sid = (if l' = l \<and> u' = u \<and> sid = sub then None else sub_seqno t l' u' sid)"
    and "\<exists>es. effects t' = effects t @ es"
proof -
  let ?tm = "topic_manager t l"
  let ?rm = "TopicManager_RemoveSubscriber ?tm u sub"
  define t1 where "t1 = t\<lparr> topic_map := umap_set (topic_map t) l (snd ?rm) \<rparr>"
  define t2 where "t2 = (if fst ?rm then stop_topic u l t1 else t1)"
  obtain w t3 q where q: "GetPendingReaderQueue env sub t2 = Inr (w, t3)" "t' = set_pending_queue w q t3"
    using run unfolding RemoveSubscriberInternal_def t2_def t1_def split_beta Let_def by (auto simp: andThen_Inr)
  have core: "same_core t2 t'" using queue_core [OF q(1)] by (simp add: q(2))
  note inv' = tower_invD [OF inv]
  have tm: "tm_inv ?tm" using inv'(4) by (simp add: managers_ok_def)
  note spec = RemoveSubscriber_spec [OF tm, of u sub]
  have map2: "topic_map t2 = topic_map t1" by (simp add: t2_def stop_topic_simps)
  have keep: "umap_find (snd ?rm) v \<noteq> None \<Longrightarrow> umap_find ?tm v \<noteq> None" for v
    by (auto simp: TopicManager_RemoveSubscriber_def Let_def split_beta split: option.splits if_splits)
  have "valid_uuid v" if "umap_find (snd ?rm) v \<noteq> None" for v
    using keep [OF that] inv'(4) unfolding managers_ok_def subscribed_def by blast
  then have "managers_ok t1" unfolding t1_def by (rule managers_ok_set [OF inv'(4) spec(3)])
  then have mg: "managers_ok t2" using managers_cong(1) [OF map2] by simp
  have sub: "sub_seqno t2 l' u' sid = (if l' = l \<and> u' = u \<and> sid = sub then None else sub_seqno t l' u' sid)" for l' u' sid
    using spec(2) managers_cong(3) [OF map2] by (simp add: t1_def sub_seqno_set) (simp add: sub_seqno_def)
  have last: "fst ?rm \<longleftrightarrow> (\<forall>sid. sub_seqno t2 l u sid = None)" using spec(1) sub by (auto simp: sub_seqno_def)
  define f where "f = (\<lambda>r. if fst ?rm then fst (LogReader_StopReading r u l) else r)"
  have "tower_inv c env t2"
  proof (rule tower_inv_removed [OF inv mg _ sub, of f])
    show "f = (\<lambda>r. fst (LogReader_StopReading r u l)) \<and> (\<forall>sid. sub_seqno t2 l u sid = None)
      \<or> f = (\<lambda>r. r) \<and> (\<exists>sid. sub_seqno t2 l u sid \<noteq> None)"
      using last by (cases "fst ?rm") (auto simp: f_def)
  qed (simp_all add: t2_def t1_def f_def stop_topic_simps)
  then show "tower_inv c env t'" by (rule same_core_inv(1) [OF core])
  show "sub_seqno t' l' u' sid = (if l' = l \<and> u' = u \<and> sid = sub then None else sub_seqno t l' u' sid)"
    using sub same_core_inv(2) [OF core] by simp
  have "\<exists>es. effects t2 = effects t @ es" using stop_topic_simps(5) [of u l t1] by (auto simp: t2_def t1_def)
  then show "\<exists>es. effects t' = effects t @ es" using core by (auto simp: same_core_def)
qed

text \<open>The subscriptions after a step are among those before.\<close>

definition removes :: "TopicTailer \<Rightarrow> TopicTailer \<Rightarrow> bool" where
  "removes t t' \<longleftrightarrow> (\<forall>l u sid. sub_seqno t' l u sid = sub_seqno t l u sid \<or> sub_seqno t' l u sid = None)"

lemma remove_stream_spec:
  "tower_inv c env t \<Longrightarrow> remove_stream env s subs t = Inr t' \<Longrightarrow> tower_inv c env t' \<and> removes t t'"
proof (induction env s subs t arbitrary: t' rule: remove_stream.induct)
  case (1 env s t)
  then show ?case by (simp add: removes_def)
next
  case (2 env s i u subs t)
  obtain st l where g: "GetLogID env u = (st, l)" by (cases "GetLogID env u")
  let ?sub = "\<lparr> cs_stream_id = s, cs_sub_id = i \<rparr>"
  obtain t1 where t1: "(if status_ok st then RemoveSubscriberInternal env u ?sub l t else Inr t) = Inr t1"
    "remove_stream env s subs t1 = Inr t'" using 2(3) by (auto simp: g andThen_Inr)
  have r1: "tower_inv c env t1 \<and> removes t t1"
  proof (cases "status_ok st")
    case True
    then show ?thesis
      using RemoveSubscriberInternal_spec [OF 2(2), of u ?sub l t1] t1(1) by (auto simp: removes_def)
  next
    case False
    then show ?thesis using t1(1) 2(2) by (simp add: removes_def)
  qed
  then have "tower_inv c env t' \<and> removes t1 t'" using "2.IH" [OF refl g [symmetric] _ t1(2)] by simp
  then show ?case using r1 unfolding removes_def by metis
qed

end
