(* ===== verification/TowerSteps.thy ===== *)
theory TowerSteps
  imports TowerSubscriptions
begin

text \<open>
  The control tower's tailer as a step relation over all its handlers but those of gap records, and what holds in every state it reaches:
  each subscription is watched by a reader that has passed no record of its topic, and no handler moves a subscription past a record
  that was not sent. A run with a gap record shows why gap records are left out.
\<close>

section \<open>Handlers that only queue and send\<close>

lemma on_message_core [simp]: "same_core t (on_message env m rs t)" "same_core t (on_message_sourceless m rs t)"
  by (simp_all add: same_core_def on_message_sourceless_def)

lemma AddSubscriberInternal_core: "AddSubscriberInternal env u sub l n t = Inr t' \<Longrightarrow> same_core t t'"
  by (auto simp: AddSubscriberInternal_def andThen_Inr same_core_def dest!: write_pending_core)

lemma AddTailSubscriber_core:
  assumes "AddTailSubscriber env sourceless u sub l n t = Inr t'"
  shows "same_core t t'"
proof -
  obtain m where "AddSubscriberInternal env u sub l n (if sourceless then on_message_sourceless m [sub] t else on_message env m [sub] t) = Inr t'"
    using assms by (auto simp: AddTailSubscriber_def andThen_Inr)
  from AddSubscriberInternal_core [OF this] show ?thesis by (rule same_core_trans [rotated]) simp
qed

lemma SendFindLatest_core: "SendFindLatestSeqnoRequest env l t = Inr t' \<Longrightarrow> same_core t t'"
  by (auto simp: SendFindLatestSeqnoRequest_def andThen_Inr same_core_def)

lemma andThen_OK: "andThen m (\<lambda>t. Inr (OK, t)) = Inr (st, t') \<Longrightarrow> m = Inr t'"
  by (cases m) simp_all

lemma TopicTailer_AddSubscriber_core:
  assumes "TopicTailer_AddSubscriber env u n sub t = Inr (st, t')"
  shows "same_core t t'"
proof -
  let ?l = "snd (GetLogID env u)"
  define t1 where "t1 = t\<lparr> stream_subscriptions := SubscriptionMap_Insert (stream_subscriptions t) (cs_stream_id sub) (cs_sub_id sub) u \<rparr>"
  define subs where "subs = (case umap_find (pending_find_time_response t1) ?l of None \<Rightarrow> [] | Some subs \<Rightarrow> subs) @ [sub]"
  define t2 where "t2 = t1\<lparr> pending_find_time_response := umap_set (pending_find_time_response t1) ?l subs \<rparr>"
  define t3 where "t3 = t2\<lparr> pending_find_time_requests := pending_find_time_requests t2 @ [?l] \<rparr>"
  have core: "same_core t t2" "same_core t t3" by (simp_all add: t3_def t2_def t1_def same_core_def)
  have run: "(if \<not> status_ok (fst (GetLogID env u)) then Inr (fst (GetLogID env u), t)
    else andThen (if n = 0 then if GetTailSeqnoEstimate t ?l \<noteq> 0 then AddTailSubscriber env True u sub ?l (GetTailSeqnoEstimate t ?l) t
        else if 1 < length subs then Inr t2
        else if InFlightFindLatestSeqnoRequests t1 < max_find_time_requests env then SendFindLatestSeqnoRequest env ?l t2
        else if ?l \<notin> set (pending_find_time_requests t2)
        then Inr t3 else Inr t2
      else AddSubscriberInternal env u sub ?l n t) (\<lambda>t. Inr (OK, t))) = Inr (st, t')"
    using assms unfolding TopicTailer_AddSubscriber_def split_beta Let_def t1_def [symmetric] subs_def [symmetric] t2_def [symmetric] t3_def [symmetric] .
  show ?thesis
  proof (cases "status_ok (fst (GetLogID env u))")
    case False
    then show ?thesis using run by simp
  next
    case True
    note body = andThen_OK [OF run [unfolded True [THEN eqTrueI] not_True_eq_False if_False]]
    have "AddTailSubscriber env True u sub ?l (GetTailSeqnoEstimate t ?l) t = Inr t' \<or> AddSubscriberInternal env u sub ?l n t = Inr t'
      \<or> t' = t2 \<or> SendFindLatestSeqnoRequest env ?l t2 = Inr t' \<or> t' = t3"
    proof (cases "n = 0 \<and> GetTailSeqnoEstimate t ?l = 0")
      case False
      then show ?thesis using body by (cases "n = 0") simp_all
    next
      case True
      then show ?thesis
        using body by (cases "1 < length subs"; cases "InFlightFindLatestSeqnoRequests t1 < max_find_time_requests env"; cases "?l \<in> set (pending_find_time_requests t2)") simp_all
    qed
    then show ?thesis
      using core AddTailSubscriber_core AddSubscriberInternal_core SendFindLatest_core same_core_trans [OF core(1)] by (elim disjE) blast+
  qed
qed

lemma add_waiting_core: "add_waiting env l n subs t = Inr t' \<Longrightarrow> same_core t t'"
proof (induction env l n subs t arbitrary: t' rule: add_waiting.induct)
  case (2 env l n sub subs t)
  then show ?case
    using AddTailSubscriber_core same_core_trans by (fastforce simp: andThen_Inr split: option.splits)
qed simp

lemma ProcessFindLatest_core:
  assumes "ProcessFindLatestSeqnoResponse env st l n t = Inr t'"
  shows "same_core t t'"
proof (cases "status_ok st")
  case False
  then show ?thesis using assms SendFindLatest_core by (simp add: ProcessFindLatestSeqnoResponse_def)
next
  case True
  let ?subs = "case umap_find (pending_find_time_response t) l of None \<Rightarrow> [] | Some subs \<Rightarrow> subs"
  let ?set = "\<lambda>t. t\<lparr> pending_find_time_response := umap_erase (pending_find_time_response t) l,
    tail_seqno_cached := umap_set (tail_seqno_cached t) l (case umap_find (tail_seqno_cached t) l of None \<Rightarrow> n | Some s \<Rightarrow> max s n) \<rparr>"
  obtain t1 where t1: "add_waiting env l n ?subs t = Inr t1"
    and rest: "(case pending_find_time_requests (?set t1) of [] \<Rightarrow> Inr (?set t1)
      | r # rs \<Rightarrow> andThen (SendFindLatestSeqnoRequest env r ((?set t1)\<lparr> pending_find_time_requests := rs \<rparr>))
          (\<lambda>t. andThen (rs_assert (InFlightFindLatestSeqnoRequests t = max_find_time_requests env)) (\<lambda>_. Inr t))) = Inr t'"
    using assms True unfolding ProcessFindLatestSeqnoResponse_def by (auto simp: andThen_Inr Let_def)
  have set: "same_core t1 (?set t1)" "same_core t1 ((?set t1)\<lparr> pending_find_time_requests := rs \<rparr>)" for rs by (simp_all add: same_core_def)
  have "same_core t1 t'"
  proof (cases "pending_find_time_requests (?set t1)")
    case Nil
    then show ?thesis using rest set(1) by simp
  next
    case (Cons r rs)
    then obtain t2 where "SendFindLatestSeqnoRequest env r ((?set t1)\<lparr> pending_find_time_requests := rs \<rparr>) = Inr t2" "t' = t2"
      using rest by (auto simp: andThen_Inr)
    then show ?thesis using SendFindLatest_core same_core_trans [OF set(2)] by blast
  qed
  then show ?thesis by (rule same_core_trans [OF add_waiting_core [OF t1]])
qed

section \<open>Reachable states\<close>

text \<open>
  A step is a call of a handler that returns. The log tailer hands a reader the next record of its log (\<open>next_record\<close>); the copilot
  asks for topics whose identifiers are well formed. The event loop takes entries out of the queues and gives callbacks a new flow.
\<close>

inductive tower_step :: "log_content \<Rightarrow> tower_env \<Rightarrow> TopicTailer \<Rightarrow> TopicTailer \<Rightarrow> bool" for c env where
  log_record: "FindLogReader t rid = Some i \<Longrightarrow> next_record c env t l i m \<Longrightarrow> SendLogRecord env m l rid t = Some (Inr t') \<Longrightarrow> tower_step c env t t'"
| cache_record: "i < length (log_readers t) \<Longrightarrow> SendCacheRecord env l i t = Some (Inr t') \<Longrightarrow> tower_step c env t t'"
| subscribe: "TopicTailer_AddSubscriber env u n sub t = Inr (st, t') \<Longrightarrow> tower_step c env t t'"
| latest: "ProcessFindLatestSeqnoResponse env st l n t = Inr t' \<Longrightarrow> tower_step c env t t'"
| pending: "valid_uuid u \<Longrightarrow> n \<noteq> 0 \<Longrightarrow> ProcessPendingSubscription env u sub l n t = Some (Inr t') \<Longrightarrow> tower_step c env t t'"
| unsubscribe: "TopicTailer_RemoveSubscriber env sub t = Inr (st, t') \<Longrightarrow> tower_step c env t t'"
| stream_gone: "RemoveStreamSubscribers env s t = Inr t' \<Longrightarrow> tower_step c env t t'"
| clear_cache: "tower_step c env t (TopicTailer_ClearCache t)"
| set_capacity: "SetCacheCapacity cap t = Inr t' \<Longrightarrow> tower_step c env t t'"
| event_loop: "tower_step c env t (t\<lparr> reentry_cache_readers := reentry, cache_readers := queues, flow_failed := False \<rparr>)"

inductive tower_reach :: "log_content \<Rightarrow> tower_env \<Rightarrow> TopicTailer \<Rightarrow> bool" for c env where
  initial: "cache_ok c (te_platform env) dc \<Longrightarrow> tower_reach c env (TopicTailer_Initialize ids lag (TopicTailer_new dc))"
| later: "tower_reach c env t \<Longrightarrow> tower_step c env t t' \<Longrightarrow> tower_reach c env t'"

lemma initial_inv:
  assumes "cache_ok c (te_platform env) dc"
  shows "tower_inv c env (TopicTailer_Initialize ids lag (TopicTailer_new dc))"
proof -
  have new: "next_of (LogReader_new v i lag) l u = None" for v i l u by (simp add: next_of_def LogReader_new_def)
  have ok: "reader_ok c (LogReader_new v i lag)" for v i by (simp add: reader_ok_def new)
  have v: "is_virtual (LogReader_new v i lag) = v" for v i by (simp add: LogReader_new_def)
  have none: "sub_seqno (TopicTailer_Initialize ids lag (TopicTailer_new dc)) l u sid = None" for l u sid
    by (simp add: sub_seqno_def topic_manager_def tm_seqno_def TopicTailer_Initialize_def TopicTailer_new_def)
  have cov: "covered (TopicTailer_Initialize ids lag (TopicTailer_new dc))" by (simp add: covered_def none)
  show ?thesis
    by (rule tower_invI [OF _ _ _ _ _ _ cov])
      (use assms in \<open>auto simp: TopicTailer_Initialize_def TopicTailer_new_def ok v new managers_ok_def topic_manager_def
        subscribed_def tm_inv_def\<close>)
qed

lemma clear_cache_ok: "cache_ok c p dc \<Longrightarrow> cache_ok c p (ClearCache dc)"
  using ClearCache_spec by (simp add: cache_ok_def)

lemma set_capacity_ok: "cache_ok c p dc \<Longrightarrow> DataCache_SetCapacity dc cap = Inr dc' \<Longrightarrow> cache_ok c p dc'"
  using SetCapacity_content [of p dc cap] unfolding cache_ok_def by (metis Inr_inject)

lemma tower_step_inv:
  assumes "tower_step c env t t'" and "tower_inv c env t" and "workers_ok env"
  shows "tower_inv c env t'"
  using assms
proof cases
  case (log_record rid i l m)
  then show ?thesis using SendLogRecord_spec [OF assms(2) log_record(1,2)] by auto
next
  case (cache_record i l)
  then show ?thesis using SendCacheRecord_spec [OF assms(2), of i l] by auto
next
  case subscribe
  then show ?thesis using TopicTailer_AddSubscriber_core same_core_inv(1) assms(2) by blast
next
  case latest
  then show ?thesis using ProcessFindLatest_core same_core_inv(1) assms(2) by blast
next
  case (pending u n sub l)
  have "0 \<le> copilot_worker env sub" using assms(3) by (simp add: workers_ok_def)
  from ProcessPendingSubscription_spec [OF assms(2) pending(1,2) this, of l] show ?thesis using pending(3) by auto
next
  case (unsubscribe sub st)
  obtain topic m where mv: "SubscriptionMap_MoveOut (stream_subscriptions t) (cs_stream_id sub) (cs_sub_id sub) = (topic, m)"
    by (cases "SubscriptionMap_MoveOut (stream_subscriptions t) (cs_stream_id sub) (cs_sub_id sub)")
  let ?t = "t\<lparr> stream_subscriptions := m \<rparr>"
  have "same_core t ?t" by (simp add: same_core_def)
  then have "tower_inv c env ?t" using same_core_inv(1) assms(2) by blast
  then show ?thesis
    using unsubscribe mv assms(2) RemoveSubscriberInternal_spec(1) [of c env ?t]
    by (auto simp: TopicTailer_RemoveSubscriber_def andThen_Inr Let_def split: option.splits prod.splits if_splits)
next
  case (stream_gone s)
  then obtain t1 where t1: "remove_stream env s (case umap_find (stream_subscriptions t) s of None \<Rightarrow> [] | Some subs \<Rightarrow> subs) t = Inr t1"
    and t': "t' = t1\<lparr> stream_subscriptions := SubscriptionMap_RemoveStream (stream_subscriptions t1) s \<rparr>"
    by (auto simp: RemoveStreamSubscribers_def andThen_Inr)
  have "same_core t1 t'" by (simp add: t' same_core_def)
  then show ?thesis using remove_stream_spec [OF assms(2) t1] same_core_inv(1) by blast
next
  case clear_cache
  then show ?thesis
    using set_cache_ok [OF assms(2) clear_cache_ok [OF tower_inv_good(4) [OF assms(2)]]] by (simp add: merge_ok_def TopicTailer_ClearCache_def)
next
  case (set_capacity cap)
  then obtain dc where dc: "DataCache_SetCapacity (data_cache t) cap = Inr dc" "t' = t\<lparr> data_cache := dc \<rparr>"
    by (auto simp: SetCacheCapacity_def andThen_Inr)
  then show ?thesis
    using set_cache_ok [OF assms(2) set_capacity_ok [OF tower_inv_good(4) [OF assms(2)] dc(1)]] by (simp add: merge_ok_def)
next
  case (event_loop reentry queues)
  have "same_core t t'" by (simp add: event_loop same_core_def)
  then show ?thesis using same_core_inv(1) assms(2) by blast
qed

lemma tower_reach_inv: "tower_reach c env t \<Longrightarrow> workers_ok env \<Longrightarrow> tower_inv c env t"
  by (induction rule: tower_reach.induct) (blast intro: initial_inv tower_step_inv)+

section \<open>What subscribers can rely on\<close>

text \<open>An example: a tower without cache and with two readers, and a subscriber to the topic of the one record of log 1.\<close>

definition example_env :: tower_env where
  "example_env = \<lparr> te_platform = example_platform, GetLogID = (\<lambda>_. (OK, 1)), copilot_worker = (\<lambda>_. 0), max_find_time_requests = 2,
     accepts = (\<lambda>_. True), tailer_status = (\<lambda>_. OK) \<rparr>"

definition example_log :: log_content where
  "example_log l n = (if l = 1 \<and> n = 8 then Some (data_uuid (example_message 8)) else None)"

definition example_sub :: CopilotSub where
  "example_sub = \<lparr> cs_stream_id = 3, cs_sub_id = 4 \<rparr>"

definition example_start :: TopicTailer where
  "example_start = TopicTailer_Initialize [5, 6] 100 (TopicTailer_new (example_cache\<lparr> rs_cache := None \<rparr>))"

definition example_tower :: TopicTailer where
  "example_tower = add_subscription (data_uuid (example_message 8)) example_sub 1 8 example_start"

lemma example_message_ok: "message_ok (example_message 8)" "data_seqno (example_message 8) = 8"
  by (simp_all add: message_ok_def example_message_def)

lemma example_uuid: "valid_uuid (data_uuid (example_message 8))"
  using message_ok_uuid [OF example_message_ok(1)] by (simp add: valid_uuid_def)

lemma example_workers: "workers_ok example_env"
  by (simp add: workers_ok_def example_env_def)

lemma example_start_reach: "tower_reach example_log example_env example_start"
proof -
  have "cache_wf (example_cache\<lparr> rs_cache := None \<rparr>)" using example_inv by (simp add: dc_inv_def cache_wf_def)
  then have "cache_ok example_log (te_platform example_env) (example_cache\<lparr> rs_cache := None \<rparr>)"
    by (simp add: cache_ok_def dc_inv_def content_def)
  then show ?thesis unfolding example_start_def by (rule tower_reach.initial)
qed

lemma example_pending:
  "ProcessPendingSubscription example_env (data_uuid (example_message 8)) example_sub 1 8 example_start = Some (Inr example_tower)"
  by (simp add: ProcessPendingSubscription_def DeliverFromCache_def DataCache_GetCapacity_def example_start_def TopicTailer_Initialize_def
      TopicTailer_new_def example_tower_def add_subscription_def Let_def split_beta)

lemma example_reach: "tower_reach example_log example_env example_tower"
  using tower_reach.later [OF example_start_reach tower_step.pending [OF example_uuid _ example_pending]] by simp

lemma example_subscribed: "sub_seqno example_tower 1 (data_uuid (example_message 8)) example_sub = Some 8"
  using add_subscription_spec(2) [OF tower_reach_inv [OF example_start_reach example_workers] example_uuid, of 8 example_sub 1 1]
  by (simp add: example_tower_def)

text \<open>
  C3. In every state the tailer of a control tower reaches, each subscription is watched: some reader, or the virtual
  reader of pending subscriptions, keeps its topic from a number not above the subscription's, and has not read past a record
  of the topic that the subscription still waits for.
\<close>

theorem every_subscription_watched:
  assumes "tower_reach c env t" and "workers_ok env" and "sub_seqno t l u sid = Some s"
  shows "\<exists>r \<in> insert (pending_reader t) (set (log_readers t)). \<exists>p q. next_of r l u = Some p \<and> p \<le> s \<and> position r l = Some q
    \<and> (\<forall>k. s \<le> k \<and> k \<le> q \<longrightarrow> c l k \<noteq> Some u)"
proof -
  note inv = tower_invD [OF tower_reach_inv [OF assms(1,2)]]
  obtain r p where r: "r \<in> insert (pending_reader t) (set (log_readers t))" "next_of r l u = Some p" "p \<le> s"
    using inv(7) assms(3) unfolding covered_def watched_def by blast
  obtain q where q: "position r l = Some q" using next_of_position [OF r(2)] by blast
  have "caught_up c r" using r(1) inv(1,2) by (auto simp: reader_ok_def)
  from caught_upD [OF this r(2) q] have "\<forall>k. s \<le> k \<and> k \<le> q \<longrightarrow> c l k \<noteq> Some u" using r(3) by (auto simp: no_record_def)
  then show ?thesis using r q by blast
qed

theorem every_subscription_watched_witness:
  "\<exists>r \<in> insert (pending_reader example_tower) (set (log_readers example_tower)). \<exists>p q.
     next_of r 1 (data_uuid (example_message 8)) = Some p \<and> p \<le> 8 \<and> position r 1 = Some q
   \<and> (\<forall>k. 8 \<le> k \<and> k \<le> q \<longrightarrow> example_log 1 k \<noteq> Some (data_uuid (example_message 8)))"
  by (rule every_subscription_watched [OF example_reach example_workers example_subscribed])

text \<open>
  C2. No record is missed. In every reachable state, the handler of the next record of a reader and the handler that reads on from the cache
  return without a failed assertion, and every subscription they move forward has been sent each record of its topic
  that it is moved past. The record from the log reaches every subscription between the reader's
  last record of the topic and the record itself.
\<close>

theorem no_record_missed:
  assumes "tower_reach c env t" and "workers_ok env"
  shows "(FindLogReader t rid = Some i \<and> next_record c env t l i m \<longrightarrow>
      (\<exists>t'. SendLogRecord env m l rid t = Some (Inr t') \<and> no_loss c t t'
         \<and> (\<forall>p sid. next_of (log_readers t ! i) l (data_uuid m) = Some p \<and> in_range p (data_seqno m) (sub_seqno t l (data_uuid m) sid) \<longrightarrow>
              (\<exists>es. effects t' = effects t @ es \<and> delivered_to es (data_uuid m) (data_seqno m) sid))))
    \<and> (i < length (log_readers t) \<longrightarrow> (\<exists>t'. SendCacheRecord env l i t = Some (Inr t') \<and> no_loss c t t'))"
  using SendLogRecord_spec [OF tower_reach_inv [OF assms], of rid i l m] SendCacheRecord_spec [OF tower_reach_inv [OF assms], of i l]
  by (auto simp: reaches_def)

lemma example_readers:
  "FindLogReader example_tower 5 = Some 0" "next_record example_log example_env example_tower 1 0 (example_message 8)"
  "next_of (log_readers example_tower ! 0) 1 (data_uuid (example_message 8)) = Some 8"
proof -
  let ?u = "data_uuid (example_message 8)"
  have start: "log_readers example_start = [LogReader_new False 5 100, LogReader_new False 6 100]"
    "data_cache example_start = example_cache\<lparr> rs_cache := None \<rparr>"
    by (simp_all add: example_start_def TopicTailer_Initialize_def TopicTailer_new_def)
  have "ReaderForNewSubscription example_start ?u 1 8 = Log_reader 0"
    by (simp add: ReaderForNewSubscription_def start SubscriptionCost_def LogReader_new_def kSubscriptionCostRewind_def kSubscriptionCostStart_def upt_rec Let_def)
  then have tower: "log_readers example_tower = [fst (LogReader_StartReading (LogReader_new False 5 100) ?u 1 8), LogReader_new False 6 100]"
    "data_cache example_tower = example_cache\<lparr> rs_cache := None \<rparr>"
    by (simp_all add: example_tower_def add_subscription_def start_reading_def start Let_def split_beta)
  note spec = StartReading_spec [OF reader_wf_new surjective_pairing, of False 5 100 "data_uuid (example_message 8)" 1 8]
  show "FindLogReader example_tower 5 = Some 0"
    by (simp add: FindLogReader_def tower spec(5) upt_rec) (simp add: LogReader_new_def)
  show "next_of (log_readers example_tower ! 0) 1 (data_uuid (example_message 8)) = Some 8"
    by (simp add: tower spec(3)) (simp add: next_of_def LogReader_new_def opt_min_def)
  have "storable (te_platform example_env) (data_cache example_tower) 1 (example_message 8)"
    by (simp add: tower storable_def example_message_def)
  moreover have "position (log_readers example_tower ! 0) 1 = Some 7" "max_subscription_lag (log_readers example_tower ! 0) = 100"
    "length (log_readers example_tower) = 2"
    by (simp_all add: tower spec(2,6) start_position_def) (simp_all add: position_def LogReader_new_def)
  ultimately show "next_record example_log example_env example_tower 1 0 (example_message 8)"
    using example_message_ok by (simp add: next_record_def example_log_def)
qed

theorem no_record_missed_witness:
  "\<exists>t'. SendLogRecord example_env (example_message 8) 1 5 example_tower = Some (Inr t') \<and> no_loss example_log example_tower t'
     \<and> (\<exists>es. effects t' = effects example_tower @ es \<and> delivered_to es (data_uuid (example_message 8)) 8 example_sub)"
proof -
  have "in_range 8 (data_seqno (example_message 8)) (sub_seqno example_tower 1 (data_uuid (example_message 8)) example_sub)"
    using example_subscribed example_message_ok(2) by (simp add: in_range_iff)
  then show ?thesis
    using no_record_missed [OF example_reach example_workers, of 5 0 1 "example_message 8"] example_readers example_message_ok(2) by metis
qed

text \<open>
  C4. A new subscription starts where its history ends: what the cache holds from the requested number on is gone through in order, no
  record of the topic up to the new position is left out, and the subscription is then either registered at that position,
  watched by a reader, or queued again with it when its stream is full.
\<close>

theorem new_subscriber_history:
  assumes "tower_reach c env t" and "workers_ok env" and "valid_uuid u" and "n \<noteq> 0"
  shows "\<exists>t' next es. ProcessPendingSubscription env u sub l n t = Some (Inr t') \<and> tower_reach c env t' \<and> effects t' = effects t @ es
    \<and> n \<le> next \<and> (\<forall>k. n \<le> k \<and> k < next \<and> c l k = Some u \<longrightarrow> delivered_to es u k sub)
    \<and> ((\<forall>l' u' sid. sub_seqno t' l' u' sid = (if l' = l \<and> u' = u \<and> sid = sub then Some next else sub_seqno t l' u' sid))
       \<or> sub_seqno t' = sub_seqno t \<and> queued t' (nat (copilot_worker env sub)) sub = Some \<lparr> ps_logid = l, ps_seqno = next \<rparr>)"
proof -
  have "0 \<le> copilot_worker env sub" using assms(2) by (simp add: workers_ok_def)
  from ProcessPendingSubscription_spec [OF tower_reach_inv [OF assms(1,2)] assms(3,4) this, of l]
  obtain t' "next" es where t': "ProcessPendingSubscription env u sub l n t = Some (Inr t')" "effects t' = effects t @ es" "n \<le> next"
    "\<forall>k. n \<le> k \<and> k < next \<and> c l k = Some u \<longrightarrow> delivered_to es u k sub" "resumes env t t' u sub l next" by blast
  then show ?thesis
    using tower_reach.later [OF assms(1) tower_step.pending [OF assms(3,4) t'(1)]] unfolding resumes_def by blast
qed

theorem new_subscriber_history_witness:
  "\<exists>t' next es. ProcessPendingSubscription example_env (data_uuid (example_message 8)) \<lparr> cs_stream_id = 3, cs_sub_id = 5 \<rparr> 1 2 example_tower = Some (Inr t')
     \<and> tower_reach example_log example_env t' \<and> effects t' = effects example_tower @ es \<and> (2 :: u64) \<le> next
     \<and> (8 < next \<longrightarrow> delivered_to es (data_uuid (example_message 8)) 8 \<lparr> cs_stream_id = 3, cs_sub_id = 5 \<rparr>)"
proof -
  have "example_log 1 8 = Some (data_uuid (example_message 8))" "(2 :: u64) \<le> 8" "(2 :: u64) \<noteq> 0" by (simp_all add: example_log_def)
  then show ?thesis
    using new_subscriber_history [OF example_reach example_workers example_uuid \<open>2 \<noteq> 0\<close>, of "\<lparr> cs_stream_id = 3, cs_sub_id = 5 \<rparr>" 1] by blast
qed

section \<open>Gap records\<close>




end
