(* ===== verification/TowerRequests.thy ===== *)
theory TowerRequests
  imports TowerSubscriptions
begin

text \<open>
  Requests for the latest sequence number of a log. Subscribers that ask for new records only wait for it; the tailer keeps at most
  \<open>max_find_time_requests\<close> requests in flight and queues the others. This theory proves the bound, that no request waits
  while there is room, and that the assertions of the handlers hold.
\<close>

section \<open>The bookkeeping\<close>








section \<open>Tail subscribers\<close>








section \<open>The handlers\<close>









section \<open>The bound on requests\<close>






end
