(* ===== verification/LogTailer.thy ===== *)
theory LogTailer
  imports LogReader Messages "HOL-Library.Product_Lexorder"
begin

text \<open>
  \<open>src/controltower/log_tailer.cc\<close>: the log tailer of a control tower. It opens logs of the storage for the readers of the tower,
  turns the records and gaps the storage delivers into calls on the room, and restarts readers from time to time. The storage is a
  parameter: what it answers to an \<open>Open\<close> or a \<open>Close\<close>, after the calls made so far. So are the clock and the random generator.
\<close>

section \<open>State\<close>

text \<open>What the tailer does to the storage, and the callbacks it makes on the room.\<close>

datatype lt_output =
    Opened u64 LogID SequenceNumber
  | Open_failed u64 LogID SequenceNumber
  | Closed u64 LogID
  | Find_time LogID
  | Record_out u64 LogID MessageData
  | Gap_out u64 LogID GapType SequenceNumber SequenceNumber

text \<open>\<open>RestartEvent\<close> with its order, lexicographic in time, reader and log; the handle of an event is the event.\<close>

type_synonym RestartEvent = "int \<times> u64 \<times> LogID"

record ReaderLogState =
  lt_next_seqno :: SequenceNumber
  restart_event_handle :: RestartEvent

record TailerReader =
  lt_log_state :: "(LogID, ReaderLogState) umap"

text \<open>The commands that storage threads forward to the thread of the tailer.\<close>

datatype lt_command =
    Record_command MessageData LogID u64
  | Gap_command GapType LogID SequenceNumber SequenceNumber u64

record LogTailer =
  lt_storage :: bool
  lt_readers :: "TailerReader list"
  restart_events :: "RestartEvent list"
  storage_to_room :: "lt_command list"
  lt_outputs :: "lt_output list"

record storage_env =
  create_status :: "u64 \<Rightarrow> Status"
  open_status :: "lt_output list \<Rightarrow> u64 \<Rightarrow> LogID \<Rightarrow> SequenceNumber \<Rightarrow> Status"
  close_status :: "lt_output list \<Rightarrow> u64 \<Rightarrow> LogID \<Rightarrow> Status"
  find_time_status :: "lt_output list \<Rightarrow> LogID \<Rightarrow> Status"
  restart_time :: "lt_output list \<Rightarrow> int"

definition LogTailer_new :: LogTailer where
  "LogTailer_new = \<lparr> lt_storage = True, lt_readers = [], restart_events = [], storage_to_room = [], lt_outputs = [] \<rparr>"

definition add_output :: "lt_output \<Rightarrow> LogTailer \<Rightarrow> LogTailer" where
  "add_output x t = t\<lparr> lt_outputs := lt_outputs t @ [x] \<rparr>"

text \<open>The loop of \<open>Initialize\<close>: it leaves the readers made before the storage refuses one.\<close>

function init_readers :: "storage_env \<Rightarrow> nat \<Rightarrow> LogTailer \<Rightarrow> failure + Status \<times> LogTailer" where
  "init_readers env num_readers t =
     (if length (lt_readers t) < num_readers
      then andThen (rs_assert (lt_storage t)) (\<lambda>_.
             let st = create_status env (of_nat (length (lt_readers t)))
             in if \<not> status_ok st then Inr (st, t)
                else init_readers env num_readers (t\<lparr> lt_readers := lt_readers t @ [\<lparr> lt_log_state = [] \<rparr>] \<rparr>))
      else andThen (rs_assert (length (lt_readers t) = num_readers)) (\<lambda>_. Inr (OK, t)))"
  by pat_completeness auto
termination by (relation "measure (\<lambda>(env, n, t). n - length (lt_readers t))") auto

declare init_readers.simps [simp del]

definition LogTailer_Initialize :: "storage_env \<Rightarrow> bool \<Rightarrow> bool \<Rightarrow> nat \<Rightarrow> LogTailer \<Rightarrow> failure + Status \<times> LogTailer" where
  "LogTailer_Initialize env on_record on_gap num_readers t =
     (if lt_readers t \<noteq> [] then Inr (OK, t)
      else if \<not> on_record then Inr (InvalidArgument ''on_record must not be null'', t)
      else if \<not> on_gap then Inr (InvalidArgument ''on_gap must not be null'', t)
      else init_readers env num_readers t)"

definition LogTailer_Stop :: "LogTailer \<Rightarrow> LogTailer" where
  "LogTailer_Stop t = t\<lparr> lt_storage := False, lt_readers := [] \<rparr>"

section \<open>Restart events\<close>

definition AddEvent :: "RestartEvent \<Rightarrow> RestartEvent list \<Rightarrow> failure + RestartEvent list" where
  "AddEvent ev evs = (if ev \<in> set evs then Inl Assert_failed else Inr (insort ev evs))"

definition RemoveEvent :: "RestartEvent \<Rightarrow> RestartEvent list \<Rightarrow> RestartEvent list" where
  "RemoveEvent handle evs = remove1 handle evs"

section \<open>Opening and closing logs\<close>

definition find_state :: "LogTailer \<Rightarrow> u64 \<Rightarrow> LogID \<Rightarrow> ReaderLogState option" where
  "find_state t rid log_id = umap_find (lt_log_state (lt_readers t ! unat rid)) log_id"

definition set_state :: "u64 \<Rightarrow> LogID \<Rightarrow> ReaderLogState option \<Rightarrow> LogTailer \<Rightarrow> LogTailer" where
  "set_state rid log_id ls t =
     (let m = lt_log_state (lt_readers t ! unat rid);
          m = (case ls of None \<Rightarrow> umap_erase m log_id | Some ls \<Rightarrow> umap_set m log_id ls)
      in t\<lparr> lt_readers := (lt_readers t)[unat rid := \<lparr> lt_log_state = m \<rparr>] \<rparr>)"

definition LogTailer_StartReading :: "storage_env \<Rightarrow> LogID \<Rightarrow> SequenceNumber \<Rightarrow> u64 \<Rightarrow> LogTailer \<Rightarrow> failure + Status \<times> LogTailer" where
  "LogTailer_StartReading env logid start rid t =
     (if lt_readers t = [] then Inr (NotInitialized, t)
      else andThen (rs_assert (unat rid < length (lt_readers t))) (\<lambda>_.
        let st = open_status env (lt_outputs t) rid logid start
        in if \<not> status_ok st then Inr (st, add_output (Open_failed rid logid start) t)
           else let t = add_output (Opened rid logid start) t;
                    t = (case find_state t rid logid of
                           None \<Rightarrow> t
                         | Some ls \<Rightarrow> t\<lparr> restart_events := RemoveEvent (restart_event_handle ls) (restart_events t) \<rparr>);
                    ev = (restart_time env (lt_outputs t), rid, logid)
                in andThen (AddEvent ev (restart_events t)) (\<lambda>evs.
                     Inr (st, set_state rid logid (Some \<lparr> lt_next_seqno = start, restart_event_handle = ev \<rparr>) (t\<lparr> restart_events := evs \<rparr>)))))"

text \<open>A reader out of range is undefined behaviour here, where the code has no assertion.\<close>

definition LogTailer_StopReading :: "storage_env \<Rightarrow> LogID \<Rightarrow> u64 \<Rightarrow> LogTailer \<Rightarrow> failure + Status \<times> LogTailer" where
  "LogTailer_StopReading env logid rid t =
     (if lt_readers t = [] then Inr (NotInitialized, t)
      else andThen (rs_assert (unat rid < length (lt_readers t))) (\<lambda>_.
        case find_state t rid logid of
          None \<Rightarrow> Inr (OK, t)
        | Some ls \<Rightarrow>
            let t = set_state rid logid None (t\<lparr> restart_events := RemoveEvent (restart_event_handle ls) (restart_events t) \<rparr>)
            in Inr (close_status env (lt_outputs t) rid logid, add_output (Closed rid logid) t)))"

definition FindLatestSeqno :: "storage_env \<Rightarrow> LogID \<Rightarrow> LogTailer \<Rightarrow> failure + Status \<times> LogTailer" where
  "FindLatestSeqno env logid t =
     andThen (rs_assert (lt_storage t)) (\<lambda>_. Inr (find_time_status env (lt_outputs t) logid, add_output (Find_time logid) t))"

definition NumberOpenLogs :: "LogTailer \<Rightarrow> int" where
  "NumberOpenLogs t = sum_list (map (\<lambda>r. int (length (lt_log_state r))) (lt_readers t))"

section \<open>Records and gaps\<close>

definition RecordCallback :: "MessageData \<Rightarrow> LogID \<Rightarrow> u64 \<Rightarrow> LogTailer \<Rightarrow> failure + LogTailer" where
  "RecordCallback msg log_id rid t =
     andThen (rs_assert (unat rid < length (lt_readers t))) (\<lambda>_.
       case find_state t rid log_id of
         None \<Rightarrow> Inr t
       | Some ls \<Rightarrow>
           if lt_next_seqno ls \<noteq> data_seqno msg then Inr t
           else Inr (add_output (Record_out rid log_id msg) (set_state rid log_id (Some (ls\<lparr> lt_next_seqno := data_seqno msg + 1 \<rparr>)) t)))"

definition GapCallback :: "LogID \<Rightarrow> GapType \<Rightarrow> SequenceNumber \<Rightarrow> SequenceNumber \<Rightarrow> u64 \<Rightarrow> LogTailer \<Rightarrow> failure + LogTailer" where
  "GapCallback log_id gap_type from to rid t =
     andThen (rs_assert (unat rid < length (lt_readers t))) (\<lambda>_.
       case find_state t rid log_id of
         None \<Rightarrow> Inr t
       | Some ls \<Rightarrow>
           if lt_next_seqno ls \<noteq> from then Inr t
           else Inr (add_output (Gap_out rid log_id gap_type from to) (set_state rid log_id (Some (ls\<lparr> lt_next_seqno := to + 1 \<rparr>)) t)))"

text \<open>\<open>TryForward\<close>; \<open>accepted\<close> says whether the queue takes the command and no failure is injected.\<close>

definition TryForward :: "bool \<Rightarrow> lt_command \<Rightarrow> LogTailer \<Rightarrow> bool \<times> LogTailer" where
  "TryForward accepted cmd t = (accepted, if accepted then t\<lparr> storage_to_room := storage_to_room t @ [cmd] \<rparr> else t)"

text \<open>The message of a storage record, and the callbacks of \<open>CreateReader\<close>: a corrupt record counts as lost data.\<close>

record LogRecord =
  record_log_id :: LogID
  record_payload :: slice
  record_seqno :: SequenceNumber

definition LogRecordMessageData :: "LogRecord \<Rightarrow> failure + MessageData" where
  "LogRecordMessageData r =
     andThen (fst (MessageData_DeSerializeStorage (MessageData_new\<lparr> msg_type := MessageType_value mDeliver \<rparr>) (record_payload r)))
       (\<lambda>m. Inr (m\<lparr> data_seqno_prev := record_seqno r - 1, data_seqno := record_seqno r \<rparr>))"

definition record_cb :: "bool \<Rightarrow> u64 \<Rightarrow> LogRecord \<Rightarrow> LogTailer \<Rightarrow> bool \<times> LogTailer" where
  "record_cb accepted rid r t =
     (case LogRecordMessageData r of
        Inl _ \<Rightarrow> TryForward accepted (Gap_command kDataLoss (record_log_id r) (record_seqno r) (record_seqno r) rid) t
      | Inr msg \<Rightarrow> TryForward accepted (Record_command msg (record_log_id r) rid) t)"

definition gap_cb :: "bool \<Rightarrow> u64 \<Rightarrow> LogID \<Rightarrow> GapType \<Rightarrow> SequenceNumber \<Rightarrow> SequenceNumber \<Rightarrow> LogTailer \<Rightarrow> bool \<times> LogTailer" where
  "gap_cb accepted rid log_id type from to t = TryForward accepted (Gap_command type log_id from to rid) t"

fun run_command :: "lt_command \<Rightarrow> LogTailer \<Rightarrow> failure + LogTailer" where
  "run_command (Record_command msg log_id rid) t = RecordCallback msg log_id rid t"
| "run_command (Gap_command type log_id from to rid) t = GapCallback log_id type from to rid t"

section \<open>Restarts\<close>

partial_function (option) tick_loop :: "storage_env \<Rightarrow> int \<Rightarrow> LogTailer \<Rightarrow> (failure + LogTailer) option" where
  "tick_loop env now t =
     (case restart_events t of
        [] \<Rightarrow> Some (Inr t)
      | (time, rid, log_id) # _ \<Rightarrow>
          if \<not> time < now then Some (Inr t)
          else if \<not> unat rid < length (lt_readers t) then Some (Inl Assert_failed)
          else case find_state t rid log_id of
                 None \<Rightarrow> Some (Inl Assert_failed)
               | Some ls \<Rightarrow>
                   (case LogTailer_StartReading env log_id (lt_next_seqno ls) rid t of
                      Inl e \<Rightarrow> Some (Inl e)
                    | Inr (_, t) \<Rightarrow> tick_loop env now t))"

declare tick_loop.simps [code]

definition LogTailer_Tick :: "storage_env \<Rightarrow> int \<Rightarrow> LogTailer \<Rightarrow> (failure + LogTailer) option" where
  "LogTailer_Tick env now t = tick_loop env now t"

section \<open>The order of records\<close>

text \<open>
  A replay of the outputs: the number each reader of each log is due next. It fails at a record or gap that does not begin there.
\<close>

type_synonym due = "u64 \<Rightarrow> LogID \<Rightarrow> SequenceNumber option"

definition set_due :: "due \<Rightarrow> u64 \<Rightarrow> LogID \<Rightarrow> SequenceNumber option \<Rightarrow> due" where
  "set_due d rid l n = d(rid := (d rid)(l := n))"

fun replay_output :: "lt_output \<Rightarrow> due \<Rightarrow> due option" where
  "replay_output (Opened rid l n) d = Some (set_due d rid l (Some n))"
| "replay_output (Open_failed rid l n) d = Some d"
| "replay_output (Closed rid l) d = Some (set_due d rid l None)"
| "replay_output (Find_time l) d = Some d"
| "replay_output (Record_out rid l m) d = (if d rid l = Some (data_seqno m) then Some (set_due d rid l (Some (data_seqno m + 1))) else None)"
| "replay_output (Gap_out rid l type from to) d = (if d rid l = Some from then Some (set_due d rid l (Some (to + 1))) else None)"

fun replay :: "lt_output list \<Rightarrow> due \<Rightarrow> due option" where
  "replay [] d = Some d"
| "replay (x # xs) d = (case replay_output x d of None \<Rightarrow> None | Some d \<Rightarrow> replay xs d)"

lemma replay_append: "replay (xs @ ys) d = (case replay xs d of None \<Rightarrow> None | Some d \<Rightarrow> replay ys d)"
  by (induction xs arbitrary: d) (auto split: option.split)

definition log_states :: "LogTailer \<Rightarrow> u64 \<Rightarrow> LogID \<Rightarrow> ReaderLogState option" where
  "log_states t rid l = (if unat rid < length (lt_readers t) then find_state t rid l else None)"

definition next_due :: "LogTailer \<Rightarrow> due" where
  "next_due t rid l = map_option lt_next_seqno (log_states t rid l)"

text \<open>Every open log of a reader has one restart event, and there are no others.\<close>

definition events_ok :: "LogTailer \<Rightarrow> bool" where
  "events_ok t \<longleftrightarrow> sorted (restart_events t) \<and> distinct (restart_events t)
     \<and> (\<forall>rid l ls. log_states t rid l = Some ls \<longrightarrow> snd (restart_event_handle ls) = (rid, l) \<and> restart_event_handle ls \<in> set (restart_events t))
     \<and> (\<forall>ev \<in> set (restart_events t). \<exists>ls. log_states t (fst (snd ev)) (snd (snd ev)) = Some ls \<and> restart_event_handle ls = ev)"

definition tailer_inv :: "LogTailer \<Rightarrow> bool" where
  "tailer_inv t \<longleftrightarrow> events_ok t \<and> replay (lt_outputs t) (\<lambda>_ _. None) = Some (next_due t)"

lemma log_states_simps [simp]:
  "log_states (add_output x t) = log_states t" "log_states (t\<lparr> restart_events := evs \<rparr>) = log_states t"
  "log_states (t\<lparr> storage_to_room := q \<rparr>) = log_states t"
  by (simp_all add: fun_eq_iff log_states_def find_state_def add_output_def)

lemma log_states_set [simp]:
  assumes "unat rid < length (lt_readers t)"
  shows "log_states (set_state rid l ls t) = (log_states t)(rid := (log_states t rid)(l := ls))"
proof (intro ext)
  fix rid' l'
  show "log_states (set_state rid l ls t) rid' l' = ((log_states t)(rid := (log_states t rid)(l := ls))) rid' l'"
  proof (cases "rid' = rid")
    case True
    then show ?thesis using assms by (simp add: log_states_def find_state_def set_state_def Let_def split: option.split)
  next
    case False
    then have "unat rid \<noteq> unat rid'" by (metis word_unat_eq_iff)
    then show ?thesis using False by (simp add: log_states_def find_state_def set_state_def Let_def)
  qed
qed

lemma set_state_simps [simp]:
  "restart_events (set_state rid l ls t) = restart_events t" "lt_outputs (set_state rid l ls t) = lt_outputs t"
  "length (lt_readers (set_state rid l ls t)) = length (lt_readers t)"
  by (simp_all add: set_state_def Let_def)

lemma add_output_simps [simp]:
  "restart_events (add_output x t) = restart_events t" "lt_outputs (add_output x t) = lt_outputs t @ [x]"
  "lt_readers (add_output x t) = lt_readers t"
  by (simp_all add: add_output_def)

lemma find_state_log: "unat rid < length (lt_readers t) \<Longrightarrow> find_state t rid l = log_states t rid l"
  by (simp add: log_states_def)

text \<open>The events without the one of a log.\<close>

definition other_events :: "LogTailer \<Rightarrow> u64 \<Rightarrow> LogID \<Rightarrow> RestartEvent list" where
  "other_events t rid l = (case log_states t rid l of None \<Rightarrow> restart_events t
     | Some ls \<Rightarrow> RemoveEvent (restart_event_handle ls) (restart_events t))"

lemma other_events:
  assumes "events_ok t"
  shows "set (other_events t rid l) = {ev \<in> set (restart_events t). snd ev \<noteq> (rid, l)}"
    and "sorted (other_events t rid l)" and "distinct (other_events t rid l)"
proof -
  have ev: "\<exists>ls. log_states t rid l = Some ls \<and> restart_event_handle ls = ev" if "ev \<in> set (restart_events t)" "snd ev = (rid, l)" for ev
    using assms that unfolding events_ok_def by (metis fst_conv snd_conv)
  have hd: "snd (restart_event_handle ls) = (rid, l)" if "log_states t rid l = Some ls" for ls
    using assms that unfolding events_ok_def by blast
  have sd: "sorted (restart_events t)" "distinct (restart_events t)" using assms by (simp_all add: events_ok_def)
  show "set (other_events t rid l) = {ev \<in> set (restart_events t). snd ev \<noteq> (rid, l)}"
  proof (cases "log_states t rid l")
    case None
    then show ?thesis using ev by (auto simp: other_events_def)
  next
    case (Some ls)
    have "set (other_events t rid l) = set (restart_events t) - {restart_event_handle ls}"
      using sd(2) by (simp add: other_events_def Some RemoveEvent_def set_remove1_eq)
    then show ?thesis using ev hd [OF Some] Some by fastforce
  qed
  show "sorted (other_events t rid l)" "distinct (other_events t rid l)"
    using sd by (auto simp: other_events_def RemoveEvent_def sorted_remove1 split: option.split)
qed

lemma events_ok_change:
  assumes ok: "events_ok t" and rid: "unat rid < length (lt_readers t)"
    and states: "log_states t' = (log_states t)(rid := (log_states t rid)(l := ls))"
    and evs: "set (restart_events t') = set (other_events t rid l) \<union> (case ls of None \<Rightarrow> {} | Some ls \<Rightarrow> {restart_event_handle ls})"
    and sd: "sorted (restart_events t')" "distinct (restart_events t')"
    and h: "\<And>s. ls = Some s \<Longrightarrow> snd (restart_event_handle s) = (rid, l)"
  shows "events_ok t'"
proof -
  note set = other_events(1) [OF ok, of rid l]
  have a: "snd (restart_event_handle s) = (rid', l') \<and> restart_event_handle s \<in> set (restart_events t')"
    if s: "log_states t' rid' l' = Some s" for rid' l' s
  proof (cases "rid' = rid \<and> l' = l")
    case True
    then have "ls = Some s" using s states by simp
    then show ?thesis using True h evs by auto
  next
    case False
    then have "log_states t rid' l' = Some s" using s states by (auto split: if_splits)
    then have "snd (restart_event_handle s) = (rid', l')" "restart_event_handle s \<in> set (restart_events t)" using ok by (auto simp: events_ok_def)
    then show ?thesis using False evs set by auto
  qed
  have b: "\<exists>s. log_states t' (fst (snd ev)) (snd (snd ev)) = Some s \<and> restart_event_handle s = ev" if ev: "ev \<in> set (restart_events t')" for ev
  proof (cases "ev \<in> set (other_events t rid l)")
    case True
    then have "ev \<in> set (restart_events t)" "snd ev \<noteq> (rid, l)" using set by auto
    then show ?thesis using ok states unfolding events_ok_def by (metis (no_types, lifting) fun_upd_apply prod.collapse)
  next
    case False
    then obtain s where "ls = Some s" "ev = restart_event_handle s" using ev evs by (cases ls) auto
    then show ?thesis using h states by simp
  qed
  show ?thesis using a b sd by (auto simp: events_ok_def)
qed

lemma next_due_set:
  "log_states t' = (log_states t)(rid := (log_states t rid)(l := ls)) \<Longrightarrow>
   next_due t' = set_due (next_due t) rid l (map_option lt_next_seqno ls)"
  by (auto simp: fun_eq_iff next_due_def set_due_def)

lemma StartReading_inv:
  assumes inv: "tailer_inv t" and rid: "unat rid < length (lt_readers t)"
  shows "\<exists>st t'. LogTailer_StartReading env l n rid t = Inr (st, t') \<and> tailer_inv t' \<and> length (lt_readers t') = length (lt_readers t)
    \<and> st = open_status env (lt_outputs t) rid l n
    \<and> (if status_ok st
       then next_due t' = set_due (next_due t) rid l (Some n) \<and> lt_outputs t' = lt_outputs t @ [Opened rid l n]
         \<and> set (restart_events t') = insert (restart_time env (lt_outputs t @ [Opened rid l n]), rid, l) (set (other_events t rid l))
       else t' = add_output (Open_failed rid l n) t)"
proof -
  let ?st = "open_status env (lt_outputs t) rid l n" and ?out = "add_output (Opened rid l n) t"
  have ok: "events_ok t" and re: "replay (lt_outputs t) (\<lambda>_ _. None) = Some (next_due t)" using inv by (simp_all add: tailer_inv_def)
  have ne: "lt_readers t \<noteq> []" using rid by auto
  show ?thesis
  proof (cases "status_ok ?st")
    case False
    have "events_ok (add_output (Open_failed rid l n) t)" using ok by (simp add: events_ok_def)
    moreover have "next_due (add_output (Open_failed rid l n) t) = next_due t" by (simp add: next_due_def fun_eq_iff)
    ultimately have "tailer_inv (add_output (Open_failed rid l n) t)" using re by (simp add: tailer_inv_def replay_append)
    then show ?thesis using False ne rid by (simp add: LogTailer_StartReading_def Let_def)
  next
    case True
    let ?ev = "(restart_time env (lt_outputs t @ [Opened rid l n]), rid, l)"
    let ?ls = "\<lparr> lt_next_seqno = n, restart_event_handle = ?ev \<rparr>"
    let ?t' = "set_state rid l (Some ?ls) (?out\<lparr> restart_events := insort ?ev (other_events t rid l) \<rparr>)"
    note other = other_events [OF ok, of rid l]
    have new: "?ev \<notin> set (other_events t rid l)" using other(1) by simp
    have "find_state ?out rid l = log_states t rid l" using rid find_state_log [of rid ?out l] by simp
    then have "LogTailer_StartReading env l n rid t = Inr (?st, ?t')"
      using True ne rid new
      by (cases "log_states t rid l")
        (simp_all add: LogTailer_StartReading_def Let_def AddEvent_def other_events_def add_output_def RemoveEvent_def)
    moreover have states: "log_states ?t' = (log_states t)(rid := (log_states t rid)(l := Some ?ls))" using rid by simp
    have "events_ok ?t'"
      by (rule events_ok_change [OF ok rid states])
        (use other new in \<open>simp_all add: set_insort_key distinct_insort sorted_insort\<close>)
    moreover have "next_due ?t' = set_due (next_due t) rid l (Some n)" using next_due_set [OF states] by simp
    ultimately show ?thesis using True re by (simp add: tailer_inv_def replay_append set_insort_key)
  qed
qed

text \<open>Opening a log again where it stands changes nothing that is due, whether the storage allows it or not.\<close>

lemma StartReading_again:
  assumes "tailer_inv t" and "unat rid < length (lt_readers t)" and "log_states t rid l = Some ls"
  obtains st t' where "LogTailer_StartReading env l (lt_next_seqno ls) rid t = Inr (st, t')" and "tailer_inv t'"
    and "length (lt_readers t') = length (lt_readers t)" and "next_due t' = next_due t"
proof -
  have "set_due (next_due t) rid l (Some (lt_next_seqno ls)) = next_due t" using assms(3) by (auto simp: set_due_def next_due_def fun_eq_iff)
  moreover have "next_due (add_output x t) = next_due t" for x by (simp add: next_due_def fun_eq_iff)
  ultimately show thesis using StartReading_inv [OF assms(1,2), of env l "lt_next_seqno ls"] that by (auto split: if_splits)
qed

lemma StopReading_inv:
  assumes inv: "tailer_inv t" and rid: "unat rid < length (lt_readers t)"
  shows "\<exists>st t'. LogTailer_StopReading env l rid t = Inr (st, t') \<and> tailer_inv t' \<and> length (lt_readers t') = length (lt_readers t)
    \<and> next_due t' = set_due (next_due t) rid l None"
proof -
  have ok: "events_ok t" and re: "replay (lt_outputs t) (\<lambda>_ _. None) = Some (next_due t)" using inv by (simp_all add: tailer_inv_def)
  have ne: "lt_readers t \<noteq> []" using rid by auto
  show ?thesis
  proof (cases "log_states t rid l")
    case None
    then have "set_due (next_due t) rid l None = next_due t" by (auto simp: set_due_def next_due_def fun_eq_iff)
    then show ?thesis using None ne rid inv by (simp add: LogTailer_StopReading_def find_state_log)
  next
    case (Some ls)
    let ?t1 = "set_state rid l None (t\<lparr> restart_events := RemoveEvent (restart_event_handle ls) (restart_events t) \<rparr>)"
    let ?t' = "add_output (Closed rid l) ?t1"
    have run: "LogTailer_StopReading env l rid t = Inr (close_status env (lt_outputs ?t1) rid l, ?t')"
      using Some ne rid by (simp add: LogTailer_StopReading_def find_state_log Let_def)
    have states: "log_states ?t' = (log_states t)(rid := (log_states t rid)(l := None))" using rid by simp
    note other = other_events [OF ok, of rid l]
    have evs: "restart_events ?t' = other_events t rid l" by (simp add: other_events_def Some)
    have "events_ok ?t'" by (rule events_ok_change [OF ok rid states]) (use other in \<open>simp_all only: evs\<close>, simp_all)
    moreover have due: "next_due ?t' = set_due (next_due t) rid l None" using next_due_set [OF states] by simp
    ultimately have "tailer_inv ?t'" using re by (simp add: tailer_inv_def replay_append)
    then show ?thesis using run due by simp
  qed
qed

text \<open>A callback passes on what is due, and ignores what is not.\<close>

lemma callback_inv:
  assumes inv: "tailer_inv t" and rid: "unat rid < length (lt_readers t)" and ls: "log_states t rid l = Some ls"
    and out: "replay_output x (next_due t) = Some (set_due (next_due t) rid l (Some n))"
  shows "tailer_inv (add_output x (set_state rid l (Some (ls\<lparr> lt_next_seqno := n \<rparr>)) t))"
proof -
  let ?t' = "add_output x (set_state rid l (Some (ls\<lparr> lt_next_seqno := n \<rparr>)) t)"
  have ok: "events_ok t" and re: "replay (lt_outputs t) (\<lambda>_ _. None) = Some (next_due t)" using inv by (simp_all add: tailer_inv_def)
  have h: "snd (restart_event_handle ls) = (rid, l)" "restart_event_handle ls \<in> set (restart_events t)" using ok ls by (simp_all add: events_ok_def)
  have uniq: "ev = restart_event_handle ls" if ev: "ev \<in> set (restart_events t)" "snd ev = (rid, l)" for ev
  proof -
    obtain s where "log_states t (fst (snd ev)) (snd (snd ev)) = Some s" "restart_event_handle s = ev"
      using ok ev(1) unfolding events_ok_def by blast
    then show ?thesis using ev(2) ls by simp
  qed
  have states: "log_states ?t' = (log_states t)(rid := (log_states t rid)(l := Some (ls\<lparr> lt_next_seqno := n \<rparr>)))" using rid by simp
  have evs: "set (restart_events ?t') = set (other_events t rid l) \<union> {restart_event_handle ls}"
  proof (intro set_eqI iffI)
    fix ev assume "ev \<in> set (restart_events ?t')"
    then have ev: "ev \<in> set (restart_events t)" by simp
    show "ev \<in> set (other_events t rid l) \<union> {restart_event_handle ls}"
      using ev uniq [OF ev] by (cases "snd ev = (rid, l)") (simp_all add: other_events(1) [OF ok])
  next
    fix ev assume "ev \<in> set (other_events t rid l) \<union> {restart_event_handle ls}"
    then show "ev \<in> set (restart_events ?t')" using h(2) by (auto simp: other_events(1) [OF ok])
  qed
  have "sorted (restart_events t)" "distinct (restart_events t)" using ok by (simp_all add: events_ok_def)
  then have "events_ok ?t'" using h(1) evs by (intro events_ok_change [OF ok rid states]) (simp_all, auto)
  then show ?thesis using re out next_due_set [OF states] by (simp add: tailer_inv_def replay_append)
qed

lemma RecordCallback_inv:
  assumes inv: "tailer_inv t" and rid: "unat rid < length (lt_readers t)"
  shows "\<exists>t'. RecordCallback m l rid t = Inr t' \<and> tailer_inv t' \<and> length (lt_readers t') = length (lt_readers t)
    \<and> (if next_due t rid l = Some (data_seqno m)
       then lt_outputs t' = lt_outputs t @ [Record_out rid l m] \<and> next_due t' = set_due (next_due t) rid l (Some (data_seqno m + 1))
       else t' = t)"
proof (cases "next_due t rid l = Some (data_seqno m)")
  case True
  then obtain ls where ls: "log_states t rid l = Some ls" "lt_next_seqno ls = data_seqno m" by (auto simp: next_due_def)
  let ?s = "set_state rid l (Some (ls\<lparr> lt_next_seqno := data_seqno m + 1 \<rparr>)) t"
  have "next_due (add_output (Record_out rid l m) ?s) = set_due (next_due t) rid l (Some (data_seqno m + 1))"
    using next_due_set [of "add_output (Record_out rid l m) ?s" t rid l] rid by simp
  then show ?thesis
    using True ls rid callback_inv [OF inv rid ls(1), of "Record_out rid l m" "data_seqno m + 1"]
    by (simp add: RecordCallback_def find_state_log)
next
  case False
  then show ?thesis using inv rid by (cases "log_states t rid l") (simp_all add: RecordCallback_def find_state_log next_due_def)
qed

lemma GapCallback_inv:
  assumes inv: "tailer_inv t" and rid: "unat rid < length (lt_readers t)"
  shows "\<exists>t'. GapCallback l type from to rid t = Inr t' \<and> tailer_inv t' \<and> length (lt_readers t') = length (lt_readers t)
    \<and> (if next_due t rid l = Some from
       then lt_outputs t' = lt_outputs t @ [Gap_out rid l type from to] \<and> next_due t' = set_due (next_due t) rid l (Some (to + 1))
       else t' = t)"
proof (cases "next_due t rid l = Some from")
  case True
  then obtain ls where ls: "log_states t rid l = Some ls" "lt_next_seqno ls = from" by (auto simp: next_due_def)
  let ?s = "set_state rid l (Some (ls\<lparr> lt_next_seqno := to + 1 \<rparr>)) t"
  have "next_due (add_output (Gap_out rid l type from to) ?s) = set_due (next_due t) rid l (Some (to + 1))"
    using next_due_set [of "add_output (Gap_out rid l type from to) ?s" t rid l] rid by simp
  then show ?thesis
    using True ls rid callback_inv [OF inv rid ls(1), of "Gap_out rid l type from to" "to + 1"]
    by (simp add: GapCallback_def find_state_log)
next
  case False
  then show ?thesis using inv rid by (cases "log_states t rid l") (simp_all add: GapCallback_def find_state_log next_due_def)
qed

section \<open>Forced restarts\<close>

lemma first_event:
  assumes "tailer_inv t" and "restart_events t = (time, rid, l) # evs"
  obtains ls where "log_states t rid l = Some ls" and "unat rid < length (lt_readers t)"
proof -
  obtain ls where "log_states t rid l = Some ls" using assms by (auto simp: tailer_inv_def events_ok_def)
  moreover from this have "unat rid < length (lt_readers t)" by (simp add: log_states_def split: if_splits)
  ultimately show thesis by (rule that)
qed

definition due_events :: "int \<Rightarrow> LogTailer \<Rightarrow> RestartEvent set" where
  "due_events now t = {ev \<in> set (restart_events t). fst ev < now}"

text \<open>The storage opens every log, or none, after the calls made so far.\<close>

definition opens_from :: "storage_env \<Rightarrow> lt_output list \<Rightarrow> bool \<Rightarrow> bool" where
  "opens_from env h ok \<longleftrightarrow> (\<forall>xs rid l n. status_ok (open_status env (h @ xs) rid l n) = ok)"

definition restarts_after :: "storage_env \<Rightarrow> lt_output list \<Rightarrow> int \<Rightarrow> bool" where
  "restarts_after env h now \<longleftrightarrow> (\<forall>xs. xs \<noteq> [] \<longrightarrow> now \<le> restart_time env (h @ xs))"

lemma opens_now: "opens_from env h ok \<Longrightarrow> status_ok (open_status env h rid l n) = ok"
  by (metis append_Nil2 opens_from_def)

lemma from_append [intro]:
  "opens_from env h ok \<Longrightarrow> opens_from env (h @ xs) ok" "restarts_after env h now \<Longrightarrow> restarts_after env (h @ xs) now"
  by (simp_all add: opens_from_def restarts_after_def)

text \<open>While the storage opens logs, every due event is replaced by one in the future.\<close>

lemma tick_loop_ends:
  assumes "opens_from env (lt_outputs t) True" and "restarts_after env (lt_outputs t) now" and "tailer_inv t"
  shows "\<exists>t'. tick_loop env now t = Some (Inr t') \<and> tailer_inv t' \<and> next_due t' = next_due t \<and> due_events now t' = {}
    \<and> length (lt_readers t') = length (lt_readers t)"
  using assms
proof (induction "card (due_events now t)" arbitrary: t rule: less_induct)
  case less
  note inv = less.prems(3)
  have sd: "sorted (restart_events t)" using inv by (simp add: tailer_inv_def events_ok_def)
  show ?case
  proof (cases "restart_events t")
    case Nil
    then show ?thesis using inv by (subst tick_loop.simps) (simp add: due_events_def)
  next
    case (Cons ev evs)
    obtain time rid l where ev: "ev = (time, rid, l)" by (cases ev)
    obtain ls where ls: "log_states t rid l = Some ls" "unat rid < length (lt_readers t)"
      using first_event [OF inv Cons [unfolded ev]] by blast
    show ?thesis
    proof (cases "time < now")
      case False
      have "now \<le> fst x" if "x \<in> set (restart_events t)" for x
      proof -
        have "ev \<le> x" using sd that by (auto simp: Cons)
        then have "time \<le> fst x" by (cases x) (auto simp: ev less_eq_prod_def)
        then show ?thesis using False by simp
      qed
      then have "due_events now t = {}" by (auto simp: due_events_def not_less)
      then show ?thesis using False Cons ev inv by (subst tick_loop.simps) simp
    next
      case True
      obtain st t1 where t1: "LogTailer_StartReading env l (lt_next_seqno ls) rid t = Inr (st, t1)" "tailer_inv t1"
        "length (lt_readers t1) = length (lt_readers t)" "lt_outputs t1 = lt_outputs t @ [Opened rid l (lt_next_seqno ls)]" "next_due t1 = set_due (next_due t) rid l (Some (lt_next_seqno ls))"
        "set (restart_events t1) = insert (restart_time env (lt_outputs t @ [Opened rid l (lt_next_seqno ls)]), rid, l) (set (other_events t rid l))"
        using StartReading_inv [OF inv ls(2), of env l "lt_next_seqno ls"] opens_now [OF less.prems(1)] by auto
      have "events_ok t" using inv by (simp add: tailer_inv_def)
      note other = other_events(1) [OF this, of rid l]
      have "due_events now t1 = {x \<in> due_events now t. snd x \<noteq> (rid, l)}"
        using less.prems(2) by (auto simp: restarts_after_def due_events_def t1(6) other not_less [symmetric])
      moreover have "ev \<in> due_events now t" using True by (simp add: due_events_def Cons ev)
      moreover have "snd ev = (rid, l)" by (simp add: ev)
      ultimately have "due_events now t1 \<subset> due_events now t" by blast
      then have "card (due_events now t1) < card (due_events now t)" by (intro psubset_card_mono) (simp_all add: due_events_def)
      moreover have "opens_from env (lt_outputs t1) True" "restarts_after env (lt_outputs t1) now"
        using less.prems(1,2) by (auto simp: t1(4))
      ultimately obtain t' where t': "tick_loop env now t1 = Some (Inr t')" "tailer_inv t'" "next_due t' = next_due t1"
        "due_events now t' = {}" "length (lt_readers t') = length (lt_readers t1)" using less.hyps t1(2) by blast
      have "set_due (next_due t) rid l (Some (lt_next_seqno ls)) = next_due t" using ls(1) by (auto simp: set_due_def next_due_def fun_eq_iff)
      moreover have "tick_loop env now t = Some (Inr t')"
        using True Cons ev ls t1(1) t'(1) by (subst tick_loop.simps) (simp add: find_state_log)
      ultimately show ?thesis using t' t1(3,5) by simp
    qed
  qed
qed

text \<open>While it does not, the first due event stays, and the loop goes on.\<close>

definition stuck :: "storage_env \<Rightarrow> int \<Rightarrow> LogTailer \<Rightarrow> bool" where
  "stuck env now t \<longleftrightarrow> opens_from env (lt_outputs t) False \<and> tailer_inv t \<and> due_events now t \<noteq> {}"

lemma stuck_step:
  assumes "stuck env now t"
  obtains time rid l evs ls where "restart_events t = (time, rid, l) # evs" and "time < now" and "unat rid < length (lt_readers t)"
    and "find_state t rid l = Some ls"
    and "LogTailer_StartReading env l (lt_next_seqno ls) rid t =
      Inr (open_status env (lt_outputs t) rid l (lt_next_seqno ls), add_output (Open_failed rid l (lt_next_seqno ls)) t)"
    and "stuck env now (add_output (Open_failed rid l (lt_next_seqno ls)) t)"
proof -
  have inv: "tailer_inv t" and fail: "opens_from env (lt_outputs t) False" and due: "due_events now t \<noteq> {}"
    using assms by (simp_all add: stuck_def)
  obtain x where x: "x \<in> set (restart_events t)" "fst x < now" using due by (auto simp: due_events_def)
  obtain time rid l evs where evs: "restart_events t = (time, rid, l) # evs" using x(1) by (cases "restart_events t") auto
  have "(time, rid, l) \<le> x" using inv x(1) by (auto simp: tailer_inv_def events_ok_def evs)
  then have time: "time < now" using x(2) by (cases x) (auto simp: less_eq_prod_def)
  obtain ls where ls: "log_states t rid l = Some ls" "unat rid < length (lt_readers t)" using first_event [OF inv evs] by blast
  obtain st t1 where "LogTailer_StartReading env l (lt_next_seqno ls) rid t = Inr (st, t1)" "tailer_inv t1"
    "st = open_status env (lt_outputs t) rid l (lt_next_seqno ls)" "t1 = add_output (Open_failed rid l (lt_next_seqno ls)) t"
    using StartReading_inv [OF inv ls(2), of env l "lt_next_seqno ls"] opens_now [OF fail] by auto
  then show thesis
    using that [OF evs time ls(2)] ls from_append(1) [OF fail] due by (simp add: find_state_log stuck_def due_events_def)
qed

lemma tick_loop_diverges:
  assumes "stuck env now t"
  shows "tick_loop env now t = None"
proof (rule ccontr)
  assume "tick_loop env now t \<noteq> None"
  then obtain y where "tick_loop env now t = Some y" by blast
  then have "\<not> stuck env now t"
  proof (rule tick_loop.raw_induct [of "\<lambda>env now t y. \<not> stuck env now t", rotated])
    fix loop env now t y
    assume IH: "\<And>env now t y. loop env now t = Some y \<Longrightarrow> \<not> stuck env now t"
      and run: "(case restart_events t of [] \<Rightarrow> Some (Inr t)
        | (time, rid, log_id) # _ \<Rightarrow>
            if \<not> time < now then Some (Inr t)
            else if \<not> unat rid < length (lt_readers t) then Some (Inl Assert_failed)
            else case find_state t rid log_id of None \<Rightarrow> Some (Inl Assert_failed)
              | Some ls \<Rightarrow> (case LogTailer_StartReading env log_id (lt_next_seqno ls) rid t of
                  Inl e \<Rightarrow> Some (Inl e) | Inr (_, t) \<Rightarrow> loop env now t)) = Some y"
    show "\<not> stuck env now t"
    proof
      assume "stuck env now t"
      then show False by (rule stuck_step) (use run IH in auto)
    qed
  qed
  then show False using assms by blast
qed

section \<open>Reachable states\<close>

text \<open>Calls for readers that exist; the commands that storage threads forwarded run in any order.\<close>

inductive tailer_reach :: "storage_env \<Rightarrow> nat \<Rightarrow> LogTailer \<Rightarrow> bool" for env n where
  tailer_ready: "LogTailer_Initialize env True True n LogTailer_new = Inr (OK, t) \<Longrightarrow> tailer_reach env n t"
| tailer_start: "tailer_reach env n t \<Longrightarrow> unat rid < n \<Longrightarrow> LogTailer_StartReading env l s rid t = Inr (st, t') \<Longrightarrow> tailer_reach env n t'"
| tailer_stop: "tailer_reach env n t \<Longrightarrow> unat rid < n \<Longrightarrow> LogTailer_StopReading env l rid t = Inr (st, t') \<Longrightarrow> tailer_reach env n t'"
| tailer_record: "tailer_reach env n t \<Longrightarrow> unat rid < n \<Longrightarrow> snd (record_cb accepted rid r t) = t' \<Longrightarrow> tailer_reach env n t'"
| tailer_gap: "tailer_reach env n t \<Longrightarrow> unat rid < n \<Longrightarrow> snd (gap_cb accepted rid l type from to t) = t' \<Longrightarrow> tailer_reach env n t'"
| tailer_command: "tailer_reach env n t \<Longrightarrow> storage_to_room t = q @ cmd # q' \<Longrightarrow>
    run_command cmd (t\<lparr> storage_to_room := q @ q' \<rparr>) = Inr t' \<Longrightarrow> tailer_reach env n t'"
| tailer_tick: "tailer_reach env n t \<Longrightarrow> LogTailer_Tick env now t = Some (Inr t') \<Longrightarrow> tailer_reach env n t'"
| tailer_find: "tailer_reach env n t \<Longrightarrow> FindLatestSeqno env l t = Inr (st, t') \<Longrightarrow> tailer_reach env n t'"

lemma init_readers_spec:
  "length (lt_readers t) \<le> n \<Longrightarrow> init_readers env n t = Inr (OK, t') \<Longrightarrow> (\<forall>r \<in> set (lt_readers t). lt_log_state r = []) \<Longrightarrow>
   \<exists>rs. t' = t\<lparr> lt_readers := rs \<rparr> \<and> length rs = n \<and> (\<forall>r \<in> set rs. lt_log_state r = [])"
proof (induction env n t rule: init_readers.induct)
  case (1 env n t)
  show ?case
  proof (cases "length (lt_readers t) < n")
    case False
    then show ?thesis using "1.prems" unfolding init_readers.simps [of env n t] by (intro exI [of _ "lt_readers t"]) simp
  next
    case True
    let ?t = "t\<lparr> lt_readers := lt_readers t @ [\<lparr> lt_log_state = [] \<rparr>] \<rparr>"
    have st: "lt_storage t" "status_ok (create_status env (of_nat (length (lt_readers t))))" "init_readers env n ?t = Inr (OK, t')"
      using "1.prems"(2) True unfolding init_readers.simps [of env n t] by (auto simp: andThen_Inr Let_def split: if_splits)
    have "length (lt_readers ?t) \<le> n" "\<forall>r \<in> set (lt_readers ?t). lt_log_state r = []" using True "1.prems"(3) by auto
    from "1.IH" [OF True refl _ this(1) st(3) this(2)] st(2) show ?thesis by auto
  qed
qed

lemma tailer_ready_inv:
  assumes "LogTailer_Initialize env True True n LogTailer_new = Inr (OK, t)"
  shows "tailer_inv t" and "length (lt_readers t) = n"
proof -
  obtain rs where rs: "t = LogTailer_new\<lparr> lt_readers := rs \<rparr>" "length rs = n" "\<forall>r \<in> set rs. lt_log_state r = []"
    using init_readers_spec [of LogTailer_new n env t] assms by (auto simp: LogTailer_Initialize_def LogTailer_new_def)
  then show "length (lt_readers t) = n" by simp
  have "log_states t rid l = None" for rid l using rs by (simp add: log_states_def find_state_def)
  then show "tailer_inv t" using rs(1) by (simp add: tailer_inv_def events_ok_def next_due_def fun_eq_iff LogTailer_new_def)
qed

text \<open>Every forwarded command names a reader that exists.\<close>

fun command_reader :: "lt_command \<Rightarrow> u64" where
  "command_reader (Record_command m l rid) = rid"
| "command_reader (Gap_command type l from to rid) = rid"

definition tailer_state_ok :: "nat \<Rightarrow> LogTailer \<Rightarrow> bool" where
  "tailer_state_ok n t \<longleftrightarrow> tailer_inv t \<and> length (lt_readers t) = n \<and> (\<forall>cmd \<in> set (storage_to_room t). unat (command_reader cmd) < n)"

lemma queue_irrelevant [simp]:
  "next_due (t\<lparr> storage_to_room := q \<rparr>) = next_due t" "tailer_inv (t\<lparr> storage_to_room := q \<rparr>) = tailer_inv t"
proof -
  show due: "next_due (t\<lparr> storage_to_room := q \<rparr>) = next_due t" by (simp add: next_due_def fun_eq_iff)
  show "tailer_inv (t\<lparr> storage_to_room := q \<rparr>) = tailer_inv t" by (simp add: tailer_inv_def events_ok_def due)
qed

lemma queue_kept:
  "LogTailer_StartReading env l s rid t = Inr (st, t') \<Longrightarrow> storage_to_room t' = storage_to_room t"
  "LogTailer_StopReading env l rid t = Inr (st, t') \<Longrightarrow> storage_to_room t' = storage_to_room t"
  "RecordCallback m l rid t = Inr t' \<Longrightarrow> storage_to_room t' = storage_to_room t"
  "GapCallback l type from to rid t = Inr t' \<Longrightarrow> storage_to_room t' = storage_to_room t"
  by (auto simp: LogTailer_StartReading_def LogTailer_StopReading_def RecordCallback_def GapCallback_def andThen_Inr Let_def
      set_state_def add_output_def split: if_splits option.splits)

definition same_shape :: "LogTailer \<Rightarrow> LogTailer \<Rightarrow> bool" where
  "same_shape t t' \<longleftrightarrow> tailer_inv t' \<and> next_due t' = next_due t \<and> length (lt_readers t') = length (lt_readers t) \<and> storage_to_room t' = storage_to_room t"

lemma tick_loop_keeps:
  assumes ret: "tick_loop env now t = Some y" and inv: "tailer_inv t"
  shows "\<exists>t'. y = Inr t' \<and> same_shape t t'"
proof -
  have "tailer_inv t \<longrightarrow> (\<exists>t'. y = Inr t' \<and> same_shape t t')"
  proof (rule tick_loop.raw_induct [where P = "\<lambda>env now t y. tailer_inv t \<longrightarrow> (\<exists>t'. y = Inr t' \<and> same_shape t t')", OF _ ret], intro impI)
    fix loop env now t y
    assume IH: "\<And>env now t y. loop env now t = Some y \<Longrightarrow> tailer_inv t \<longrightarrow> (\<exists>t'. y = Inr t' \<and> same_shape t t')"
      and run: "(case restart_events t of [] \<Rightarrow> Some (Inr t)
        | (time, rid, log_id) # _ \<Rightarrow>
            if \<not> time < now then Some (Inr t)
            else if \<not> unat rid < length (lt_readers t) then Some (Inl Assert_failed)
            else case find_state t rid log_id of None \<Rightarrow> Some (Inl Assert_failed)
              | Some ls \<Rightarrow> (case LogTailer_StartReading env log_id (lt_next_seqno ls) rid t of
                  Inl e \<Rightarrow> Some (Inl e) | Inr (_, t) \<Rightarrow> loop env now t)) = Some y"
      and inv: "tailer_inv t"
    show "\<exists>t'. y = Inr t' \<and> same_shape t t'"
    proof (cases "restart_events t = [] \<or> \<not> fst (hd (restart_events t)) < now")
      case True
      then have "y = Inr t" using run by (cases "restart_events t") auto
      then show ?thesis using inv by (simp add: same_shape_def)
    next
      case False
      then obtain time rid l evs where evs: "restart_events t = (time, rid, l) # evs" "time < now" by (cases "restart_events t") auto
      obtain ls where ls: "log_states t rid l = Some ls" "unat rid < length (lt_readers t)" by (rule first_event [OF inv evs(1)])
      obtain st t1 where t1: "LogTailer_StartReading env l (lt_next_seqno ls) rid t = Inr (st, t1)" "tailer_inv t1"
        "length (lt_readers t1) = length (lt_readers t)" "next_due t1 = next_due t"
        by (rule StartReading_again [OF inv ls(2,1)])
      have "loop env now t1 = Some y" using run evs ls t1(1) by (simp add: find_state_log)
      then obtain t' where "y = Inr t'" "same_shape t1 t'" using IH t1(2) by blast
      then show ?thesis using t1(3,4) queue_kept(1) [OF t1(1)] by (simp add: same_shape_def)
    qed
  qed
  then show ?thesis using inv by simp
qed

lemma TryForward_ok: "tailer_state_ok n t \<Longrightarrow> unat (command_reader cmd) < n \<Longrightarrow> tailer_state_ok n (snd (TryForward accepted cmd t))"
  by (auto simp: tailer_state_ok_def TryForward_def)

text \<open>What the room hears of a command, given what is due.\<close>

fun passed_on :: "due \<Rightarrow> lt_command \<Rightarrow> lt_output list" where
  "passed_on d (Record_command m l rid) = (if d rid l = Some (data_seqno m) then [Record_out rid l m] else [])"
| "passed_on d (Gap_command type l from to rid) = (if d rid l = Some from then [Gap_out rid l type from to] else [])"

lemma run_command_inv:
  assumes "tailer_inv t" and "unat (command_reader cmd) < length (lt_readers t)"
  shows "\<exists>t'. run_command cmd t = Inr t' \<and> tailer_inv t' \<and> length (lt_readers t') = length (lt_readers t)
    \<and> lt_outputs t' = lt_outputs t @ passed_on (next_due t) cmd"
proof (cases cmd)
  case (Record_command m l rid)
  then show ?thesis using RecordCallback_inv [of t rid m l] assms by (auto split: if_splits)
next
  case (Gap_command type l "from" to rid)
  then show ?thesis using GapCallback_inv [of t rid l type "from" to] assms by (auto split: if_splits)
qed

lemma run_command_ok:
  assumes "tailer_state_ok n t" and "storage_to_room t = q @ cmd # q'"
  obtains t' where "run_command cmd (t\<lparr> storage_to_room := q @ q' \<rparr>) = Inr t'" and "tailer_state_ok n t'"
    and "lt_outputs t' = lt_outputs t @ passed_on (next_due t) cmd"
proof -
  let ?t = "t\<lparr> storage_to_room := q @ q' \<rparr>"
  have inv: "tailer_inv ?t" "length (lt_readers ?t) = n" and rid: "unat (command_reader cmd) < length (lt_readers ?t)"
    and q: "\<forall>cmd \<in> set (storage_to_room ?t). unat (command_reader cmd) < n" using assms by (auto simp: tailer_state_ok_def)
  obtain t' where t': "run_command cmd ?t = Inr t'" "tailer_inv t'" "length (lt_readers t') = length (lt_readers ?t)"
    "lt_outputs t' = lt_outputs t @ passed_on (next_due t) cmd"
    using run_command_inv [OF inv(1) rid] by auto
  moreover have "storage_to_room t' = storage_to_room ?t" using t'(1) queue_kept(3,4) by (cases cmd) (metis run_command.simps)+
  ultimately have "tailer_state_ok n t'" using inv(2) q by (simp add: tailer_state_ok_def)
  with t'(1) show thesis using t'(4) by (rule that)
qed

lemma tailer_reach_ok: "tailer_reach env n t \<Longrightarrow> tailer_state_ok n t"
proof (induction rule: tailer_reach.induct)
  case (tailer_ready t)
  obtain rs where "t = LogTailer_new\<lparr> lt_readers := rs \<rparr>"
    using init_readers_spec [of LogTailer_new n env t] tailer_ready by (auto simp: LogTailer_Initialize_def LogTailer_new_def)
  then show ?case using tailer_ready_inv [OF tailer_ready] by (simp add: tailer_state_ok_def LogTailer_new_def)
next
  case (tailer_start t rid l s st t')
  then show ?case using StartReading_inv [of t rid env l s] queue_kept(1) [OF tailer_start(3)] by (auto simp: tailer_state_ok_def)
next
  case (tailer_stop t rid l st t')
  then show ?case using StopReading_inv [of t rid env l] queue_kept(2) [OF tailer_stop(3)] by (auto simp: tailer_state_ok_def)
next
  case (tailer_record t rid accepted r t')
  then show ?case by (auto simp: record_cb_def intro!: TryForward_ok split: sum.split)
next
  case (tailer_gap t rid accepted l type "from" to t')
  then show ?case by (auto simp: gap_cb_def intro!: TryForward_ok)
next
  case (tailer_command t q cmd q' t')
  then show ?case using run_command_ok [of n t q cmd q'] by (metis sum.inject(2))
next
  case (tailer_tick t now t')
  then show ?case using tick_loop_keeps [of env now t "Inr t'"] by (auto simp: tailer_state_ok_def LogTailer_Tick_def same_shape_def)
next
  case (tailer_find t l st t')
  then have "t' = add_output (Find_time l) t" by (auto simp: FindLatestSeqno_def andThen_Inr)
  moreover have "tailer_inv (add_output (Find_time l) t)"
    using tailer_find.IH by (simp add: tailer_state_ok_def tailer_inv_def events_ok_def replay_append next_due_def [abs_def])
  ultimately show ?case using tailer_find.IH by (simp add: tailer_state_ok_def add_output_def)
qed

lemma open_iff_event:
  assumes "tailer_inv t"
  shows "(\<exists>time. (time, rid, l) \<in> set (restart_events t)) = (next_due t rid l \<noteq> None)"
proof
  assume "\<exists>time. (time, rid, l) \<in> set (restart_events t)"
  then show "next_due t rid l \<noteq> None" using assms by (fastforce simp: tailer_inv_def events_ok_def next_due_def)
next
  assume "next_due t rid l \<noteq> None"
  then obtain ls where "log_states t rid l = Some ls" by (auto simp: next_due_def)
  then have "snd (restart_event_handle ls) = (rid, l)" "restart_event_handle ls \<in> set (restart_events t)"
    using assms by (simp_all add: tailer_inv_def events_ok_def)
  then show "\<exists>time. (time, rid, l) \<in> set (restart_events t)" by (metis prod.collapse)
qed

section \<open>Properties\<close>

text \<open>
  C6. The log tailer keeps the records of a log in order. Whatever the storage answers, and however the commands of its threads
  interleave with calls and restarts: the records and gaps that a reader passes to its room follow each other from the number the
  log was last opened at, with nothing skipped and nothing twice; the log state says which number comes next; a log is open if and
  only if a restart is scheduled for it; a forwarded record or gap is passed on exactly if it is the one that is due; and no call for
  a reader that exists, no command and no restart fails an assertion.
\<close>

theorem log_tailer_in_order:
  assumes "tailer_reach env n t"
  shows "replay (lt_outputs t) (\<lambda>_ _. None) = Some (next_due t)
    \<and> (\<forall>rid l. (\<exists>time. (time, rid, l) \<in> set (restart_events t)) = (next_due t rid l \<noteq> None))
    \<and> (\<forall>q cmd q'. storage_to_room t = q @ cmd # q' \<longrightarrow>
         (\<exists>t'. run_command cmd (t\<lparr> storage_to_room := q @ q' \<rparr>) = Inr t' \<and> lt_outputs t' = lt_outputs t @ passed_on (next_due t) cmd))
    \<and> (\<forall>rid l s e. unat rid < n \<longrightarrow> LogTailer_StartReading env l s rid t \<noteq> Inl e \<and> LogTailer_StopReading env l rid t \<noteq> Inl e)
    \<and> (\<forall>now e. LogTailer_Tick env now t \<noteq> Some (Inl e))"
proof -
  have ok: "tailer_state_ok n t" using assms by (rule tailer_reach_ok)
  then have inv: "tailer_inv t" and len: "length (lt_readers t) = n" by (simp_all add: tailer_state_ok_def)
  have "(\<exists>time. (time, rid, l) \<in> set (restart_events t)) = (next_due t rid l \<noteq> None)" for rid l
    using inv by (rule open_iff_event)
  moreover have "\<exists>t'. run_command cmd (t\<lparr> storage_to_room := q @ q' \<rparr>) = Inr t' \<and> lt_outputs t' = lt_outputs t @ passed_on (next_due t) cmd"
    if "storage_to_room t = q @ cmd # q'" for q cmd q'
    by (rule run_command_ok [OF ok that]) blast
  moreover have "LogTailer_StartReading env l s rid t \<noteq> Inl e \<and> LogTailer_StopReading env l rid t \<noteq> Inl e" if "unat rid < n" for rid l s e
    using StartReading_inv [OF inv, of rid env l s] StopReading_inv [OF inv, of rid env l] that len by auto
  moreover have "LogTailer_Tick env now t \<noteq> Some (Inl e)" for now e
    using tick_loop_keeps [of env now t "Inl e"] inv by (auto simp: LogTailer_Tick_def)
  moreover have "replay (lt_outputs t) (\<lambda>_ _. None) = Some (next_due t)" using inv by (simp add: tailer_inv_def)
  ultimately show ?thesis by blast
qed

text \<open>A storage that opens a first log, and then goes on or not; the first restart is due at time 10.\<close>

definition example_storage :: "bool \<Rightarrow> storage_env" where
  "example_storage up = \<lparr> create_status = (\<lambda>_. OK), open_status = (\<lambda>h rid l n. if up \<or> h = [] then OK else InternalError []),
     close_status = (\<lambda>h rid l. OK), find_time_status = (\<lambda>h l. OK), restart_time = (\<lambda>h. if length h \<le> 1 then 10 else 30) \<rparr>"

definition example_open :: LogTailer where
  "example_open = \<lparr> lt_storage = True, lt_readers = [\<lparr> lt_log_state = [] \<rparr>,
       \<lparr> lt_log_state = [(7, \<lparr> lt_next_seqno = 5, restart_event_handle = (10, 1, 7) \<rparr>)] \<rparr>],
     restart_events = [(10, 1, 7)], storage_to_room = [Gap_command kBenign 7 5 9 1, Gap_command kBenign 7 3 9 1], lt_outputs = [Opened 1 7 5] \<rparr>"

lemma example_open_reach: "tailer_reach (example_storage up) 2 example_open"
proof -
  let ?t0 = "\<lparr> lt_storage = True, lt_readers = [\<lparr> lt_log_state = [] \<rparr>, \<lparr> lt_log_state = [] \<rparr>], restart_events = [], storage_to_room = [], lt_outputs = [] \<rparr>"
  let ?t1 = "example_open\<lparr> storage_to_room := [] \<rparr>"
  let ?t2 = "example_open\<lparr> storage_to_room := [Gap_command kBenign 7 5 9 1] \<rparr>"
  have "LogTailer_Initialize (example_storage True) True True 2 LogTailer_new = Inr (OK, ?t0)"
    "LogTailer_Initialize (example_storage False) True True 2 LogTailer_new = Inr (OK, ?t0)" by code_simp+
  then have "tailer_reach (example_storage up) 2 ?t0" by (intro tailer_ready) (cases up; simp)
  moreover have "LogTailer_StartReading (example_storage True) 7 5 1 ?t0 = Inr (OK, ?t1)"
    "LogTailer_StartReading (example_storage False) 7 5 1 ?t0 = Inr (OK, ?t1)" by code_simp+
  then have "LogTailer_StartReading (example_storage up) 7 5 1 ?t0 = Inr (OK, ?t1)" by (cases up) simp_all
  ultimately have "tailer_reach (example_storage up) 2 ?t1" using tailer_start [of "example_storage up" 2 ?t0 1] by simp
  then have "tailer_reach (example_storage up) 2 ?t2"
    by (rule tailer_gap [of _ _ _ 1 True 7 kBenign 5 9])
      (simp_all add: gap_cb_def TryForward_def)
  then show ?thesis
    by (rule tailer_gap [of _ _ _ 1 True 7 kBenign 3 9])
      (simp_all add: gap_cb_def TryForward_def example_open_def)
qed

theorem log_tailer_in_order_witness:
  "next_due example_open 1 7 = Some 5
    \<and> (\<exists>t'. run_command (Gap_command kBenign 7 5 9 1) (example_open\<lparr> storage_to_room := [Gap_command kBenign 7 3 9 1] \<rparr>) = Inr t'
         \<and> lt_outputs t' = [Opened 1 7 5, Gap_out 1 7 kBenign 5 9])
    \<and> (\<exists>t'. run_command (Gap_command kBenign 7 3 9 1) (example_open\<lparr> storage_to_room := [Gap_command kBenign 7 5 9 1] \<rparr>) = Inr t'
         \<and> lt_outputs t' = [Opened 1 7 5])"
proof -
  have due: "next_due example_open 1 7 = Some 5" by code_simp
  have run: "\<exists>t'. run_command cmd (example_open\<lparr> storage_to_room := q @ q' \<rparr>) = Inr t'
       \<and> lt_outputs t' = lt_outputs example_open @ passed_on (next_due example_open) cmd"
    if "storage_to_room example_open = q @ cmd # q'" for q cmd q'
    using log_tailer_in_order [OF example_open_reach [of True]] that by blast
  have q: "storage_to_room example_open = [Gap_command kBenign 7 5 9 1, Gap_command kBenign 7 3 9 1]" "lt_outputs example_open = [Opened 1 7 5]"
    by (simp_all add: example_open_def)
  show ?thesis
    using due run [of "[]" "Gap_command kBenign 7 5 9 1" "[Gap_command kBenign 7 3 9 1]"]
      run [of "[Gap_command kBenign 7 5 9 1]" "Gap_command kBenign 7 3 9 1" "[]"]
    by (simp add: q)
qed

text \<open>
  C21. Forced restarts. If the storage opens logs from now on, \<open>Tick\<close> returns: it leaves no restart due, and every reader is due the same
  number as before. If the storage refuses to open logs while a restart is due, \<open>Tick\<close> never returns: a failed \<open>StartReading\<close> leaves the
  event at the head of the set, and the loop tries it again forever.
\<close>

theorem forced_restarts:
  assumes "tailer_reach env n t"
  shows "(opens_from env (lt_outputs t) True \<and> restarts_after env (lt_outputs t) now \<longrightarrow>
      (\<exists>t'. LogTailer_Tick env now t = Some (Inr t') \<and> next_due t' = next_due t \<and> due_events now t' = {}))
    \<and> (opens_from env (lt_outputs t) False \<and> due_events now t \<noteq> {} \<longrightarrow> LogTailer_Tick env now t = None)"
proof -
  have inv: "tailer_inv t" using tailer_reach_ok [OF assms] by (simp add: tailer_state_ok_def)
  have "\<exists>t'. LogTailer_Tick env now t = Some (Inr t') \<and> next_due t' = next_due t \<and> due_events now t' = {}"
    if "opens_from env (lt_outputs t) True" "restarts_after env (lt_outputs t) now"
    using tick_loop_ends [OF that inv] by (auto simp: LogTailer_Tick_def)
  moreover have "LogTailer_Tick env now t = None" if "opens_from env (lt_outputs t) False" "due_events now t \<noteq> {}"
    using tick_loop_diverges [of env now t] inv that by (simp add: LogTailer_Tick_def stuck_def)
  ultimately show ?thesis by blast
qed

theorem forced_restarts_witness:
  "due_events 20 example_open = {(10, 1, 7)}
    \<and> (\<exists>t'. LogTailer_Tick (example_storage True) 20 example_open = Some (Inr t')
         \<and> next_due t' = next_due example_open \<and> due_events 20 t' = {})
    \<and> LogTailer_Tick (example_storage False) 20 example_open = None"
proof -
  have due: "due_events 20 example_open = {(10, 1, 7)}" by (auto simp: due_events_def example_open_def)
  have up: "opens_from (example_storage True) (lt_outputs example_open) True" "restarts_after (example_storage True) (lt_outputs example_open) 20"
    and down: "opens_from (example_storage False) (lt_outputs example_open) False"
    by (simp_all add: opens_from_def restarts_after_def example_storage_def example_open_def)
  show ?thesis
    using forced_restarts [OF example_open_reach [of True], of 20] forced_restarts [OF example_open_reach [of False], of 20] up down due by simp
qed

end
