(* ===== verification/ReaderSource.thy ===== *)
theory ReaderSource
  imports LogTailer TopicTailer
begin

text \<open>
  The readers of a topic tailer on top of the log tailer: the calls that \<open>LogReader\<close> (\<open>src/controltower/topic_tailer.cc\<close>) makes on
  its \<open>tailer_\<close> are run on the model of \<open>LogTailer\<close>, and the records and gaps that the tailer passes on are processed by the readers. A
  reader ignores the status of \<open>StartReading\<close>, so it relies on a storage that opens every log; then it expects exactly what the
  tailer delivers next.
\<close>

section \<open>The interface\<close>



fun run_calls :: "(tailer_call \<Rightarrow> 't \<Rightarrow> failure + 't) \<Rightarrow> tailer_call list \<Rightarrow> 't \<Rightarrow> failure + 't" where
  "run_calls call [] t = Inr t"
| "run_calls call (c # cs) t = andThen (call c t) (run_calls call cs)"

text \<open>The number that a reader expects next in a log, if it is reading it.\<close>

definition expects :: "LogReader \<Rightarrow> LogID \<Rightarrow> SequenceNumber option" where
  "expects r l = (case umap_find (log_state r) l of None \<Rightarrow> None | Some ls \<Rightarrow> if is_reading ls then Some (last_read ls + 1) else None)"




section \<open>The calls on the log tailer\<close>

text \<open>\<open>tailer_->StartReading\<close> and \<open>tailer_->StopReading\<close>; the status is ignored.\<close>

fun tailer_call_step :: "storage_env \<Rightarrow> tailer_call \<Rightarrow> LogTailer \<Rightarrow> failure + LogTailer" where
  "tailer_call_step env (Tailer_StartReading l n rid) t = andThen (LogTailer_StartReading env l n rid t) (\<lambda>(_, t). Inr t)"
| "tailer_call_step env (Tailer_StopReading l rid) t = andThen (LogTailer_StopReading env l rid t) (\<lambda>(_, t). Inr t)"





section \<open>The operations of a reader\<close>

lemma expects_set_log [simp]:
  "expects (set_log l ls r) = (expects r)(l := (if is_reading ls then Some (last_read ls + 1) else None))"
  by (auto simp: expects_def fun_eq_iff)

lemma expects_erase [simp]: "expects (r\<lparr> log_state := umap_erase (log_state r) l \<rparr>) = (expects r)(l := None)"
  by (auto simp: expects_def fun_eq_iff)










text \<open>Records read from the cache move a reader past what is due; it is paused, restarted or merged before anything else happens.\<close>

fun process_records :: "LogID \<Rightarrow> (SequenceNumber \<times> topic_uuid) list \<Rightarrow> LogReader \<Rightarrow> failure + LogReader" where
  "process_records l [] r = Inr r"
| "process_records l ((n, u) # recs) r = andThen (ProcessRecord r l n u) (\<lambda>(_, r). process_records l recs r)"










section \<open>Records and gaps\<close>

text \<open>What \<open>ReceiveLogRecord\<close> and \<open>SendGapRecord\<close> do to the reader, with the topics of the log that have subscribers.\<close>

definition receive_record :: "MessageData \<Rightarrow> LogID \<Rightarrow> LogReader \<Rightarrow> failure + SequenceNumber \<times> LogReader" where
  "receive_record m l r =
     andThen (rs_assert (data_seqno m = GetNextSequenceNumber r l)) (\<lambda>_. ProcessRecord r l (data_seqno m) (data_uuid m))"

fun process_gaps :: "topic_uuid list \<Rightarrow> GapType \<Rightarrow> LogID \<Rightarrow> SequenceNumber \<Rightarrow> SequenceNumber \<Rightarrow> LogReader \<Rightarrow> failure + LogReader" where
  "process_gaps [] type l from to r = Inr r"
| "process_gaps (u # us) type l from to r = andThen (ProcessGap r l u type from to) (\<lambda>(_, r). process_gaps us type l from to r)"

definition receive_gap :: "topic_uuid list \<Rightarrow> GapType \<Rightarrow> LogID \<Rightarrow> SequenceNumber \<Rightarrow> SequenceNumber \<Rightarrow> LogReader \<Rightarrow> failure + LogReader" where
  "receive_gap us type l from to r =
     andThen (process_gaps us type l from to r)
       (\<lambda>r. Inr (if type = kBenign then ProcessBenignGap r l from to else FlushHistory r l (to + 1)))"

fun room_hears :: "topic_uuid list \<Rightarrow> lt_output list \<Rightarrow> LogReader \<Rightarrow> failure + LogReader" where
  "room_hears us [] r = Inr r"
| "room_hears us (Record_out rid l m # xs) r = andThen (receive_record m l r) (\<lambda>(_, r). room_hears us xs r)"
| "room_hears us (Gap_out rid l type from to # xs) r = andThen (receive_gap us type l from to r) (room_hears us xs)"
| "room_hears us (_ # xs) r = room_hears us xs r"








section \<open>A room at work\<close>

text \<open>
  The readers of a room and its log tailer. The operations of \<open>TopicTailer\<close> are sequences of these steps: it subscribes and
  unsubscribes, reads from the cache, merges readers and lets one take over the virtual reader \<open>p\<close>, bumps topics, and hears what the
  tailer passes on. \<open>room_steal\<close> has the condition of \<open>steal_keeps_step\<close>.
\<close>

inductive room_reach :: "storage_env \<Rightarrow> nat \<Rightarrow> LogReader list \<Rightarrow> LogTailer \<Rightarrow> bool" for env n where
  room_ready: "LogTailer_Initialize env True True n LogTailer_new = Inr (OK, t) \<Longrightarrow> n < 2 ^ 64 \<Longrightarrow>
    room_reach env n (map (\<lambda>i. LogReader_new False (of_nat i) lag) [0..<n]) t"
| room_subscribe: "room_reach env n rs t \<Longrightarrow> i < length rs \<Longrightarrow> LogReader_StartReading (rs ! i) u l s = (r, calls) \<Longrightarrow>
    run_calls (tailer_call_step env) calls t = Inr t' \<Longrightarrow> room_reach env n (rs[i := r]) t'"
| room_unsubscribe: "room_reach env n rs t \<Longrightarrow> i < length rs \<Longrightarrow> LogReader_StopReading (rs ! i) u l = (r, calls) \<Longrightarrow>
    run_calls (tailer_call_step env) calls t = Inr t' \<Longrightarrow> room_reach env n (rs[i := r]) t'"
| room_cache: "room_reach env n rs t \<Longrightarrow> i < length rs \<Longrightarrow> process_records l recs (rs ! i) = Inr r1 \<Longrightarrow>
    PauseReading r1 l = Inr (r, calls) \<or> RestartReading r1 l = Inr (r, calls) \<Longrightarrow>
    run_calls (tailer_call_step env) calls t = Inr t' \<Longrightarrow> room_reach env n (rs[i := r]) t'"
| room_merge: "room_reach env n rs t \<Longrightarrow> i < length rs \<Longrightarrow> j < length rs \<Longrightarrow> i \<noteq> j \<Longrightarrow> process_records l recs (rs ! i) = Inr r1 \<Longrightarrow>
    MergeInto r1 (rs ! j) l = Inr (src, dest, calls) \<Longrightarrow>
    run_calls (tailer_call_step env) calls t = Inr t' \<Longrightarrow> room_reach env n (rs[i := src, j := dest]) t'"
| room_steal: "room_reach env n rs t \<Longrightarrow> i < length rs \<Longrightarrow> StealLogSubscriptions st (rs ! i) p l = Inr (r, p', calls) \<Longrightarrow> status_ok st \<Longrightarrow>
    umap_find (log_state p) l = Some ls \<Longrightarrow> is_reading ls \<Longrightarrow> ComputeStartSeqno ls = Inr (last_read ls + 1) \<Longrightarrow>
    run_calls (tailer_call_step env) calls t = Inr t' \<Longrightarrow> room_reach env n (rs[i := r]) t'"
| room_bump: "room_reach env n rs t \<Longrightarrow> i < length rs \<Longrightarrow> BumpLaggingSubscriptions (rs ! i) l s = Some (r, bumped) \<Longrightarrow>
    room_reach env n (rs[i := r]) t"
| room_record: "room_reach env n rs t \<Longrightarrow> unat rid < n \<Longrightarrow> room_reach env n rs (snd (record_cb accepted rid rec t))"
| room_gap: "room_reach env n rs t \<Longrightarrow> unat rid < n \<Longrightarrow> room_reach env n rs (snd (gap_cb accepted rid l type from to t))"
| room_command: "room_reach env n rs t \<Longrightarrow> storage_to_room t = q @ cmd # q' \<Longrightarrow> i < length rs \<Longrightarrow> reader_id (rs ! i) = command_reader cmd \<Longrightarrow>
    run_command cmd (t\<lparr> storage_to_room := q @ q' \<rparr>) = Inr t' \<Longrightarrow>
    room_hears us (passed_on (next_due t) cmd) (rs ! i) = Inr r \<Longrightarrow> room_reach env n (rs[i := r]) t'"
| room_tick: "room_reach env n rs t \<Longrightarrow> LogTailer_Tick env now t = Some (Inr t') \<Longrightarrow> room_reach env n rs t'"









section \<open>Properties\<close>


text \<open>Reader 1 of two has subscribed to log 7 from number 5.\<close>

definition example_readers :: "LogReader list" where
  "example_readers = [LogReader_new False 0 100,
     \<lparr> is_virtual = False, reader_id = 1, log_state = [(7, \<lparr> topics = [([], 5)], last_read = 4, is_reading = True \<rparr>)], max_subscription_lag = 100 \<rparr>]"

lemma example_room: "room_reach (example_storage up) 2 example_readers (example_open\<lparr> storage_to_room := [] \<rparr>)"
proof -
  let ?t0 = "\<lparr> lt_storage = True, lt_readers = [\<lparr> lt_log_state = [] \<rparr>, \<lparr> lt_log_state = [] \<rparr>], restart_events = [], storage_to_room = [], lt_outputs = [] \<rparr>"
  let ?rs = "map (\<lambda>i. LogReader_new False (of_nat i) 100) [0..<2]"
  have "LogTailer_Initialize (example_storage True) True True 2 LogTailer_new = Inr (OK, ?t0)"
    "LogTailer_Initialize (example_storage False) True True 2 LogTailer_new = Inr (OK, ?t0)" by code_simp+
  then have reach: "room_reach (example_storage up) 2 ?rs ?t0" by (intro room_ready) (cases up; simp)+
  have start: "LogReader_StartReading (?rs ! 1) [] 7 5 = (example_readers ! 1, [Tailer_StartReading 7 5 1])" by code_simp
  have "run_calls (tailer_call_step (example_storage True)) [Tailer_StartReading 7 5 1] ?t0 = Inr (example_open\<lparr> storage_to_room := [] \<rparr>)"
    "run_calls (tailer_call_step (example_storage False)) [Tailer_StartReading 7 5 1] ?t0 = Inr (example_open\<lparr> storage_to_room := [] \<rparr>)"
    by code_simp+
  then have run: "run_calls (tailer_call_step (example_storage up)) [Tailer_StartReading 7 5 1] ?t0 = Inr (example_open\<lparr> storage_to_room := [] \<rparr>)"
    by (cases up) simp_all
  have "room_reach (example_storage up) 2 (?rs[1 := example_readers ! 1]) (example_open\<lparr> storage_to_room := [] \<rparr>)"
    by (rule room_subscribe [OF reach _ start run]) simp
  moreover have "?rs[1 := example_readers ! 1] = example_readers" by code_simp
  ultimately show ?thesis by (simp only:)
qed


text \<open>
  Without that storage the readers are not in step. \<open>StartLogReader\<close> ignores the status of \<open>tailer_->StartReading\<close>: when a reader
  rewinds and the storage refuses to open the log again, the tailer goes on where it was, and its next record fails the assertion of
  \<open>ReceiveLogRecord\<close>.
\<close>

lemma refused_rewind_fails:
  "\<exists>rs t. room_reach (example_storage False) 2 rs t
    \<and> passed_on (next_due t) (Record_command (MessageData_new\<lparr> data_seqno := 5 \<rparr>) 7 1) \<noteq> []
    \<and> receive_record (MessageData_new\<lparr> data_seqno := 5 \<rparr>) 7 (rs ! 1) = Inl Assert_failed"
proof -
  let ?t = "example_open\<lparr> storage_to_room := [] \<rparr>" and ?m = "MessageData_new\<lparr> data_seqno := 5 \<rparr>"
  define r where "r = fst (LogReader_StartReading (example_readers ! 1) [1] 7 3)"
  define t where "t = add_output (Open_failed 1 7 3) ?t"
  have start: "LogReader_StartReading (example_readers ! 1) [1] 7 3 = (r, [Tailer_StartReading 7 3 1])" unfolding r_def by code_simp
  have run: "run_calls (tailer_call_step (example_storage False)) [Tailer_StartReading 7 3 1] ?t = Inr t" unfolding t_def by code_simp
  have "room_reach (example_storage False) 2 (example_readers[1 := r]) t"
    by (rule room_subscribe [OF example_room _ start run]) (simp add: example_readers_def)
  moreover have "passed_on (next_due t) (Record_command ?m 7 1) \<noteq> []" unfolding t_def by code_simp
  moreover have "receive_record ?m 7 (example_readers[1 := r] ! 1) = Inl Assert_failed" unfolding r_def by code_simp
  ultimately show ?thesis by blast
qed

end
