(* ===== verification/Spec2Isabelle.thy ===== *)
theory Spec2Isabelle
  imports Messages BitStream SubscriptionId IdAllocator TimeoutList TopicUuid TopicManager LogReader CacheVisit FlowControl TowerSteps TowerRequests ReaderSource
begin

text \<open>
  RocketSpeed is a publish-subscribe system over replicated logs. Publishers send messages on topics to pilots, which append them
  to logs; control towers tail the logs and send the records to the copilots that subscribed to their topics; copilots and
  proxies fan out to the clients. This development models the parts of it that compute: the wire format, the identifiers,
  the containers, the flow control, and the whole reading side of a control tower, from the records of a log and the data cache to the messages for
  subscribers. All paths below are under \<open>src/src\<close>.

  \<^bold>\<open>Conventions.\<close> Integers of the code are words of their width and wrap around. A class is a record, a method a function from the
  state to the new state and its result. \<open>failure + 'a\<close> is a call that may fail: with an error status, an assertion
  (\<open>RS_ASSERT\<close>) or a length error of the standard library. \<open>option\<close> around it is a loop that may not end, \<open>None\<close> being one that
  does not. Hash maps are association lists (\<open>umap\<close>) in some iteration order, linked maps are lists in their order (\<open>odict\<close>). Calls on code that is not
  modelled are returned as lists of effects or answered by parameters. No model uses fuel: loops are structural, have a termination
  proof, or are partial functions of which termination is proved.

  \<^bold>\<open>Foundations.\<close> \<open>Prelude\<close>: failures, words, the shared lemmas and rule collections. \<open>Status\<close>: \<open>include/Status.h\<close>. \<open>Coding\<close>, \<open>BitStream\<close>:
  \<open>util/common/coding.cc\<close>, fixed-width and varint coding, bit-level access, the delimiter scan; a locale of field codecs carries the
  round trips. \<open>Hash\<close>, \<open>XxHash\<close>, \<open>Bloom\<close>: \<open>util/common/hash.h\<close>, \<open>util/xxhash.cc\<close>, \<open>util/bloom.cc\<close>; streaming hashes equal
  one-shot ones, filters have no false negatives.

  \<^bold>\<open>Wire format.\<close> \<open>MessageTypes\<close> and \<open>Messages\<close>: \<open>messages/messages.cc\<close>, one record and one pair of \<open>Serialize\<close> and \<open>DeSerialize\<close> for each message
  class. Every message survives the round trip, no strict prefix of one is accepted, and whatever is accepted is well formed.

  \<^bold>\<open>Identifiers.\<close> \<open>SubscriptionId\<close>: \<open>util/common/subscription_id.cc\<close>. \<open>IdAllocator\<close>: \<open>util/id_allocator.h\<close>. \<open>TopicUuid\<close>: \<open>util/topic_uuid.cc\<close>.
  Identifiers are not repeated, allocators divide their range, topic identifiers determine namespace and topic.

  \<^bold>\<open>Containers.\<close> \<open>Maps\<close> and \<open>OrderedDict\<close> hold the abstract maps. \<open>LinkedMap\<close>: \<open>util/common/linked_map.h\<close>, shown to implement ordered
  dictionaries through a locale. \<open>TimeoutList\<close>: \<open>util/timeout_list.h\<close>. \<open>HandleTable\<close>, \<open>LruCache\<close>, \<open>CacheSession\<close>: \<open>util/cache.cc\<close>, the hash table, the
  LRU cache over a heap of handles with reference counts, and sequences of its calls. The cache is a map that may forget, stays within its capacity when
  nothing is pinned, and fails no assertion in a client that releases what it looks up. \<open>ObservableMap\<close>: \<open>messages/observable_map.h\<close>,
  no wake-up is lost.

  \<^bold>\<open>Flow control.\<close> \<open>FlowControl\<close>: \<open>messages/flow_control.cc\<close>, \<open>util/common/flow.h\<close>. Sources are enabled exactly when no sink blocks them, in every reachable
  state, and a blocked source is enabled again once its sinks are writable.

  \<^bold>\<open>Control tower.\<close> \<open>TopicManager\<close>: \<open>controltower/topic.cc\<close>, \<open>util/subscription_map.h\<close>, the subscribers of the topics of a log. \<open>LogReader\<close>: the class of that name in
  \<open>controltower/topic_tailer.cc\<close>, a position in each log with the next expected record of each topic. \<open>DataCache\<close>, \<open>CacheVisit\<close>:
  \<open>controltower/data_cache.cc\<close>, blocks of records with hashes and Bloom filters in the LRU cache; a visit is a scan of a run of
  records. \<open>TopicTailer\<close>: the rest of \<open>controltower/topic_tailer.cc\<close>, every handler. \<open>TowerRecords\<close> states, relative to the content of the logs, that no subscriber is moved past a record
  it was not sent, and proves it with the invariant of the readers for the handlers of records; \<open>TowerSubscriptions\<close> for
  those of subscriptions; \<open>TowerSteps\<close> closes the invariant over all states the handlers reach, and has the run in
  which a gap record breaks the promise, a defect of the code. \<open>TowerRequests\<close>: the bound on requests for
  the latest sequence number. \<open>LogTailer\<close>: \<open>controltower/log_tailer.cc\<close>, the readers of the storage with their restarts; records are passed on in
  order, and the loop of restarts ends exactly when the storage lets it. \<open>ReaderSource\<close>: the readers of the topic tailer on top of the log
  tailer, through a locale of record sources that the log tailer interprets; a reader expects what the tailer passes on next, so the
  assertion on the number of an arriving record holds while the storage opens logs.

  \<^bold>\<open>Hypotheses.\<close> Of the log tailer, in \<open>TowerSteps\<close>: it hands a reader the record after the last one it has read (\<open>next_record\<close>), which
  \<open>ReaderSource\<close> shows of its model, with a sequence number below the maximum and a lag that does not overflow. Of the storage, in \<open>LogTailer\<close> and
  \<open>ReaderSource\<close>: nothing, except where a theorem says that it opens logs (\<open>opens_from\<close>) or that restarts are scheduled in the future
  (\<open>restarts_after\<close>). Of the cache: a message fits the counters of its block
  (\<open>storable\<close>). Of the streams: each belongs to a worker (\<open>workers_ok\<close>). Of topics: identifiers decode (\<open>valid_uuid\<close>).

  \<^bold>\<open>Not modelled.\<close> Event loop, sockets, threads and queues (\<open>messages/event_loop.cc\<close>, \<open>msg_loop.cc\<close>, \<open>socket_event.cc\<close>, \<open>stream.cc\<close>, \<open>queues.cc\<close>)
  are bindings to libraries outside the repository. Copilot, pilot, proxies, client and
  engine keep their state behind those loops, timers and user callbacks. The storage (\<open>logdevice\<close>) drives an external log
  service. Statistics, logging, ports, bindings, tools and tests have no behaviour that the modelled parts depend on.
\<close>

end
